(* ===== verification/Prelude.thy ===== *)
theory Prelude
  imports Main "HOL-Library.Word" "HOL-Library.AList" "HOL-Library.Multiset"
begin

text \<open>
  What the component theories share: the machine-integer and time types of the Rust sources,
  the saturating and truncating operations of Rust's standard library, byte strings, and the
  generic lemmas on association lists, folds and results.

  Conventions of the whole development:
  \<^item> a Rust \<open>String\<close> is the list of its UTF-8 bytes, a \<open>string\<close> of HOL (a HOL character is one byte);
  \<^item> \<open>u8\<close>, \<open>u16\<close>, \<open>u32\<close>, \<open>u64\<close> are words (\<open>+\<close> wraps, as a release build does);
    \<open>usize\<close> and lengths are \<open>nat\<close> with the saturation at \<open>usize_max\<close> written out;
  \<^item> a \<open>Duration\<close> is its number of nanoseconds, bounded by \<open>duration_max\<close>; an \<open>Instant\<close> is the
    number of nanoseconds since an arbitrary origin;
  \<^item> a \<open>HashMap\<close> or \<open>BTreeMap\<close> that the code iterates over is an association list with distinct
    keys (\<open>map_of\<close>, \<open>AList.update\<close>, \<open>AList.delete\<close>);
  \<^item> \<open>Result<T, E>\<close> is \<open>E + T\<close>, \<open>Inl\<close> the error.
\<close>

section \<open>Collections of facts\<close>

named_theorems queue_defs \<open>definitions of the queue operations\<close>
named_theorems error_defs \<open>definitions of the error classification\<close>
named_theorems limiter_defs \<open>definitions of the politeness limiter\<close>
named_theorems stats_defs \<open>definitions of the statistics operations\<close>

section \<open>Machine integers and time\<close>

type_synonym u8 = "8 word"
type_synonym u16 = "16 word"
type_synonym u32 = "32 word"
type_synonym u64 = "64 word"
type_synonym duration = nat
type_synonym instant = nat
type_synonym wall_time = int

definition usize_max :: nat where
  "usize_max = 2 ^ 64 - 1"

definition secs :: "nat \<Rightarrow> duration" where
  "secs n = n * 1000000000"

definition millis :: "nat \<Rightarrow> duration" where
  "millis n = n * 1000000"

definition duration_max :: duration where
  "duration_max = secs (2 ^ 64 - 1) + 999999999"

text \<open>Rust's \<open>saturating_add\<close> on an unsigned word, on \<open>usize\<close> and on \<open>Duration\<close>.\<close>

definition sat_add :: "'a::len word \<Rightarrow> 'a word \<Rightarrow> 'a word" where
  "sat_add a b = (if unat a + unat b < 2 ^ LENGTH('a) then a + b else - 1)"

definition sat_sub :: "'a::len word \<Rightarrow> 'a word \<Rightarrow> 'a word" where
  "sat_sub a b = (if b \<le> a then a - b else 0)"

definition usize_sat_add :: "nat \<Rightarrow> nat \<Rightarrow> nat" where
  "usize_sat_add a b = min usize_max (a + b)"

definition dur_sat_add :: "duration \<Rightarrow> duration \<Rightarrow> duration" where
  "dur_sat_add a b = min duration_max (a + b)"

lemma unat_sat_add: "unat (sat_add a b) = min (2 ^ LENGTH('a) - 1) (unat (a :: 'a::len word) + unat b)"
proof (cases "unat a + unat b < 2 ^ LENGTH('a)")
  case True
  then show ?thesis by (simp add: sat_add_def unat_word_ariths)
next
  case False
  then show ?thesis by (simp add: sat_add_def unsigned_minus_1_eq_mask mask_eq_exp_minus_1)
qed

lemma unat_sat_sub: "unat (sat_sub a b) = unat (a :: 'a::len word) - unat b"
  by (auto simp: sat_sub_def unat_sub word_le_nat_alt)

lemma unat_inc:
  "unat (a :: 'a::len word) < 2 ^ LENGTH('a) - 1 \<Longrightarrow> unat (a + 1) = Suc (unat a)"
proof -
  assume "unat a < 2 ^ LENGTH('a) - 1"
  then have "unat a + 1 < 2 ^ LENGTH('a)" by simp
  then show ?thesis by (simp add: unat_word_ariths)
qed

lemma unat_not_max: "(a :: 'a::len word) \<noteq> - 1 \<Longrightarrow> unat a < 2 ^ LENGTH('a) - 1"
proof -
  assume "a \<noteq> - 1"
  then have "unat a \<noteq> 2 ^ LENGTH('a) - 1"
    by (simp add: word_unat_eq_iff unsigned_minus_1_eq_mask mask_eq_exp_minus_1)
  moreover have "unat a < 2 ^ LENGTH('a)" by (rule unsigned_less)
  ultimately show ?thesis by linarith
qed

lemma unat_of_nat_small: "n < 2 ^ LENGTH('a) \<Longrightarrow> unat (word_of_nat n :: 'a::len word) = n"
  by (simp add: unat_of_nat)

lemma sat_add_Suc:
  assumes "Suc k < 2 ^ LENGTH('a)"
  shows "sat_add (word_of_nat k) 1 = (word_of_nat (Suc k) :: 'a::len word)"
proof -
  have "unat (word_of_nat k :: 'a word) = k" using assms by (intro unat_of_nat_small) simp
  then have "sat_add (word_of_nat k) (1 :: 'a word) = word_of_nat k + 1" using assms by (simp add: sat_add_def)
  then show ?thesis by simp
qed

lemma word_less_inc: "(n :: 'a::len word) \<noteq> - 1 \<Longrightarrow> a \<le> n \<Longrightarrow> a < n + 1"
  using unat_inc [OF unat_not_max, of n] by (simp add: word_less_nat_alt word_le_nat_alt)

section \<open>Strings\<close>

text \<open>\<open>str::as_bytes\<close>, \<open>to_ascii_lowercase\<close>, \<open>eq_ignore_ascii_case\<close> and \<open>join\<close>.\<close>

definition as_bytes :: "string \<Rightarrow> u8 list" where
  "as_bytes s = map of_char s"

definition ascii_lower :: "char \<Rightarrow> char" where
  "ascii_lower c =
     (let n = of_char c :: nat in if 65 \<le> n \<and> n \<le> 90 then char_of (n + 32) else c)"

definition to_ascii_lowercase :: "string \<Rightarrow> string" where
  "to_ascii_lowercase s = map ascii_lower s"

definition eq_ignore_ascii_case :: "string \<Rightarrow> string \<Rightarrow> bool" where
  "eq_ignore_ascii_case s t = (to_ascii_lowercase s = to_ascii_lowercase t)"

text \<open>\<open>u8::is_ascii_digit\<close> and \<open>is_ascii_hexdigit\<close>.\<close>

definition is_digit :: "char \<Rightarrow> bool" where
  "is_digit c = (let n = of_char c :: nat in 48 \<le> n \<and> n \<le> 57)"

definition is_hexdigit :: "char \<Rightarrow> bool" where
  "is_hexdigit c = (let n = of_char c :: nat in
     48 \<le> n \<and> n \<le> 57 \<or> 97 \<le> n \<and> n \<le> 102 \<or> 65 \<le> n \<and> n \<le> 70)"

fun join :: "string \<Rightarrow> string list \<Rightarrow> string" where
  "join sep [] = []"
| "join sep [x] = x"
| "join sep (x # y # zs) = x @ sep @ join sep (y # zs)"

text \<open>
  \<open>s.chars().take(n).collect()\<close>: the longest prefix with at most \<open>n\<close> scalar values. A byte
  \<open>10xxxxxx\<close> continues the scalar value before it.
\<close>

definition is_continuation :: "char \<Rightarrow> bool" where
  "is_continuation c = (let n = of_char c :: nat in 128 \<le> n \<and> n < 192)"

fun chars_take :: "nat \<Rightarrow> string \<Rightarrow> string" where
  "chars_take n [] = []"
| "chars_take n (c # cs) =
     (if is_continuation c then c # chars_take n cs
      else (case n of 0 \<Rightarrow> [] | Suc m \<Rightarrow> c # chars_take m cs))"

definition chars_count :: "string \<Rightarrow> nat" where
  "chars_count s = length (filter (\<lambda>c. \<not> is_continuation c) s)"

lemma chars_take_count: "chars_count (chars_take n s) \<le> n"
  by (induction n s rule: chars_take.induct) (auto simp: chars_count_def split: nat.splits)

lemma chars_take_id: "chars_count s \<le> n \<Longrightarrow> chars_take n s = s"
  by (induction n s rule: chars_take.induct) (auto simp: chars_count_def split: nat.splits if_splits)

lemma chars_take_prefix: "\<exists>rest. s = chars_take n s @ rest"
  by (induction n s rule: chars_take.induct) (auto split: nat.splits)

section \<open>Association lists as maps\<close>

lemma distinct_fst_filter: "distinct (map fst xs) \<Longrightarrow> distinct (map fst (filter P xs))"
  by (induction xs) auto

lemma map_of_delete_other [simp]: "k \<noteq> k' \<Longrightarrow> map_of (AList.delete k m) k' = map_of m k'"
  by (simp add: AList.delete_conv')

lemma map_of_delete_same [simp]: "map_of (AList.delete k m) k = None"
  by (simp add: AList.delete_conv')

lemma map_of_update_same [simp]: "map_of (AList.update k v m) k = Some v"
  by (simp add: AList.update_conv')

lemma map_of_update_other [simp]: "k \<noteq> k' \<Longrightarrow> map_of (AList.update k v m) k' = map_of m k'"
  by (simp add: AList.update_conv')

lemma update_new: "map_of m k = None \<Longrightarrow> AList.update k v m = m @ [(k, v)]"
  by (induction m) (auto split: if_splits)

lemma map_update_same:
  "map_of m k = Some v \<Longrightarrow> g (k, v') = g (k, v) \<Longrightarrow> map g (AList.update k v' m) = map g m"
  by (induction m) (auto split: if_splits)

lemma delete_absent: "map_of m k = None \<Longrightarrow> AList.delete k m = m"
  by (induction m) (auto simp: AList.delete_eq split: if_splits)

lemma set_delete_alist: "set (AList.delete k m) = {p \<in> set m. fst p \<noteq> k}"
  by (auto simp: AList.delete_eq)

lemma set_update_alist:
  "distinct (map fst m) \<Longrightarrow> set (AList.update k v m) = insert (k, v) {p \<in> set m. fst p \<noteq> k}"
  by (induction m) (auto simp: rev_image_eqI)

lemma mset_delete:
  "distinct (map fst m) \<Longrightarrow> map_of m k = Some v \<Longrightarrow> mset m = add_mset (k, v) (mset (AList.delete k m))"
proof (induction m)
  case (Cons p m)
  show ?case
  proof (cases "fst p = k")
    case True
    with Cons.prems have "map_of m k = None" by (auto simp: map_of_eq_None_iff)
    then have "AList.delete k (p # m) = m" using True by (simp add: delete_absent)
    with True Cons.prems(2) show ?thesis by (cases p) simp
  next
    case False
    with Cons show ?thesis by (cases p) simp
  qed
qed simp

section \<open>Results and folds over results\<close>

text \<open>The \<open>?\<close> operator of a function that threads a state through fallible steps.\<close>

fun fold_result :: "('a \<Rightarrow> 's \<Rightarrow> 'e + 's) \<Rightarrow> 'a list \<Rightarrow> 's \<Rightarrow> 'e + 's" where
  "fold_result f [] s = Inr s"
| "fold_result f (x # xs) s = (case f x s of Inl e \<Rightarrow> Inl e | Inr s' \<Rightarrow> fold_result f xs s')"

lemma fold_result_invariant:
  assumes "\<And>x s s'. P s \<Longrightarrow> f x s = Inr s' \<Longrightarrow> P s'"
  shows "P s \<Longrightarrow> fold_result f xs s = Inr s' \<Longrightarrow> P s'"
  by (induction xs arbitrary: s) (auto split: sum.splits intro: assms)

end
