(* ===== verification/Request.thy ===== *)
theory Request
  imports Prelude
begin

text \<open>
  Request values and their builder (\<open>millipede-core/src/request.rs\<close>): the FNV hashes, the
  request identifier, the deduplication key, the builder with its deferred errors, and
  \<open>UserData\<close>. The \<open>url\<close>, \<open>http\<close> and \<open>serde_json\<close> crates are not part of the repository: the
  functions of them the code calls are the fields of the record \<open>externals\<close>, an argument of
  every definition that uses one. A URL is a value of the type variable \<open>'u\<close>, a JSON value one
  of \<open>'j\<close>.
\<close>

unbundle bit_operations_syntax

section \<open>Third-party operations the code calls\<close>

record ('u, 'j) externals =
  url_parse :: "string \<Rightarrow> string + 'u"
  url_string :: "'u \<Rightarrow> string"
  url_without_fragment :: "'u \<Rightarrow> 'u"
  url_host_str :: "'u \<Rightarrow> string option"
  url_scheme :: "'u \<Rightarrow> string"
  url_port_or_known_default :: "'u \<Rightarrow> u16 option"
  url_username :: "'u \<Rightarrow> string"
  url_password :: "'u \<Rightarrow> string option"
  url_join :: "'u \<Rightarrow> string \<Rightarrow> string + 'u"
  header_name_from_bytes :: "string \<Rightarrow> string + string"
  header_value_from_bytes :: "string \<Rightarrow> string + string"
  json_to_vec :: "'j \<Rightarrow> u8 list"

type_synonym http_method = string
type_synonym header_map = "(string \<times> string) list"
type_synonym 'j user_data = "(string \<times> 'j) list"

section \<open>Hashes and identifiers\<close>

definition fnv1a64_seeded :: "u8 list \<Rightarrow> u64 \<Rightarrow> u64" where
  "fnv1a64_seeded bytes seed =
     foldl (\<lambda>hash byte. (hash XOR ucast byte) * 0x100000001b3) seed bytes"

definition fnv1a64 :: "u8 list \<Rightarrow> u64" where
  "fnv1a64 bytes = fnv1a64_seeded bytes 0xcbf29ce484222325"

text \<open>Rust's \<open>{:016x}\<close>: sixteen lower-case hexadecimal digits, the most significant first.\<close>

definition hex_digit :: "nat \<Rightarrow> char" where
  "hex_digit n = (if n < 10 then char_of (48 + n) else char_of (87 + n))"

fun hex_digits :: "nat \<Rightarrow> nat \<Rightarrow> string" where
  "hex_digits 0 n = []"
| "hex_digits (Suc k) n = hex_digits k (n div 16) @ [hex_digit (n mod 16)]"

definition hex16 :: "u64 \<Rightarrow> string" where
  "hex16 w = hex_digits 16 (unat w)"

datatype request_id = RequestId string

definition from_unique_key :: "string \<Rightarrow> request_id" where
  "from_unique_key unique_key =
     (let h1 = fnv1a64 (as_bytes unique_key);
          h2 = fnv1a64_seeded (as_bytes unique_key) h1
      in RequestId (hex16 h1 @ hex16 h2))"

primrec as_str :: "request_id \<Rightarrow> string" where
  "as_str (RequestId s) = s"

section \<open>Requests\<close>

datatype 'j request_body = Bytes "u8 list" | Form "(string \<times> string) list" | Json 'j

primrec canonical_bytes :: "('u, 'j) externals \<Rightarrow> 'j request_body \<Rightarrow> u8 list" where
  "canonical_bytes X (Bytes bytes) = bytes"
| "canonical_bytes X (Form pairs) =
     as_bytes (join ''&'' (map (\<lambda>(key, v). key @ ''='' @ v) pairs))"
| "canonical_bytes X (Json v) = json_to_vec X v"

datatype request_state =
  Unprocessed | BeforeNav | AfterNav | InRequestHandler | Done | InErrorHandler | Error | Skipped

record ('u, 'j) request =
  req_id :: request_id
  req_url :: 'u
  req_loaded_url :: "'u option"
  req_unique_key :: string
  req_method :: http_method
  req_headers :: header_map
  req_body :: "'j request_body option"
  req_user_data :: "'j user_data"
  req_label :: "string option"
  req_retry_count :: u32
  req_session_rotation_count :: u32
  req_max_retries :: "u32 option"
  req_no_retry :: bool
  req_error_messages :: "string list"
  req_handled_at :: "wall_time option"
  req_state :: request_state
  req_crawl_depth :: u32
  req_skip_navigation :: bool

definition compute_unique_key ::
  "('u, 'j) externals \<Rightarrow> 'u \<Rightarrow> http_method \<Rightarrow> 'j request_body option \<Rightarrow> string" where
  "compute_unique_key X url meth bdy =
     (let normalized = url_without_fragment X url in
      if meth = ''GET'' \<and> bdy = None then url_string X normalized
      else
        let body_bytes = (case bdy of Some b \<Rightarrow> canonical_bytes X b | None \<Rightarrow> []) in
        meth @ ''('' @ hex16 (fnv1a64 body_bytes) @ ''):'' @ url_string X normalized)"

section \<open>User data\<close>

text \<open>\<open>from_value\<close> and the result of \<open>serde_json::to_value\<close> are arguments.\<close>

definition get_typed :: "('j \<Rightarrow> string + 't) \<Rightarrow> 'j user_data \<Rightarrow> string \<Rightarrow> (string + 't) option" where
  "get_typed from_value data key = map_option from_value (map_of data key)"

definition set_typed ::
  "('t \<Rightarrow> string + 'j) \<Rightarrow> 'j user_data \<Rightarrow> string \<Rightarrow> 't \<Rightarrow> string + 'j user_data" where
  "set_typed to_value data key v =
     (case to_value v of Inl e \<Rightarrow> Inl e | Inr j \<Rightarrow> Inr (AList.update key j data))"

definition user_data_is_empty :: "'j user_data \<Rightarrow> bool" where
  "user_data_is_empty data = (data = [])"

definition user_data_get :: "'j user_data \<Rightarrow> string \<Rightarrow> 'j option" where
  "user_data_get data key = map_of data key"

section \<open>The builder\<close>

datatype request_build_error =
  MissingUrl
| InvalidUrl string
| InvalidHeader string string
| BuildSerialization string

record ('u, 'j) request_builder =
  rb_url :: "(string + 'u) option"
  rb_method :: "http_method option"
  rb_headers :: header_map
  rb_pending_headers :: "(string \<times> string) list"
  rb_body :: "'j request_body option"
  rb_serialization_error :: "string option"
  rb_user_data :: "'j user_data"
  rb_label :: "string option"
  rb_max_retries :: "u32 option"
  rb_no_retry :: bool
  rb_skip_navigation :: bool
  rb_unique_key :: "string option"
  rb_forefront :: bool
  rb_crawl_depth :: u32

definition builder :: "('u, 'j) request_builder" where
  "builder = \<lparr>rb_url = None, rb_method = None, rb_headers = [], rb_pending_headers = [],
     rb_body = None, rb_serialization_error = None, rb_user_data = [], rb_label = None,
     rb_max_retries = None, rb_no_retry = False, rb_skip_navigation = False,
     rb_unique_key = None, rb_forefront = False, rb_crawl_depth = 0\<rparr>"

definition b_url :: "string + 'u \<Rightarrow> ('u, 'j) request_builder \<Rightarrow> ('u, 'j) request_builder" where
  "b_url u b = b\<lparr>rb_url := Some u\<rparr>"

definition b_method :: "http_method \<Rightarrow> ('u, 'j) request_builder \<Rightarrow> ('u, 'j) request_builder" where
  "b_method m b = b\<lparr>rb_method := Some m\<rparr>"

definition b_header :: "string \<Rightarrow> string \<Rightarrow> ('u, 'j) request_builder \<Rightarrow> ('u, 'j) request_builder" where
  "b_header name v b = b\<lparr>rb_pending_headers := rb_pending_headers b @ [(name, v)]\<rparr>"

definition b_headers :: "header_map \<Rightarrow> ('u, 'j) request_builder \<Rightarrow> ('u, 'j) request_builder" where
  "b_headers hs b = b\<lparr>rb_headers := hs, rb_pending_headers := []\<rparr>"

definition b_body :: "'j request_body \<Rightarrow> ('u, 'j) request_builder \<Rightarrow> ('u, 'j) request_builder" where
  "b_body bd b = b\<lparr>rb_body := Some bd\<rparr>"

definition b_json :: "string + 'j \<Rightarrow> ('u, 'j) request_builder \<Rightarrow> ('u, 'j) request_builder" where
  "b_json v b = (case v of Inr j \<Rightarrow> b\<lparr>rb_body := Some (Json j)\<rparr>
                 | Inl e \<Rightarrow> b\<lparr>rb_serialization_error := Some e\<rparr>)"

definition b_form :: "(string \<times> string) list \<Rightarrow> ('u, 'j) request_builder \<Rightarrow> ('u, 'j) request_builder" where
  "b_form pairs b = b\<lparr>rb_body := Some (Form pairs)\<rparr>"

definition b_label :: "string \<Rightarrow> ('u, 'j) request_builder \<Rightarrow> ('u, 'j) request_builder" where
  "b_label l b = b\<lparr>rb_label := Some l\<rparr>"

definition b_user_data :: "'j user_data \<Rightarrow> ('u, 'j) request_builder \<Rightarrow> ('u, 'j) request_builder" where
  "b_user_data d b = b\<lparr>rb_user_data := d\<rparr>"

definition b_user_data_entry ::
  "string \<Rightarrow> string + 'j \<Rightarrow> ('u, 'j) request_builder \<Rightarrow> ('u, 'j) request_builder" where
  "b_user_data_entry key v b =
     (case v of Inr j \<Rightarrow> b\<lparr>rb_user_data := AList.update key j (rb_user_data b)\<rparr>
      | Inl e \<Rightarrow> b\<lparr>rb_serialization_error := Some e\<rparr>)"

definition b_max_retries :: "u32 \<Rightarrow> ('u, 'j) request_builder \<Rightarrow> ('u, 'j) request_builder" where
  "b_max_retries n b = b\<lparr>rb_max_retries := Some n\<rparr>"

definition b_no_retry :: "bool \<Rightarrow> ('u, 'j) request_builder \<Rightarrow> ('u, 'j) request_builder" where
  "b_no_retry v b = b\<lparr>rb_no_retry := v\<rparr>"

definition b_skip_navigation :: "bool \<Rightarrow> ('u, 'j) request_builder \<Rightarrow> ('u, 'j) request_builder" where
  "b_skip_navigation v b = b\<lparr>rb_skip_navigation := v\<rparr>"

definition b_unique_key :: "string \<Rightarrow> ('u, 'j) request_builder \<Rightarrow> ('u, 'j) request_builder" where
  "b_unique_key k b = b\<lparr>rb_unique_key := Some k\<rparr>"

definition b_forefront :: "bool \<Rightarrow> ('u, 'j) request_builder \<Rightarrow> ('u, 'j) request_builder" where
  "b_forefront v b = b\<lparr>rb_forefront := v\<rparr>"

definition b_crawl_depth :: "u32 \<Rightarrow> ('u, 'j) request_builder \<Rightarrow> ('u, 'j) request_builder" where
  "b_crawl_depth d b = b\<lparr>rb_crawl_depth := d\<rparr>"

definition request_get :: "string + 'u \<Rightarrow> ('u, 'j) request_builder" where
  "request_get u = b_method ''GET'' (b_url u builder)"

definition request_post :: "string + 'u \<Rightarrow> ('u, 'j) request_builder" where
  "request_post u = b_method ''POST'' (b_url u builder)"

text \<open>The header loop of \<open>build\<close>: each pending header is validated and appended in order.\<close>

definition append_header ::
  "('u, 'j) externals \<Rightarrow> string \<times> string \<Rightarrow> header_map \<Rightarrow> request_build_error + header_map" where
  "append_header X p hs =
     (case header_name_from_bytes X (fst p) of
        Inl message \<Rightarrow> Inl (InvalidHeader (fst p) message)
      | Inr name \<Rightarrow>
          (case header_value_from_bytes X (snd p) of
             Inl message \<Rightarrow> Inl (InvalidHeader (fst p) message)
           | Inr v \<Rightarrow> Inr (hs @ [(name, v)])))"

definition build ::
  "('u, 'j) externals \<Rightarrow> ('u, 'j) request_builder \<Rightarrow> request_build_error + ('u, 'j) request" where
  "build X b =
     (case rb_serialization_error b of
        Some e \<Rightarrow> Inl (BuildSerialization e)
      | None \<Rightarrow>
     (case rb_url b of
        None \<Rightarrow> Inl MissingUrl
      | Some (Inl e) \<Rightarrow> Inl (InvalidUrl e)
      | Some (Inr u) \<Rightarrow>
     (case fold_result (append_header X) (rb_pending_headers b) (rb_headers b) of
        Inl e \<Rightarrow> Inl e
      | Inr hs \<Rightarrow>
        let meth = (case rb_method b of Some m \<Rightarrow> m | None \<Rightarrow> ''GET'');
            key = (case rb_unique_key b of Some k \<Rightarrow> k
                   | None \<Rightarrow> compute_unique_key X u meth (rb_body b))
        in Inr \<lparr>req_id = from_unique_key key, req_url = u, req_loaded_url = None,
             req_unique_key = key, req_method = meth, req_headers = hs, req_body = rb_body b,
             req_user_data = rb_user_data b, req_label = rb_label b, req_retry_count = 0,
             req_session_rotation_count = 0, req_max_retries = rb_max_retries b,
             req_no_retry = rb_no_retry b, req_error_messages = [], req_handled_at = None,
             req_state = Unprocessed, req_crawl_depth = rb_crawl_depth b,
             req_skip_navigation = rb_skip_navigation b\<rparr>)))"

text \<open>A small instance of the third-party operations, for concrete evaluation: URLs as text.\<close>

definition sample_externals :: "(string, string) externals" where
  "sample_externals = \<lparr>url_parse = (\<lambda>s. if s = [] then Inl ''empty'' else Inr s), url_string = id,
     url_without_fragment = takeWhile (\<lambda>c. c \<noteq> CHR ''#''),
     url_host_str = (\<lambda>s. Some (takeWhile (\<lambda>c. c \<noteq> CHR ''/'') (drop 8 s))),
     url_scheme = takeWhile (\<lambda>c. c \<noteq> CHR '':''), url_port_or_known_default = (\<lambda>_. Some 443),
     url_username = (\<lambda>_. []), url_password = (\<lambda>_. None),
     url_join = (\<lambda>b s. Inr (b @ s)),
     header_name_from_bytes = (\<lambda>s. if CHR '' '' \<in> set s then Inl ''invalid'' else Inr (to_ascii_lowercase s)),
     header_value_from_bytes = Inr, json_to_vec = as_bytes\<rparr>"

definition sample_request :: "string \<Rightarrow> string \<Rightarrow> (string, string) request" where
  "sample_request u k = \<lparr>req_id = from_unique_key k, req_url = u, req_loaded_url = None,
     req_unique_key = k, req_method = ''GET'', req_headers = [], req_body = None,
     req_user_data = [], req_label = None, req_retry_count = 0,
     req_session_rotation_count = 0, req_max_retries = None,
     req_no_retry = False, req_error_messages = [], req_handled_at = None,
     req_state = Unprocessed, req_crawl_depth = 0, req_skip_navigation = False\<rparr>"

section \<open>Identifiers and keys\<close>

lemma length_hex_digits [simp]: "length (hex_digits k n) = k"
  by (induction k arbitrary: n) auto

lemma hex_digit_inj_16: "\<forall>a \<in> set [0..<16]. \<forall>b \<in> set [0..<16]. hex_digit a = hex_digit b \<longrightarrow> a = b"
  by code_simp

lemma hex_digit_range_16: "\<forall>a \<in> set [0..<16]. hex_digit a \<in> set ''0123456789abcdef''"
  by code_simp

lemma hex_digit_inj: "a < 16 \<Longrightarrow> b < 16 \<Longrightarrow> hex_digit a = hex_digit b \<Longrightarrow> a = b"
  using hex_digit_inj_16 by (auto simp del: set_upt simp: set_upt)

lemma hex_digits_range: "set (hex_digits k n) \<subseteq> set ''0123456789abcdef''"
proof (induction k arbitrary: n)
  case (Suc k)
  have "hex_digit (n mod 16) \<in> set ''0123456789abcdef''"
    using hex_digit_range_16 by (auto simp: set_upt)
  with Suc show ?case by auto
qed simp

lemma hex_digits_inj:
  "n < 16 ^ k \<Longrightarrow> m < 16 ^ k \<Longrightarrow> hex_digits k n = hex_digits k m \<Longrightarrow> n = m"
proof (induction k arbitrary: n m)
  case (Suc k)
  from Suc.prems(3) have d: "hex_digits k (n div 16) = hex_digits k (m div 16)"
    and l: "hex_digit (n mod 16) = hex_digit (m mod 16)" by auto
  have "n div 16 = m div 16"
    using Suc.prems(1,2) by (intro Suc.IH d) (auto simp: less_mult_imp_div_less mult.commute)
  moreover have "n mod 16 = m mod 16" using l by (rule hex_digit_inj [rotated 2]) simp_all
  ultimately show ?case by (metis div_mult_mod_eq)
qed simp

lemma hex16_inj [simp]: "hex16 a = hex16 b \<longleftrightarrow> a = b"
proof
  assume "hex16 a = hex16 b"
  moreover have "unat w < 16 ^ 16" for w :: u64
    using unsigned_less [of w] by simp
  ultimately have "unat a = unat b" using hex_digits_inj [of "unat a" 16 "unat b"] by (simp add: hex16_def)
  then show "a = b" by (simp add: word_unat_eq_iff)
qed simp

lemma length_hex16 [simp]: "length (hex16 w) = 16"
  by (simp add: hex16_def)

lemma compute_unique_key_plain [simp]:
  "compute_unique_key X u ''GET'' None = url_string X (url_without_fragment X u)"
  by (simp add: compute_unique_key_def)

lemma append_at_first:
  assumes "x \<notin> set as" and "x \<notin> set bs" and "as @ x # cs = bs @ x # ds"
  shows "as = bs \<and> cs = ds"
  using assms by (induction as arbitrary: bs) (auto simp: append_eq_Cons_conv Cons_eq_append_conv)

lemma append_header_Inr:
  "append_header X p hs = Inr hs' \<longleftrightarrow>
     (\<exists>n v. header_name_from_bytes X (fst p) = Inr n \<and> header_value_from_bytes X (snd p) = Inr v
        \<and> hs' = hs @ [(n, v)])"
  by (auto simp: append_header_def split: sum.splits)

lemma append_headers_all:
  "fold_result (append_header X) ps hs = Inr hs' \<Longrightarrow>
     \<exists>new. hs' = hs @ new \<and>
       list_all2 (\<lambda>p q. header_name_from_bytes X (fst p) = Inr (fst q)
         \<and> header_value_from_bytes X (snd p) = Inr (snd q)) ps new"
proof (induction ps arbitrary: hs)
  case (Cons p ps)
  from Cons.prems obtain n v where n: "header_name_from_bytes X (fst p) = Inr n"
    and v: "header_value_from_bytes X (snd p) = Inr v"
    and rest: "fold_result (append_header X) ps (hs @ [(n, v)]) = Inr hs'"
    by (auto simp: append_header_Inr split: sum.splits)
  from Cons.IH [OF rest] obtain new where "hs' = (hs @ [(n, v)]) @ new"
    and "list_all2 (\<lambda>p q. header_name_from_bytes X (fst p) = Inr (fst q)
         \<and> header_value_from_bytes X (snd p) = Inr (snd q)) ps new" by blast
  with n v show ?case by (intro exI [of _ "(n, v) # new"]) simp
qed simp

section \<open>Properties\<close>

text \<open>
  C39. The key of a request with a body or a method other than GET determines its method, the
  hash of its body and its URL without the fragment: two such requests are deduplicated into
  one only if they agree on all three. A method token has no opening parenthesis (the token
  grammar of HTTP, which \<open>http::Method\<close> enforces).
\<close>

theorem compute_unique_key_injective:
  assumes "\<not> (m = ''GET'' \<and> b = None)" and "\<not> (m' = ''GET'' \<and> b' = None)"
    and "CHR ''('' \<notin> set m" and "CHR ''('' \<notin> set m'"
    and "compute_unique_key X u m b = compute_unique_key X u' m' b'"
  shows "m = m' \<and> url_string X (url_without_fragment X u) = url_string X (url_without_fragment X u')
    \<and> fnv1a64 (case b of Some c \<Rightarrow> canonical_bytes X c | None \<Rightarrow> [])
      = fnv1a64 (case b' of Some c \<Rightarrow> canonical_bytes X c | None \<Rightarrow> [])"
proof -
  let ?h = "\<lambda>b. hex16 (fnv1a64 (case b of Some c \<Rightarrow> canonical_bytes X c | None \<Rightarrow> []))"
  let ?s = "\<lambda>u. url_string X (url_without_fragment X u)"
  have "m @ CHR ''('' # (?h b @ ''):'' @ ?s u) = m' @ CHR ''('' # (?h b' @ ''):'' @ ?s u')"
    using assms(1,2,5) by (auto simp: compute_unique_key_def Let_def)
  then have "m = m'" and r: "?h b @ ''):'' @ ?s u = ?h b' @ ''):'' @ ?s u'"
    using append_at_first [OF assms(3,4)] by auto
  from r have "?h b = ?h b' \<and> ''):'' @ ?s u = ''):'' @ ?s u'"
    by (subst (asm) append_eq_append_conv) auto
  with \<open>m = m'\<close> show ?thesis by simp
qed

theorem compute_unique_key_injective_witness:
  "compute_unique_key sample_externals ''https://a/#x'' ''POST'' None
     = compute_unique_key sample_externals ''https://a/#y'' ''POST'' None
   \<and> url_string sample_externals (url_without_fragment sample_externals ''https://a/#x'')
     = url_string sample_externals (url_without_fragment sample_externals ''https://a/#y'')"
proof -
  have e: "compute_unique_key sample_externals ''https://a/#x'' ''POST'' None
     = compute_unique_key sample_externals ''https://a/#y'' ''POST'' None"
    by (simp add: compute_unique_key_def sample_externals_def)
  from compute_unique_key_injective [OF _ _ _ _ e] show ?thesis using e by simp
qed

text \<open>
  What \<open>build\<close> returns: the identifier is the one of the key; the key is the override or
  the computed one; the pending headers follow the configured ones in order, each validated;
  the lifecycle fields are fresh.
\<close>

theorem build_fresh_request:
  assumes "build X b = Inr r"
  shows "req_id r = from_unique_key (req_unique_key r)
    \<and> req_unique_key r = (case rb_unique_key b of Some k \<Rightarrow> k
        | None \<Rightarrow> compute_unique_key X (req_url r) (req_method r) (req_body r))
    \<and> rb_url b = Some (Inr (req_url r))
    \<and> req_retry_count r = 0 \<and> req_session_rotation_count r = 0 \<and> req_state r = Unprocessed
    \<and> req_error_messages r = [] \<and> req_handled_at r = None \<and> req_loaded_url r = None
    \<and> (\<exists>new. req_headers r = rb_headers b @ new \<and>
         list_all2 (\<lambda>p q. header_name_from_bytes X (fst p) = Inr (fst q)
           \<and> header_value_from_bytes X (snd p) = Inr (snd q)) (rb_pending_headers b) new)"
proof -
  from assms obtain u hs where "rb_url b = Some (Inr u)"
    and hs: "fold_result (append_header X) (rb_pending_headers b) (rb_headers b) = Inr hs"
    by (auto simp: build_def split: option.splits sum.splits)
  with assms append_headers_all [OF hs] show ?thesis
    by (auto simp: build_def Let_def split: option.splits)
qed

theorem build_fresh_request_witness:
  "\<exists>r. build sample_externals (b_header ''accept'' ''*'' (request_get (Inr ''https://a/#x''))) = Inr r
     \<and> req_unique_key r = ''https://a/'' \<and> req_headers r = [(''accept'', ''*'')]
     \<and> req_id r = from_unique_key (req_unique_key r)"
proof -
  have "\<exists>r. build sample_externals (b_header ''accept'' ''*'' (request_get (Inr ''https://a/#x''))) = Inr r
     \<and> req_unique_key r = ''https://a/'' \<and> req_headers r = [(''accept'', ''*'')]"
    by (simp add: build_def b_header_def request_get_def b_method_def b_url_def builder_def
        append_header_def sample_externals_def Let_def to_ascii_lowercase_def ascii_lower_def)
  then show ?thesis using build_fresh_request by blast
qed

end
