(* ===== verification/Errors.thy ===== *)
theory Errors
  imports Request
begin

text \<open>
  Crawl errors, their retry semantics and the storage errors (\<open>millipede-core/src/errors.rs\<close>,
  \<open>storage/mod.rs\<close>, the \<open>HttpStatusError\<close> of \<open>http_client.rs\<close>), and the retry directives of
  \<open>retry_strategy.rs\<close>. An \<open>anyhow::Error\<close> is its chain of causes, the outermost first; a cause
  carries its display text and, when it is an \<open>HttpStatusError\<close>, the status and the
  \<open>Retry-After\<close> duration that \<open>downcast_ref\<close> would find.
\<close>

section \<open>Errors\<close>

record http_status_error =
  hse_status :: u16
  hse_retry_after :: "duration option"

definition http_status_error_new :: "u16 \<Rightarrow> http_status_error" where
  "http_status_error_new status = \<lparr>hse_status = status, hse_retry_after = None\<rparr>"

definition with_retry_after :: "http_status_error \<Rightarrow> duration \<Rightarrow> http_status_error" where
  "with_retry_after e d = e\<lparr>hse_retry_after := Some d\<rparr>"

record cause =
  cause_text :: string
  cause_status :: "http_status_error option"

type_synonym anyhow = "cause list"

definition anyhow_msg :: "string \<Rightarrow> anyhow" where
  "anyhow_msg text = [\<lparr>cause_text = text, cause_status = None\<rparr>]"

definition anyhow_text :: "anyhow \<Rightarrow> string" where
  "anyhow_text chain = (case chain of [] \<Rightarrow> [] | c # _ \<Rightarrow> cause_text c)"

datatype anti_bot_tech =
  Cloudflare | DataDome | PerimeterX | Kasada | Imperva | Akamai | CustomTech string | UnknownTech

datatype crawl_error =
  Retry anyhow
| Session anyhow
| ForceRetry anyhow
| NonRetryable anyhow
| Critical anyhow
| MissingRoute "string option" http_method
| AntiBotDetected anti_bot_tech anyhow

section \<open>What an error carries\<close>

fun error_source :: "crawl_error \<Rightarrow> anyhow option" where
  "error_source (Retry e) = Some e"
| "error_source (Session e) = Some e"
| "error_source (ForceRetry e) = Some e"
| "error_source (NonRetryable e) = Some e"
| "error_source (Critical e) = Some e"
| "error_source (AntiBotDetected _ e) = Some e"
| "error_source (MissingRoute _ _) = None"

text \<open>\<open>Iterator::find_map\<close>.\<close>

fun find_map :: "('a \<Rightarrow> 'b option) \<Rightarrow> 'a list \<Rightarrow> 'b option" where
  "find_map f [] = None"
| "find_map f (x # xs) = (case f x of Some y \<Rightarrow> Some y | None \<Rightarrow> find_map f xs)"

definition http_status :: "crawl_error \<Rightarrow> u16 option" where
  "http_status e =
     (case error_source e of None \<Rightarrow> None
      | Some chain \<Rightarrow> find_map (\<lambda>c. map_option hse_status (cause_status c)) chain)"

definition retry_after :: "crawl_error \<Rightarrow> duration option" where
  "retry_after e =
     (case error_source e of None \<Rightarrow> None
      | Some chain \<Rightarrow> find_map (\<lambda>c. Option.bind (cause_status c) hse_retry_after) chain)"

section \<open>Classification\<close>

fun is_retryable :: "crawl_error \<Rightarrow> bool" where
  "is_retryable (Retry _) = True"
| "is_retryable (Session _) = True"
| "is_retryable (ForceRetry _) = True"
| "is_retryable (AntiBotDetected _ _) = True"
| "is_retryable _ = False"

fun rotates_session :: "crawl_error \<Rightarrow> bool" where
  "rotates_session (Session _) = True"
| "rotates_session (AntiBotDetected _ _) = True"
| "rotates_session _ = False"

fun ignores_max_retries :: "crawl_error \<Rightarrow> bool" where
  "ignores_max_retries (ForceRetry _) = True"
| "ignores_max_retries _ = False"

fun is_critical :: "crawl_error \<Rightarrow> bool" where
  "is_critical (Critical _) = True"
| "is_critical _ = False"

fun counts_against_retries :: "crawl_error \<Rightarrow> bool" where
  "counts_against_retries (Retry _) = True"
| "counts_against_retries _ = False"

section \<open>Display\<close>

text \<open>
  \<open>dbg\<close> is the \<open>Debug\<close> rendering of a string (quotes and escapes by Unicode tables), an argument.
\<close>

fun tech_debug :: "(string \<Rightarrow> string) \<Rightarrow> anti_bot_tech \<Rightarrow> string" where
  "tech_debug dbg Cloudflare = ''Cloudflare''"
| "tech_debug dbg DataDome = ''DataDome''"
| "tech_debug dbg PerimeterX = ''PerimeterX''"
| "tech_debug dbg Kasada = ''Kasada''"
| "tech_debug dbg Imperva = ''Imperva''"
| "tech_debug dbg Akamai = ''Akamai''"
| "tech_debug dbg (CustomTech s) = ''Custom('' @ dbg s @ '')''"
| "tech_debug dbg UnknownTech = ''Unknown''"

fun error_text :: "(string \<Rightarrow> string) \<Rightarrow> crawl_error \<Rightarrow> string" where
  "error_text dbg (Retry e) = ''retryable: '' @ anyhow_text e"
| "error_text dbg (Session e) = ''session: '' @ anyhow_text e"
| "error_text dbg (ForceRetry e) = ''force-retry: '' @ anyhow_text e"
| "error_text dbg (NonRetryable e) = ''non-retryable: '' @ anyhow_text e"
| "error_text dbg (Critical e) = ''critical: '' @ anyhow_text e"
| "error_text dbg (MissingRoute l m) =
     ''missing route for label '' @ (case l of None \<Rightarrow> ''None'' | Some s \<Rightarrow> ''Some('' @ dbg s @ '')'')
       @ '' ('' @ m @ '')''"
| "error_text dbg (AntiBotDetected t _) = ''anti-bot detected: '' @ tech_debug dbg t"

section \<open>Conversions\<close>

definition fatal :: "anyhow \<Rightarrow> crawl_error" where
  "fatal e = NonRetryable e"

definition crawl_error_of_io :: "anyhow \<Rightarrow> crawl_error" where
  "crawl_error_of_io e = Retry e"

definition crawl_error_of_json :: "anyhow \<Rightarrow> crawl_error" where
  "crawl_error_of_json e = NonRetryable e"

fun request_build_error_text :: "request_build_error \<Rightarrow> string" where
  "request_build_error_text MissingUrl = ''request URL is missing''"
| "request_build_error_text (InvalidUrl e) = ''invalid URL: '' @ e"
| "request_build_error_text (InvalidHeader n m) = ''invalid header '' @ n @ '': '' @ m"
| "request_build_error_text (BuildSerialization e) = ''user data serialization failed: '' @ e"

definition crawl_error_of_build :: "request_build_error \<Rightarrow> crawl_error" where
  "crawl_error_of_build e = NonRetryable (anyhow_msg (request_build_error_text e))"

text \<open>
  \<open>StorageError\<close>, with one more constructor for the panics (\<open>expect\<close>) of the storage code.
\<close>

datatype storage_error =
  Serialization string
| Io string
| LeaseNotFound u64
| Backend anyhow
| Unsupported string
| RateLimited "duration option"
| Panicked string

fun is_rate_limited :: "storage_error \<Rightarrow> bool" where
  "is_rate_limited (RateLimited _) = True"
| "is_rate_limited _ = False"

text \<open>
  The text of a storage error; \<open>u64_text\<close> is Rust's decimal rendering of a \<open>u64\<close>.
\<close>

fun nat_text :: "nat \<Rightarrow> string" where
  "nat_text n = (if n < 10 then [char_of (48 + n)] else nat_text (n div 10) @ [char_of (48 + n mod 10)])"

declare nat_text.simps [simp del]

text \<open>The number a text of digits denotes.\<close>

definition decimal :: "string \<Rightarrow> nat" where
  "decimal s = foldl (\<lambda>n c. 10 * n + (of_char c - 48)) 0 s"

lemma of_char_digit: "d < 10 \<Longrightarrow> of_char (char_of (48 + d) :: char) = 48 + (d :: nat)"
  by (simp add: of_char_of)

lemma decimal_snoc: "decimal (s @ [c]) = 10 * decimal s + (of_char c - 48)"
  by (simp add: decimal_def)

lemma decimal_nat_text: "decimal (nat_text n) = n"
proof (induction n rule: nat_text.induct)
  case (1 n)
  show ?case
  proof (cases "n < 10")
    case True
    then show ?thesis by (simp add: nat_text.simps [of n] decimal_def of_char_digit)
  next
    case False
    then show ?thesis using 1 by (simp add: nat_text.simps [of n] decimal_snoc of_char_digit)
  qed
qed

lemma nat_text_digits: "nat_text n \<noteq> [] \<and> list_all is_digit (nat_text n)"
proof (induction n rule: nat_text.induct)
  case (1 n)
  have d: "k < 10 \<Longrightarrow> is_digit (char_of (48 + k))" for k :: nat
    by (simp add: is_digit_def Let_def of_char_digit)
  show ?case using 1 by (cases "n < 10") (simp_all add: nat_text.simps [of n] d)
qed

definition u64_text :: "u64 \<Rightarrow> string" where
  "u64_text w = nat_text (unat w)"

fun storage_error_text :: "storage_error \<Rightarrow> string" where
  "storage_error_text (Serialization e) = ''serialization: '' @ e"
| "storage_error_text (Io e) = ''io: '' @ e"
| "storage_error_text (LeaseNotFound l) =
     ''lease '' @ u64_text l @ '' not found (already completed, abandoned, or expired)''"
| "storage_error_text (Backend e) = ''storage backend: '' @ anyhow_text e"
| "storage_error_text (Unsupported s) = ''operation not supported by this backend: '' @ s"
| "storage_error_text (RateLimited _) = ''storage backend rate limited''"
| "storage_error_text (Panicked s) = s"

fun crawl_error_of_storage :: "storage_error \<Rightarrow> crawl_error" where
  "crawl_error_of_storage (Serialization e) = NonRetryable (anyhow_msg e)"
| "crawl_error_of_storage (Io e) = Retry (anyhow_msg e)"
| "crawl_error_of_storage (LeaseNotFound l) =
     NonRetryable (anyhow_msg (storage_error_text (LeaseNotFound l)))"
| "crawl_error_of_storage (Backend e) = Retry e"
| "crawl_error_of_storage (Unsupported s) =
     NonRetryable (anyhow_msg (storage_error_text (Unsupported s)))"
| "crawl_error_of_storage (RateLimited d) =
     Retry (anyhow_msg (storage_error_text (RateLimited d)))"
| "crawl_error_of_storage (Panicked s) = Critical (anyhow_msg s)"

section \<open>Retry directives\<close>

datatype proxy_kind = DefaultProxy | MediaAsset | CustomProxy string

record attempt_overrides =
  ov_proxy_kind :: "proxy_kind option"
  ov_user_agent_profile :: "string option"
  ov_backoff :: "duration option"

definition no_overrides :: attempt_overrides where
  "no_overrides = \<lparr>ov_proxy_kind = None, ov_user_agent_profile = None, ov_backoff = None\<rparr>"

datatype session_retry_action = Keep | Rotate | Retire

record retry_directive =
  rd_should_retry :: bool
  rd_backoff :: "duration option"
  rd_proxy_kind :: "proxy_kind option"
  rd_user_agent_profile :: "string option"
  rd_session_action :: session_retry_action

definition directive_stop :: retry_directive where
  "directive_stop = \<lparr>rd_should_retry = False, rd_backoff = None, rd_proxy_kind = None,
     rd_user_agent_profile = None, rd_session_action = Keep\<rparr>"

definition directive_retry :: retry_directive where
  "directive_retry = directive_stop\<lparr>rd_should_retry := True\<rparr>"

section \<open>Properties\<close>

lemma find_map_SomeD: "find_map f xs = Some y \<Longrightarrow> \<exists>x \<in> set xs. f x = Some y"
  by (induction xs) (auto split: option.splits)

lemma find_map_None: "find_map f xs = None \<longleftrightarrow> (\<forall>x \<in> set xs. f x = None)"
  by (induction xs) (auto split: option.splits)

text \<open>
  The five classification predicates are consistent: an error that rotates the session,
  ignores the retry limit or counts against it is retryable; the three are mutually exclusive
  and together exhaust the retryable errors; a critical error is none of them.
\<close>

lemma classification_consistent:
  "(is_retryable e \<longleftrightarrow> rotates_session e \<or> ignores_max_retries e \<or> counts_against_retries e)
   \<and> \<not> (rotates_session e \<and> ignores_max_retries e)
   \<and> \<not> (rotates_session e \<and> counts_against_retries e)
   \<and> \<not> (ignores_max_retries e \<and> counts_against_retries e)
   \<and> \<not> (is_critical e \<and> is_retryable e)"
  by (cases e) auto

text \<open>
  A \<open>Retry-After\<close> duration reported by an error always comes with a status: the chain
  that carries one carries an \<open>HttpStatusError\<close>, so \<open>http_status\<close> is present too.
\<close>

lemma retry_after_implies_status: "retry_after e \<noteq> None \<longrightarrow> http_status e \<noteq> None"
  by (cases "error_source e") (auto simp: retry_after_def http_status_def find_map_None bind_eq_Some_conv dest!: find_map_SomeD)

lemma retry_after_implies_status_witness:
  "retry_after (Retry [\<lparr>cause_text = ''fetch failed'', cause_status = None\<rparr>,
      \<lparr>cause_text = ''HTTP status 429'', cause_status = Some (with_retry_after (http_status_error_new 429) (secs 2))\<rparr>])
      = Some (secs 2)
   \<and> http_status (Retry [\<lparr>cause_text = ''fetch failed'', cause_status = None\<rparr>,
      \<lparr>cause_text = ''HTTP status 429'', cause_status = Some (with_retry_after (http_status_error_new 429) (secs 2))\<rparr>])
      \<noteq> None"
proof -
  let ?e = "Retry [\<lparr>cause_text = ''fetch failed'', cause_status = None\<rparr>,
      \<lparr>cause_text = ''HTTP status 429'', cause_status = Some (with_retry_after (http_status_error_new 429) (secs 2))\<rparr>]"
  have "retry_after ?e = Some (secs 2)"
    by (simp add: retry_after_def with_retry_after_def http_status_error_new_def)
  then show ?thesis using retry_after_implies_status [of ?e] by simp
qed

end
