(* ===== verification/Queue_Contract.thy ===== *)
theory Queue_Contract
  imports Errors
begin

text \<open>
  The lease-based queue interface (\<open>millipede-core/src/storage/queue.rs\<close>): leases, options,
  insertion results, batch handles, and the trait \<open>RequestQueue\<close> as a record of operations over
  a queue state \<open>'q\<close>. Every operation returns its result and the new state. The abstract
  specification of the trait gives every known key one status; the locale \<open>request_queue\<close> states
  the laws a backend promises in terms of it, and proves once what the crawler relies on: a key
  never disappears, a handled key stays handled, and no two leases are held for one key.
\<close>

section \<open>Data\<close>

record ('u, 'j) lease =
  lease_request :: "('u, 'j) request"
  lease_id :: u64
  lease_expires_at :: instant

record add_options =
  add_forefront :: bool

record reclaim_options =
  rc_forefront :: bool
  rc_increment_retry :: bool

definition reclaim_default :: reclaim_options where
  "reclaim_default = \<lparr>rc_forefront = False, rc_increment_retry = True\<rparr>"

record processed_request =
  pr_request_id :: request_id
  pr_unique_key :: string
  pr_was_already_present :: bool
  pr_was_already_handled :: bool

text \<open>\<open>Request\<close> is the only variant of the non-exhaustive enum \<open>RequestSource\<close>.\<close>

datatype ('u, 'j) request_source = SourceRequest "('u, 'j) request"

text \<open>
  A batch handle: what was added synchronously, and a completion that is ready or a task. The
  task's outcome is its join result: \<open>Inl\<close> the text of a join error, \<open>Inr\<close> what it returned.
\<close>

datatype completion =
  Ready "processed_request list"
| Task "string + (storage_error + processed_request list)"

record batch_add_handle =
  bh_added :: "processed_request list"
  bh_completion :: completion

definition batch_ready :: "processed_request list \<Rightarrow> batch_add_handle" where
  "batch_ready added = \<lparr>bh_added = added, bh_completion = Ready added\<rparr>"

definition batch_deferred ::
  "processed_request list \<Rightarrow> string + (storage_error + processed_request list) \<Rightarrow> batch_add_handle" where
  "batch_deferred added task = \<lparr>bh_added = added, bh_completion = Task task\<rparr>"

definition join_error :: "string \<Rightarrow> storage_error" where
  "join_error e = Backend (anyhow_msg (''batch add task failed: '' @ e))"

fun completion_result :: "completion \<Rightarrow> storage_error + processed_request list" where
  "completion_result (Ready r) = Inr r"
| "completion_result (Task (Inl e)) = Inl (join_error e)"
| "completion_result (Task (Inr r)) = r"

definition batch_wait :: "batch_add_handle \<Rightarrow> storage_error + processed_request list" where
  "batch_wait h = completion_result (bh_completion h)"

text \<open>
  \<open>notify_on_completion\<close> wraps a task so that it notifies and then returns the same result;
  \<open>notified\<close> counts the notifications.
\<close>

definition notify_on_completion :: "batch_add_handle \<Rightarrow> nat \<Rightarrow> batch_add_handle \<times> nat" where
  "notify_on_completion h notified =
     (case bh_completion h of
        Ready r \<Rightarrow> (\<lparr>bh_added = bh_added h, bh_completion = Ready r\<rparr>, Suc notified)
      | Task t \<Rightarrow>
          (\<lparr>bh_added = bh_added h,
             bh_completion = Task (Inr (case t of Inl e \<Rightarrow> Inl (join_error e) | Inr r \<Rightarrow> r))\<rparr>,
           Suc notified))"

lemma batch_wait_ready [simp]: "batch_wait (batch_ready added) = Inr added"
  by (simp add: batch_wait_def batch_ready_def)

lemma notify_on_completion_wait:
  "batch_wait (fst (notify_on_completion h n)) = batch_wait h \<and> snd (notify_on_completion h n) = Suc n
   \<and> bh_added (fst (notify_on_completion h n)) = bh_added h"
  by (auto simp: notify_on_completion_def batch_wait_def split: completion.splits sum.splits)

section \<open>The trait\<close>

record ('q, 'u, 'j) queue_ops =
  q_add :: "('u, 'j) request \<Rightarrow> add_options \<Rightarrow> 'q \<Rightarrow> (storage_error + processed_request) \<times> 'q"
  q_fetch_next :: "instant \<Rightarrow> 'q \<Rightarrow> (storage_error + ('u, 'j) lease option) \<times> 'q"
  q_mark_handled :: "('u, 'j) lease \<Rightarrow> 'q \<Rightarrow> (storage_error + unit) \<times> 'q"
  q_reclaim :: "('u, 'j) lease \<Rightarrow> reclaim_options \<Rightarrow> 'q \<Rightarrow> (storage_error + unit) \<times> 'q"
  q_renew :: "instant \<Rightarrow> u64 \<Rightarrow> duration \<Rightarrow> 'q \<Rightarrow> (storage_error + unit) \<times> 'q"
  q_abandon :: "('u, 'j) lease \<Rightarrow> 'q \<Rightarrow> (storage_error + unit) \<times> 'q"
  q_is_empty :: "'q \<Rightarrow> bool"
  q_is_finished :: "'q \<Rightarrow> bool"
  q_handled_count :: "'q \<Rightarrow> u64"
  q_pending_count :: "'q \<Rightarrow> u64"

section \<open>The abstract specification\<close>

datatype key_status = Pending | Leased u64 | Handled

type_synonym queue_spec = "string \<rightharpoonup> key_status"

definition spec_add :: "string \<Rightarrow> queue_spec \<Rightarrow> queue_spec" where
  "spec_add k m = (if m k = None then m(k \<mapsto> Pending) else m)"

text \<open>Between two states only leases may have been returned to the pending requests (by expiry).\<close>

definition spec_expire :: "queue_spec \<Rightarrow> queue_spec \<Rightarrow> bool" where
  "spec_expire m m' \<longleftrightarrow>
     (\<forall>k. m' k = m k \<or> (\<exists>i. m k = Some (Leased i) \<and> m' k = Some Pending))"

lemma spec_expire_refl [simp]: "spec_expire m m"
  by (simp add: spec_expire_def)

lemma spec_expire_dom: "spec_expire m m' \<Longrightarrow> dom m' = dom m"
  by (auto simp: spec_expire_def dom_def) (metis option.distinct(1))+

lemma spec_expire_handled: "spec_expire m m' \<Longrightarrow> m' k = Some Handled \<longleftrightarrow> m k = Some Handled"
  unfolding spec_expire_def by (metis key_status.distinct option.inject)

lemma spec_expire_pending: "spec_expire m m' \<Longrightarrow> m' k = Some Pending \<Longrightarrow> m k \<noteq> Some Handled"
  by (auto simp: spec_expire_def dest: spec [of _ k])

text \<open>
  The contract. \<open>status\<close> abstracts a queue state, \<open>invar\<close> is the backend's invariant,
  \<open>admissible\<close> what it needs of a new request, \<open>owned\<close> that a lease is one it handed out and
  whose request keeps its key. \<open>live\<close> holds while lease identifiers are left.
\<close>

locale request_queue =
  fixes ops :: "('q, 'u, 'j) queue_ops"
    and status :: "'q \<Rightarrow> queue_spec"
    and invar :: "'q \<Rightarrow> bool"
    and admissible :: "('u, 'j) request \<Rightarrow> 'q \<Rightarrow> bool"
    and owned :: "('u, 'j) lease \<Rightarrow> 'q \<Rightarrow> bool"
    and live :: "'q \<Rightarrow> bool"
  assumes owned_status: "owned l q \<Longrightarrow> status q (req_unique_key (lease_request l)) = Some (Leased (lease_id l))"
    and add_ok: "invar q \<Longrightarrow> admissible r q \<Longrightarrow> q_add ops r opts q = (Inr info, q') \<Longrightarrow>
        invar q' \<and> status q' = spec_add (req_unique_key r) (status q)
        \<and> pr_was_already_present info = (status q (req_unique_key r) \<noteq> None)
        \<and> pr_was_already_handled info = (status q (req_unique_key r) = Some Handled)"
    and fetch_some: "invar q \<Longrightarrow> live q \<Longrightarrow> q_fetch_next ops now q = (Inr (Some l), q') \<Longrightarrow>
        invar q' \<and> owned l q' \<and> (\<exists>m. spec_expire (status q) m
          \<and> m (req_unique_key (lease_request l)) = Some Pending
          \<and> status q' = m(req_unique_key (lease_request l) \<mapsto> Leased (lease_id l)))"
    and fetch_none: "invar q \<Longrightarrow> q_fetch_next ops now q = (Inr None, q') \<Longrightarrow>
        invar q' \<and> spec_expire (status q) (status q') \<and> Some Pending \<notin> range (status q')"
    and handled_ok: "invar q \<Longrightarrow> owned l q \<Longrightarrow> q_mark_handled ops l q = (Inr (), q') \<Longrightarrow>
        invar q' \<and> status q' = (status q)(req_unique_key (lease_request l) \<mapsto> Handled)"
    and reclaim_ok: "invar q \<Longrightarrow> owned l q \<Longrightarrow> q_reclaim ops l ro q = (Inr (), q') \<Longrightarrow>
        invar q' \<and> status q' = (status q)(req_unique_key (lease_request l) \<mapsto> Pending)"
    and abandon_ok: "invar q \<Longrightarrow> owned l q \<Longrightarrow> q_abandon ops l q = (Inr (), q') \<Longrightarrow>
        invar q' \<and> status q' = (status q)(req_unique_key (lease_request l) \<mapsto> Pending)"
    and renew_ok: "invar q \<Longrightarrow> q_renew ops now i d q = (Inr (), q') \<Longrightarrow>
        invar q' \<and> status q' = status q"
begin

text \<open>One successful operation of a client that respects the contract.\<close>

inductive client_step :: "'q \<Rightarrow> 'q \<Rightarrow> bool" where
  add: "admissible r q \<Longrightarrow> q_add ops r opts q = (Inr info, q') \<Longrightarrow> client_step q q'"
| fetch: "live q \<Longrightarrow> q_fetch_next ops now q = (Inr lo, q') \<Longrightarrow> client_step q q'"
| handled: "owned l q \<Longrightarrow> q_mark_handled ops l q = (Inr (), q') \<Longrightarrow> client_step q q'"
| reclaim: "owned l q \<Longrightarrow> q_reclaim ops l ro q = (Inr (), q') \<Longrightarrow> client_step q q'"
| abandon: "owned l q \<Longrightarrow> q_abandon ops l q = (Inr (), q') \<Longrightarrow> client_step q q'"
| renew: "q_renew ops now i d q = (Inr (), q') \<Longrightarrow> client_step q q'"

lemma client_step_invar: "client_step q q' \<Longrightarrow> invar q \<Longrightarrow> invar q'"
proof (induction rule: client_step.induct)
  case (fetch q now lo q')
  then show ?case using fetch_some fetch_none by (cases lo) blast+
qed (use add_ok handled_ok reclaim_ok abandon_ok renew_ok in blast)+

lemma client_step_keeps:
  assumes "client_step q q'" and "invar q"
  shows "dom (status q) \<subseteq> dom (status q')
    \<and> (\<forall>k. status q k = Some Handled \<longrightarrow> status q' k = Some Handled)"
  using assms
proof (induction rule: client_step.induct)
  case (add r q opts info q')
  then show ?case using add_ok [OF add.prems add.hyps] by (auto simp: spec_add_def dom_def)
next
  case (fetch q now lo q')
  show ?case
  proof (cases lo)
    case None
    with fetch_none [OF fetch.prems] fetch.hyps(2) have "spec_expire (status q) (status q')" by blast
    then show ?thesis using spec_expire_dom spec_expire_handled by blast
  next
    case (Some l)
    with fetch_some [OF fetch.prems fetch.hyps(1)] fetch.hyps(2)
    obtain m where m: "spec_expire (status q) m"
      "m (req_unique_key (lease_request l)) = Some Pending"
      "status q' = m(req_unique_key (lease_request l) \<mapsto> Leased (lease_id l))" by blast
    have "dom (status q') = insert (req_unique_key (lease_request l)) (dom (status q))"
      using m(3) spec_expire_dom [OF m(1)] by simp
    moreover have "status q' k = Some Handled" if "status q k = Some Handled" for k
      using that m(3) spec_expire_pending [OF m(1,2)] spec_expire_handled [OF m(1), of k] by auto
    ultimately show ?thesis by blast
  qed
next
  case (handled l q q')
  then show ?case using handled_ok [OF handled.prems handled.hyps] by auto
next
  case (reclaim l q ro q')
  then show ?case
    using reclaim_ok [OF reclaim.prems reclaim.hyps] owned_status [OF reclaim.hyps(1)] by auto
next
  case (abandon l q q')
  then show ?case
    using abandon_ok [OF abandon.prems abandon.hyps] owned_status [OF abandon.hyps(1)] by auto
next
  case (renew now i d q q')
  then show ?case using renew_ok by auto
qed

text \<open>
  Over any run of contract-respecting operations: nothing is lost, and what is handled is never
  handed out again.
\<close>

lemma client_run_invar: "client_step\<^sup>*\<^sup>* q q' \<Longrightarrow> invar q \<Longrightarrow> invar q'"
  by (induction rule: rtranclp_induct) (auto intro: client_step_invar)

lemma client_run_keeps:
  assumes "client_step\<^sup>*\<^sup>* q q'" and "invar q"
  shows "dom (status q) \<subseteq> dom (status q')
    \<and> (\<forall>k. status q k = Some Handled \<longrightarrow> status q' k = Some Handled)"
  using assms
proof (induction rule: rtranclp_induct)
  case (step y z)
  with client_step_keeps [OF step.hyps(2)] client_run_invar [OF step.hyps(1)] show ?case by blast
qed simp

lemma handled_never_fetched:
  assumes "client_step\<^sup>*\<^sup>* q q'" and "invar q" and "live q'" and "status q k = Some Handled"
    and "q_fetch_next ops now q' = (Inr (Some l), q'')"
  shows "req_unique_key (lease_request l) \<noteq> k"
proof
  assume k: "req_unique_key (lease_request l) = k"
  have inv: "invar q'" using assms(1,2) by (rule client_run_invar)
  have "status q' k = Some Handled" using client_run_keeps [OF assms(1,2)] assms(4) by blast
  moreover obtain m where "spec_expire (status q') m" and "m k = Some Pending"
    using fetch_some [OF inv assms(3,5)] k by blast
  ultimately show False using spec_expire_pending by blast
qed

text \<open>Two leases held at the same time are for different keys.\<close>

lemma leases_distinct:
  "owned l q \<Longrightarrow> owned l' q \<Longrightarrow> lease_id l \<noteq> lease_id l' \<Longrightarrow>
     req_unique_key (lease_request l) \<noteq> req_unique_key (lease_request l')"
  using owned_status [of l q] owned_status [of l' q] by auto

end

end
