(* ===== verification/Frontier.thy ===== *)
theory Frontier
  imports Request
begin

text \<open>
  The frontier of the in-memory queue (\<open>millipede-storage-memory/src/policy.rs\<close>): a plain FIFO
  deque, or a round robin over URL hosts that keeps a deque per host and a rotation of the
  active hosts. The locale \<open>frontier\<close> is what the queue relies on; both representations and
  their sum interpret it.
\<close>

section \<open>The round robin over hosts\<close>

record ('u, 'j) domain_round_robin =
  by_host :: "(string \<times> ('u, 'j) request list) list"
  rotation :: "string list"

definition drr_default :: "('u, 'j) domain_round_robin" where
  "drr_default = \<lparr>by_host = [], rotation = []\<rparr>"

definition host_key :: "('u, 'j) externals \<Rightarrow> ('u, 'j) request \<Rightarrow> string" where
  "host_key X r =
     to_ascii_lowercase (case url_host_str X (req_url r) of Some h \<Rightarrow> h | None \<Rightarrow> [])"

definition drr_push_back ::
  "('u, 'j) externals \<Rightarrow> ('u, 'j) request \<Rightarrow> ('u, 'j) domain_round_robin \<Rightarrow> ('u, 'j) domain_round_robin" where
  "drr_push_back X r f =
     (let host = host_key X r in
      case map_of (by_host f) host of
        Some requests \<Rightarrow> f\<lparr>by_host := AList.update host (requests @ [r]) (by_host f)\<rparr>
      | None \<Rightarrow> f\<lparr>by_host := AList.update host [r] (by_host f), rotation := rotation f @ [host]\<rparr>)"

definition drr_push_front ::
  "('u, 'j) externals \<Rightarrow> ('u, 'j) request \<Rightarrow> ('u, 'j) domain_round_robin \<Rightarrow> ('u, 'j) domain_round_robin" where
  "drr_push_front X r f =
     (let host = host_key X r in
      case map_of (by_host f) host of
        Some requests \<Rightarrow> f\<lparr>by_host := AList.update host (r # requests) (by_host f)\<rparr>
      | None \<Rightarrow> f\<lparr>by_host := AList.update host [r] (by_host f), rotation := host # rotation f\<rparr>)"

text \<open>\<open>VecDeque::pop_front\<close>; the outer \<open>None\<close> of \<open>drr_pop_front\<close> is the panic of the \<open>expect\<close>.\<close>

fun deque_pop_front :: "'a list \<Rightarrow> 'a option \<times> 'a list" where
  "deque_pop_front [] = (None, [])"
| "deque_pop_front (x # xs) = (Some x, xs)"

definition drr_pop_front ::
  "('u, 'j) domain_round_robin \<Rightarrow> (('u, 'j) request option \<times> ('u, 'j) domain_round_robin) option" where
  "drr_pop_front f =
     (case rotation f of
        [] \<Rightarrow> Some (None, f)
      | host # rest \<Rightarrow>
          (case map_of (by_host f) host of
             None \<Rightarrow> None
           | Some requests \<Rightarrow>
               (case deque_pop_front requests of (request, left) \<Rightarrow>
                  Some (request,
                    if left = [] then f\<lparr>by_host := AList.delete host (by_host f), rotation := rest\<rparr>
                    else f\<lparr>by_host := AList.update host left (by_host f), rotation := rest @ [host]\<rparr>))))"

definition drr_len :: "('u, 'j) domain_round_robin \<Rightarrow> nat" where
  "drr_len f = sum_list (map (length \<circ> snd) (by_host f))"

definition drr_is_empty :: "('u, 'j) domain_round_robin \<Rightarrow> bool" where
  "drr_is_empty f = (by_host f = [])"

section \<open>The frontier\<close>

datatype memory_queue_policy = FifoPolicy | DomainRoundRobinPolicy

datatype ('u, 'j) frontier =
  Fifo "('u, 'j) request list"
| DomainRoundRobin "('u, 'j) domain_round_robin"

fun frontier_new :: "memory_queue_policy \<Rightarrow> ('u, 'j) frontier" where
  "frontier_new FifoPolicy = Fifo []"
| "frontier_new DomainRoundRobinPolicy = DomainRoundRobin drr_default"

fun push_back :: "('u, 'j) externals \<Rightarrow> ('u, 'j) request \<Rightarrow> ('u, 'j) frontier \<Rightarrow> ('u, 'j) frontier" where
  "push_back X r (Fifo requests) = Fifo (requests @ [r])"
| "push_back X r (DomainRoundRobin f) = DomainRoundRobin (drr_push_back X r f)"

fun push_front :: "('u, 'j) externals \<Rightarrow> ('u, 'j) request \<Rightarrow> ('u, 'j) frontier \<Rightarrow> ('u, 'j) frontier" where
  "push_front X r (Fifo requests) = Fifo (r # requests)"
| "push_front X r (DomainRoundRobin f) = DomainRoundRobin (drr_push_front X r f)"

fun pop_front :: "('u, 'j) frontier \<Rightarrow> (('u, 'j) request option \<times> ('u, 'j) frontier) option" where
  "pop_front (Fifo requests) = (case deque_pop_front requests of (r, left) \<Rightarrow> Some (r, Fifo left))"
| "pop_front (DomainRoundRobin f) = map_option (\<lambda>(r, g). (r, DomainRoundRobin g)) (drr_pop_front f)"

fun frontier_len :: "('u, 'j) frontier \<Rightarrow> nat" where
  "frontier_len (Fifo requests) = length requests"
| "frontier_len (DomainRoundRobin f) = drr_len f"

fun frontier_is_empty :: "('u, 'j) frontier \<Rightarrow> bool" where
  "frontier_is_empty (Fifo requests) = (requests = [])"
| "frontier_is_empty (DomainRoundRobin f) = drr_is_empty f"

section \<open>The contract\<close>

text \<open>
  What the queue relies on: a frontier holds a multiset of requests; pushing adds one, popping
  removes one and returns none only from an empty frontier; it never panics.
\<close>

locale frontier_contract =
  fixes pushb :: "'r \<Rightarrow> 'f \<Rightarrow> 'f"
    and pushf :: "'r \<Rightarrow> 'f \<Rightarrow> 'f"
    and pop :: "'f \<Rightarrow> ('r option \<times> 'f) option"
    and len :: "'f \<Rightarrow> nat"
    and is_emp :: "'f \<Rightarrow> bool"
    and contents :: "'f \<Rightarrow> 'r multiset"
    and invar :: "'f \<Rightarrow> bool"
  assumes pushb_invar: "invar f \<Longrightarrow> invar (pushb r f)"
    and pushb_contents: "invar f \<Longrightarrow> contents (pushb r f) = add_mset r (contents f)"
    and pushf_invar: "invar f \<Longrightarrow> invar (pushf r f)"
    and pushf_contents: "invar f \<Longrightarrow> contents (pushf r f) = add_mset r (contents f)"
    and pop_none: "invar f \<Longrightarrow> contents f = {#} \<Longrightarrow> pop f = Some (None, f)"
    and pop_some: "invar f \<Longrightarrow> contents f \<noteq> {#} \<Longrightarrow>
        \<exists>r g. pop f = Some (Some r, g) \<and> invar g \<and> contents f = add_mset r (contents g)"
    and len_contents: "invar f \<Longrightarrow> len f = size (contents f)"
    and empty_contents: "invar f \<Longrightarrow> is_emp f \<longleftrightarrow> contents f = {#}"
begin

lemma pop_cases:
  assumes "invar f" and "pop f = Some (o', g)"
  shows "(o' = None \<and> g = f \<and> contents f = {#}) \<or>
    (\<exists>r. o' = Some r \<and> invar g \<and> contents f = add_mset r (contents g))"
proof (cases "contents f = {#}")
  case True
  with assms pop_none show ?thesis by auto
next
  case False
  with assms pop_some [of f] show ?thesis by auto
qed

lemma pop_no_panic: "invar f \<Longrightarrow> pop f \<noteq> None"
  using pop_none pop_some by (cases "contents f = {#}") fastforce+

text \<open>Popping until the frontier is empty returns every request once.\<close>

fun drain :: "nat \<Rightarrow> 'f \<Rightarrow> 'r list" where
  "drain 0 f = []"
| "drain (Suc n) f = (case pop f of Some (Some r, g) \<Rightarrow> r # drain n g | _ \<Rightarrow> [])"

lemma drain_all: "invar f \<Longrightarrow> mset (drain (len f) f) = contents f"
proof (induction "len f" arbitrary: f)
  case 0
  then show ?case by (simp add: len_contents)
next
  case (Suc n)
  then have "contents f \<noteq> {#}" using len_contents [of f] by auto
  with Suc.prems obtain r g where p: "pop f = Some (Some r, g)" and g: "invar g"
    and c: "contents f = add_mset r (contents g)" using pop_some by blast
  have "len g = n" using Suc.hyps(2) c len_contents [OF g] len_contents [OF Suc.prems] by simp
  with Suc.hyps(1) [of g] g have "mset (drain n g) = contents g" by simp
  with p c show ?case by (simp flip: Suc.hyps(2))
qed

end

section \<open>The FIFO deque\<close>

definition fifo_pop :: "'a list \<Rightarrow> ('a option \<times> 'a list) option" where
  "fifo_pop xs = Some (deque_pop_front xs)"

interpretation fifo: frontier_contract "\<lambda>r xs. xs @ [r]" "(#)" fifo_pop length "\<lambda>xs. xs = []" mset "\<lambda>_. True"
proof unfold_locales
  fix f :: "'a list"
  assume "mset f \<noteq> {#}"
  then show "\<exists>r g. fifo_pop f = Some (Some r, g) \<and> True \<and> mset f = add_mset r (mset g)"
    by (cases f) (auto simp: fifo_pop_def)
qed (simp_all add: fifo_pop_def)

section \<open>The round robin\<close>

definition drr_contents :: "('u, 'j) domain_round_robin \<Rightarrow> ('u, 'j) request multiset" where
  "drr_contents f = mset (concat (map snd (by_host f)))"

definition host_queue :: "('u, 'j) domain_round_robin \<Rightarrow> string \<Rightarrow> ('u, 'j) request list" where
  "host_queue f h = (case map_of (by_host f) h of Some q \<Rightarrow> q | None \<Rightarrow> [])"

definition drr_inv :: "('u, 'j) externals \<Rightarrow> ('u, 'j) domain_round_robin \<Rightarrow> bool" where
  "drr_inv X f \<longleftrightarrow> distinct (map fst (by_host f)) \<and> distinct (rotation f)
     \<and> set (rotation f) = fst ` set (by_host f)
     \<and> (\<forall>(h, q) \<in> set (by_host f). q \<noteq> [] \<and> (\<forall>r \<in> set q. host_key X r = h))"

lemma drr_inv_default [simp]: "drr_inv X drr_default"
  by (simp add: drr_inv_def drr_default_def)

lemma drr_inv_lookup:
  assumes "drr_inv X f" and "map_of (by_host f) h = Some q"
  shows "q \<noteq> []" and "\<forall>r \<in> set q. host_key X r = h" and "h \<in> set (rotation f)"
proof -
  from assms(2) have m: "(h, q) \<in> set (by_host f)" by (rule map_of_SomeD)
  with assms(1) show "q \<noteq> []" and "\<forall>r \<in> set q. host_key X r = h"
    by (auto simp: drr_inv_def)
  from m have "h \<in> fst ` set (by_host f)" by (rule image_eqI [rotated]) simp
  with assms(1) show "h \<in> set (rotation f)" by (simp add: drr_inv_def)
qed

lemma drr_inv_host_active:
  "drr_inv X f \<Longrightarrow> h \<in> set (rotation f) \<longleftrightarrow> map_of (by_host f) h \<noteq> None"
  by (auto simp: drr_inv_def map_of_eq_None_iff)

lemma concat_update:
  "distinct (map fst m) \<Longrightarrow>
     mset (concat (map snd (AList.update k q m))) = mset (concat (map snd (AList.delete k m))) + mset q"
proof (induction m)
  case (Cons p m)
  show ?case
  proof (cases "fst p = k")
    case True
    with Cons.prems have "map_of m k = None" by (auto simp: map_of_eq_None_iff)
    then have "AList.delete k m = m" by (rule delete_absent)
    with True show ?thesis by (cases p) simp
  next
    case False
    with Cons show ?thesis by (cases p) (simp add: ac_simps)
  qed
qed simp

lemma concat_delete:
  "distinct (map fst m) \<Longrightarrow> map_of m k = Some q \<Longrightarrow>
     mset (concat (map snd m)) = mset (concat (map snd (AList.delete k m))) + mset q"
proof (induction m)
  case (Cons p m)
  show ?case
  proof (cases "fst p = k")
    case True
    with Cons.prems have "map_of m k = None" by (auto simp: map_of_eq_None_iff)
    then have "AList.delete k m = m" by (rule delete_absent)
    with True Cons.prems show ?thesis by (cases p) simp
  next
    case False
    with Cons show ?thesis by (cases p) (simp add: ac_simps)
  qed
qed simp

lemma drr_inv_update:
  assumes "drr_inv X f" and "q \<noteq> []" and "\<forall>r \<in> set q. host_key X r = h"
    and "distinct rot" and "set rot = insert h (set (rotation f))"
  shows "drr_inv X (f\<lparr>by_host := AList.update h q (by_host f), rotation := rot\<rparr>)"
  using assms by (auto simp: drr_inv_def set_update_alist AList.distinct_update dom_update)

lemma drr_push_back_inv: "drr_inv X f \<Longrightarrow> drr_inv X (drr_push_back X r f)"
proof -
  assume inv: "drr_inv X f"
  show ?thesis
  proof (cases "map_of (by_host f) (host_key X r)")
    case None
    with inv have "host_key X r \<notin> set (rotation f)" by (simp add: drr_inv_host_active)
    with inv None show ?thesis
      by (auto simp: drr_push_back_def Let_def drr_inv_def [of X f] intro!: drr_inv_update [OF inv])
  next
    case (Some q)
    note l = drr_inv_lookup [OF inv Some]
    have "drr_inv X (f\<lparr>by_host := AList.update (host_key X r) (q @ [r]) (by_host f), rotation := rotation f\<rparr>)"
      using l inv by (intro drr_inv_update [OF inv]) (auto simp: drr_inv_def)
    with Some show ?thesis by (simp add: drr_push_back_def Let_def)
  qed
qed

lemma drr_push_front_inv: "drr_inv X f \<Longrightarrow> drr_inv X (drr_push_front X r f)"
proof -
  assume inv: "drr_inv X f"
  show ?thesis
  proof (cases "map_of (by_host f) (host_key X r)")
    case None
    with inv have "host_key X r \<notin> set (rotation f)" by (simp add: drr_inv_host_active)
    with inv None show ?thesis
      by (auto simp: drr_push_front_def Let_def drr_inv_def [of X f] intro!: drr_inv_update [OF inv])
  next
    case (Some q)
    note l = drr_inv_lookup [OF inv Some]
    have "drr_inv X (f\<lparr>by_host := AList.update (host_key X r) (r # q) (by_host f), rotation := rotation f\<rparr>)"
      using l inv by (intro drr_inv_update [OF inv]) (auto simp: drr_inv_def)
    with Some show ?thesis by (simp add: drr_push_front_def Let_def)
  qed
qed

lemma drr_push_contents:
  assumes "drr_inv X f"
  shows "drr_contents (drr_push_back X r f) = add_mset r (drr_contents f)"
    and "drr_contents (drr_push_front X r f) = add_mset r (drr_contents f)"
proof -
  have d: "distinct (map fst (by_host f))" using assms by (simp add: drr_inv_def)
  show "drr_contents (drr_push_back X r f) = add_mset r (drr_contents f)"
    by (cases "map_of (by_host f) (host_key X r)")
      (auto simp: drr_push_back_def drr_contents_def Let_def update_new concat_update [OF d] concat_delete [OF d])
  show "drr_contents (drr_push_front X r f) = add_mset r (drr_contents f)"
    by (cases "map_of (by_host f) (host_key X r)")
      (auto simp: drr_push_front_def drr_contents_def Let_def update_new concat_update [OF d] concat_delete [OF d])
qed

lemma drr_head_host:
  assumes "drr_inv X f" and "rotation f = h # rest"
  obtains r q where "map_of (by_host f) h = Some (r # q)"
proof -
  from assms have "map_of (by_host f) h \<noteq> None" using drr_inv_host_active [of X f h] by simp
  then obtain q where q: "map_of (by_host f) h = Some q" by auto
  with assms(1) have "q \<noteq> []" by (rule drr_inv_lookup)
  with q that show ?thesis by (cases q) auto
qed

lemma drr_pop_step:
  assumes inv: "drr_inv X f" and rot: "rotation f = h # rest" and q: "map_of (by_host f) h = Some (r # q)"
  shows "\<exists>g. drr_pop_front f = Some (Some r, g) \<and> drr_inv X g
     \<and> rotation g = rest @ (if q = [] then [] else [h])
     \<and> drr_contents f = add_mset r (drr_contents g)
     \<and> (\<forall>h'. host_queue g h' = (if h' = h then q else host_queue f h'))"
proof -
  have d: "distinct (map fst (by_host f))" and dr: "distinct (rotation f)"
    using inv by (auto simp: drr_inv_def)
  note l = drr_inv_lookup [OF inv q]
  show ?thesis
  proof (cases "q = []")
    case True
    let ?g = "f\<lparr>by_host := AList.delete h (by_host f), rotation := rest\<rparr>"
    have "drr_inv X ?g"
      using inv rot dr by (auto simp: drr_inv_def AList.distinct_delete set_delete_alist)
    moreover have "drr_pop_front f = Some (Some r, ?g)"
      using rot q True by (simp add: drr_pop_front_def)
    ultimately show ?thesis using True concat_delete [OF d q]
      by (intro exI [of _ ?g]) (auto simp: drr_contents_def host_queue_def)
  next
    case False
    let ?g = "f\<lparr>by_host := AList.update h q (by_host f), rotation := rest @ [h]\<rparr>"
    have "drr_inv X ?g"
      using l False rot dr by (intro drr_inv_update [OF inv]) auto
    moreover have "drr_pop_front f = Some (Some r, ?g)"
      using rot q False by (simp add: drr_pop_front_def)
    ultimately show ?thesis using False concat_delete [OF d q] concat_update [OF d, of h q]
      by (intro exI [of _ ?g]) (auto simp: drr_contents_def host_queue_def)
  qed
qed

lemma drr_empty_iff: "drr_inv X f \<Longrightarrow> drr_contents f = {#} \<longleftrightarrow> rotation f = []"
proof
  assume inv: "drr_inv X f" and c: "drr_contents f = {#}"
  show "rotation f = []"
  proof (rule ccontr)
    assume "rotation f \<noteq> []"
    then obtain h rest where rot: "rotation f = h # rest" by (cases "rotation f") auto
    then obtain r q where "map_of (by_host f) h = Some (r # q)" using inv drr_head_host by blast
    from drr_pop_step [OF inv rot this] c show False by auto
  qed
next
  assume "drr_inv X f" and "rotation f = []"
  then show "drr_contents f = {#}" by (auto simp: drr_inv_def drr_contents_def)
qed

lemma drr_len_contents: "drr_len f = size (drr_contents f)"
  by (auto simp: drr_len_def drr_contents_def length_concat comp_def)

interpretation drr: frontier_contract "drr_push_back X" "drr_push_front X" drr_pop_front drr_len
  drr_is_empty drr_contents "drr_inv X" for X
proof unfold_locales
  fix X :: "('u, 'j) externals" and f
  assume inv: "drr_inv X f" and "drr_contents f = {#}"
  then have "rotation f = []" by (simp add: drr_empty_iff)
  then show "drr_pop_front f = Some (None, f)" by (simp add: drr_pop_front_def)
next
  fix X :: "('u, 'j) externals" and f
  assume inv: "drr_inv X f" and "drr_contents f \<noteq> {#}"
  then obtain h rest where rot: "rotation f = h # rest"
    by (cases "rotation f") (auto simp: drr_empty_iff)
  obtain r q where "map_of (by_host f) h = Some (r # q)" using inv rot by (rule drr_head_host)
  from drr_pop_step [OF inv rot this]
  show "\<exists>r g. drr_pop_front f = Some (Some r, g) \<and> drr_inv X g \<and> drr_contents f = add_mset r (drr_contents g)"
    by blast
next
  fix X :: "('u, 'j) externals" and f
  assume "drr_inv X f"
  then have "drr_contents f = {#} \<longleftrightarrow> rotation f = []" and "set (rotation f) = fst ` set (by_host f)"
    by (simp add: drr_empty_iff, simp add: drr_inv_def)
  then show "drr_is_empty f \<longleftrightarrow> drr_contents f = {#}"
    by (auto simp: drr_is_empty_def)
qed (simp_all add: drr_push_back_inv drr_push_front_inv drr_push_contents drr_len_contents)

section \<open>The frontier as a whole\<close>

fun contents :: "('u, 'j) frontier \<Rightarrow> ('u, 'j) request multiset" where
  "contents (Fifo requests) = mset requests"
| "contents (DomainRoundRobin f) = drr_contents f"

fun frontier_inv :: "('u, 'j) externals \<Rightarrow> ('u, 'j) frontier \<Rightarrow> bool" where
  "frontier_inv X (Fifo requests) = True"
| "frontier_inv X (DomainRoundRobin f) = drr_inv X f"

interpretation fr: frontier_contract "push_back X" "push_front X" pop_front frontier_len
  frontier_is_empty contents "frontier_inv X" for X
proof (unfold_locales, goal_cases)
  case (1 f r)
  then show ?case by (cases f) (simp_all add: drr_push_back_inv)
next
  case (2 f r)
  then show ?case by (cases f) (simp_all add: drr_push_contents)
next
  case (3 f r)
  then show ?case by (cases f) (simp_all add: drr_push_front_inv)
next
  case (4 f r)
  then show ?case by (cases f) (simp_all add: drr_push_contents)
next
  case (5 f)
  then show ?case by (cases f) (simp_all add: drr.pop_none)
next
  case (6 f)
  then show ?case
  proof (cases f)
    case (Fifo xs)
    with 6 show ?thesis by (cases xs) auto
  next
    case (DomainRoundRobin g)
    with 6 drr.pop_some [of X g] show ?thesis by fastforce
  qed
next
  case (7 f)
  then show ?case by (cases f) (simp_all add: drr_len_contents)
next
  case (8 f)
  then show ?case by (cases f) (simp_all add: drr.empty_contents)
qed

lemma frontier_new_inv [simp]: "frontier_inv X (frontier_new p)"
  by (cases p) simp_all

lemma frontier_new_contents [simp]: "contents (frontier_new p) = {#}"
  by (cases p) (simp_all add: drr_contents_def drr_default_def)

section \<open>Fairness and order of the round robin\<close>

fun drr_pops ::
  "nat \<Rightarrow> ('u, 'j) domain_round_robin \<Rightarrow> (('u, 'j) request list \<times> ('u, 'j) domain_round_robin) option" where
  "drr_pops 0 f = Some ([], f)"
| "drr_pops (Suc n) f =
     (case drr_pop_front f of
        Some (Some r, g) \<Rightarrow> map_option (\<lambda>(rs, g'). (r # rs, g')) (drr_pops n g)
      | _ \<Rightarrow> None)"

lemma drr_pops_segment:
  assumes "drr_inv X f" and "rotation f = as @ bs"
  shows "\<exists>g. drr_pops (length as) f = Some (map (\<lambda>h. hd (host_queue f h)) as, g) \<and> drr_inv X g
    \<and> rotation g = bs @ filter (\<lambda>h. tl (host_queue f h) \<noteq> []) as
    \<and> (\<forall>h. host_queue g h = (if h \<in> set as then tl (host_queue f h) else host_queue f h))"
  using assms
proof (induction as arbitrary: f bs)
  case (Cons h as)
  from Cons.prems have rot: "rotation f = h # (as @ bs)" by simp
  then have h: "h \<notin> set as" using Cons.prems by (auto simp: drr_inv_def)
  obtain r q where q: "map_of (by_host f) h = Some (r # q)"
    using Cons.prems(1) rot by (rule drr_head_host)
  from drr_pop_step [OF Cons.prems(1) rot q] obtain g where
    g: "drr_pop_front f = Some (Some r, g)" "drr_inv X g"
      "rotation g = as @ (bs @ (if q = [] then [] else [h]))"
    and hq: "\<And>h'. host_queue g h' = (if h' = h then q else host_queue f h')" by auto
  have fh: "host_queue f h = r # q" using q by (simp add: host_queue_def)
  have same: "\<forall>h' \<in> set as. host_queue g h' = host_queue f h'" using h hq by auto
  from Cons.IH [OF g(2,3)] obtain g' where g': "drr_pops (length as) g = Some (map (\<lambda>h. hd (host_queue g h)) as, g')"
    "drr_inv X g'" "rotation g' = (bs @ (if q = [] then [] else [h])) @ filter (\<lambda>h. tl (host_queue g h) \<noteq> []) as"
    and hq': "\<And>h'. host_queue g' h' = (if h' \<in> set as then tl (host_queue g h') else host_queue g h')"
    by blast
  have "rotation g' = bs @ filter (\<lambda>h. tl (host_queue f h) \<noteq> []) (h # as)"
    using g'(3) fh same by (simp cong: filter_cong)
  moreover have "drr_pops (length (h # as)) f = Some (map (\<lambda>h. hd (host_queue f h)) (h # as), g')"
    using g(1) g'(1) fh same by (simp cong: map_cong)
  moreover have "host_queue g' h' = (if h' \<in> set (h # as) then tl (host_queue f h') else host_queue f h')" for h'
    using hq' [of h'] hq [of h'] fh h by auto
  ultimately show ?case using g'(2) by blast
qed auto

text \<open>
  C30. Fairness of the round robin: popping once per active host returns the front request of
  every active host, each host once, in rotation order, without a panic; the hosts that still
  have requests stay in the rotation in the same order.
\<close>

theorem drr_round_is_fair:
  assumes "drr_inv X f"
  shows "\<exists>rs g. drr_pops (length (rotation f)) f = Some (rs, g) \<and> drr_inv X g
    \<and> map (host_key X) rs = rotation f \<and> rs = map (\<lambda>h. hd (host_queue f h)) (rotation f)
    \<and> rotation g = filter (\<lambda>h. tl (host_queue f h) \<noteq> []) (rotation f)"
proof -
  have key: "host_key X (hd (host_queue f h)) = h" if "h \<in> set (rotation f)" for h
  proof -
    from that assms obtain q where q: "map_of (by_host f) h = Some q"
      using drr_inv_host_active by fastforce
    with drr_inv_lookup [OF assms q] show ?thesis by (auto simp: host_queue_def)
  qed
  from drr_pops_segment [OF assms, of "rotation f" "[]"] obtain g where
    "drr_pops (length (rotation f)) f = Some (map (\<lambda>h. hd (host_queue f h)) (rotation f), g)"
    "drr_inv X g" "rotation g = filter (\<lambda>h. tl (host_queue f h) \<noteq> []) (rotation f)" by auto
  moreover have "map (host_key X) (map (\<lambda>h. hd (host_queue f h)) (rotation f)) = rotation f"
    using key by (simp add: map_idI)
  ultimately show ?thesis by blast
qed

definition sample_drr :: "(string, string) domain_round_robin" where
  "sample_drr = drr_push_back sample_externals (sample_request ''https://b/1'' ''k3'')
     (drr_push_back sample_externals (sample_request ''https://a/2'' ''k2'')
       (drr_push_back sample_externals (sample_request ''https://a/1'' ''k1'') drr_default))"

theorem drr_round_is_fair_witness:
  "drr_inv sample_externals sample_drr
   \<and> (\<exists>rs g. drr_pops (length (rotation sample_drr)) sample_drr = Some (rs, g)
        \<and> map (host_key sample_externals) rs = rotation sample_drr)"
proof -
  have "drr_inv sample_externals sample_drr"
    by (simp add: sample_drr_def drr_push_back_inv)
  with drr_round_is_fair [OF this] show ?thesis by blast
qed

text \<open>
  Order within a host: pushing to the back appends to the deque of the request's host,
  pushing to the front prepends to it, and no other host is affected; popping returns the head
  of the first host's deque and leaves the rest.
\<close>

theorem drr_preserves_host_order:
  assumes "drr_inv X f"
  shows "host_queue (drr_push_back X r f) h = host_queue f h @ (if h = host_key X r then [r] else [])
    \<and> host_queue (drr_push_front X r f) h = (if h = host_key X r then [r] else []) @ host_queue f h
    \<and> (drr_pop_front f = Some (Some p, g) \<longrightarrow>
         host_queue f h = (if h = hd (rotation f) then [p] else []) @ host_queue g h)"
proof (intro conjI impI)
  show "host_queue (drr_push_back X r f) h = host_queue f h @ (if h = host_key X r then [r] else [])"
    by (cases "map_of (by_host f) (host_key X r)") (auto simp: drr_push_back_def host_queue_def Let_def)
  show "host_queue (drr_push_front X r f) h = (if h = host_key X r then [r] else []) @ host_queue f h"
    by (cases "map_of (by_host f) (host_key X r)") (auto simp: drr_push_front_def host_queue_def Let_def)
  assume pop: "drr_pop_front f = Some (Some p, g)"
  then obtain h0 rest where rot: "rotation f = h0 # rest"
    by (auto simp: drr_pop_front_def split: list.splits)
  obtain r q where q: "map_of (by_host f) h0 = Some (r # q)"
    using assms rot by (rule drr_head_host)
  from drr_pop_step [OF assms rot q] pop rot q show
    "host_queue f h = (if h = hd (rotation f) then [p] else []) @ host_queue g h"
    by (auto simp: host_queue_def)
qed

theorem drr_preserves_host_order_witness:
  "host_queue (drr_push_back sample_externals (sample_request ''https://a/3'' ''k4'') sample_drr) ''a''
     = host_queue sample_drr ''a'' @ [sample_request ''https://a/3'' ''k4'']"
proof -
  have inv: "drr_inv sample_externals sample_drr"
    by (simp add: sample_drr_def drr_push_back_inv)
  have "host_key sample_externals (sample_request ''https://a/3'' ''k4'') = ''a''"
    by (simp add: host_key_def sample_externals_def sample_request_def to_ascii_lowercase_def ascii_lower_def)
  with drr_preserves_host_order [OF inv, of "sample_request ''https://a/3'' ''k4''" "''a''"]
  show ?thesis by simp
qed

end
