(* ===== verification/Memory_Queue.thy ===== *)
theory Memory_Queue
  imports Queue_Contract Frontier
begin

text \<open>
  The in-memory request queue (\<open>millipede-storage-memory/src/queue.rs\<close>) over the frontier of
  \<open>Frontier\<close>. The invariant says that every known key is in exactly one place: pending, leased
  or handled. The queue interprets the contract \<open>request_queue\<close>.
\<close>

section \<open>State and operations\<close>

definition LEASE_TTL :: duration where
  "LEASE_TTL = secs 180"

record ('u, 'j) leased_request =
  lr_request :: "('u, 'j) request"
  lr_expires_at :: instant

record ('u, 'j) memory_queue =
  mq_dedup :: "(string \<times> request_id) list"
  mq_handled :: "string set"
  mq_pending :: "('u, 'j) frontier"
  mq_in_flight :: "(u64 \<times> ('u, 'j) leased_request) list"
  mq_handled_count :: u64
  mq_next_lease_id :: u64

definition mem_with_policy :: "memory_queue_policy \<Rightarrow> ('u, 'j) memory_queue" where
  "mem_with_policy policy = \<lparr>mq_dedup = [], mq_handled = {}, mq_pending = frontier_new policy,
     mq_in_flight = [], mq_handled_count = 0, mq_next_lease_id = 0\<rparr>"

definition mem_new :: "('u, 'j) memory_queue" where
  "mem_new = mem_with_policy FifoPolicy"

definition mem_push ::
  "('u, 'j) externals \<Rightarrow> bool \<Rightarrow> ('u, 'j) request \<Rightarrow> ('u, 'j) frontier \<Rightarrow> ('u, 'j) frontier" where
  "mem_push X forefront r f = (if forefront then push_front X r f else push_back X r f)"

definition mem_add_locked ::
  "('u, 'j) externals \<Rightarrow> ('u, 'j) request \<Rightarrow> add_options \<Rightarrow> ('u, 'j) memory_queue
     \<Rightarrow> processed_request \<times> ('u, 'j) memory_queue" where
  "mem_add_locked X r opts q =
     (let unique_key = req_unique_key r in
      case map_of (mq_dedup q) unique_key of
        Some request_id \<Rightarrow>
          (\<lparr>pr_request_id = request_id, pr_unique_key = unique_key, pr_was_already_present = True,
             pr_was_already_handled = (unique_key \<in> mq_handled q)\<rparr>, q)
      | None \<Rightarrow>
          (\<lparr>pr_request_id = req_id r, pr_unique_key = unique_key, pr_was_already_present = False,
             pr_was_already_handled = False\<rparr>,
           q\<lparr>mq_dedup := AList.update unique_key (req_id r) (mq_dedup q),
             mq_pending := mem_push X (add_forefront opts) r (mq_pending q)\<rparr>))"

definition mem_add ::
  "('u, 'j) externals \<Rightarrow> ('u, 'j) request \<Rightarrow> add_options \<Rightarrow> ('u, 'j) memory_queue
     \<Rightarrow> (storage_error + processed_request) \<times> ('u, 'j) memory_queue" where
  "mem_add X r opts q = (case mem_add_locked X r opts q of (info, q') \<Rightarrow> (Inr info, q'))"

fun mem_add_all ::
  "('u, 'j) externals \<Rightarrow> ('u, 'j) request_source list \<Rightarrow> add_options \<Rightarrow> ('u, 'j) memory_queue
     \<Rightarrow> processed_request list \<times> ('u, 'j) memory_queue" where
  "mem_add_all X [] opts q = ([], q)"
| "mem_add_all X (SourceRequest r # rs) opts q =
     (case mem_add_locked X r opts q of (info, q1) \<Rightarrow>
      case mem_add_all X rs opts q1 of (infos, q2) \<Rightarrow> (info # infos, q2))"

definition mem_add_batch ::
  "('u, 'j) externals \<Rightarrow> ('u, 'j) request_source list \<Rightarrow> add_options \<Rightarrow> ('u, 'j) memory_queue
     \<Rightarrow> (storage_error + batch_add_handle) \<times> ('u, 'j) memory_queue" where
  "mem_add_batch X rs opts q =
     (case mem_add_all X rs opts q of (infos, q') \<Rightarrow> (Inr (batch_ready infos), q'))"

definition mem_fetch_next ::
  "instant \<Rightarrow> ('u, 'j) memory_queue
     \<Rightarrow> (storage_error + ('u, 'j) lease option) \<times> ('u, 'j) memory_queue" where
  "mem_fetch_next now q =
     (case pop_front (mq_pending q) of
        None \<Rightarrow> (Inl (Panicked ''rotation only contains active hosts''), q)
      | Some (None, f) \<Rightarrow> (Inr None, q\<lparr>mq_pending := f\<rparr>)
      | Some (Some r, f) \<Rightarrow>
          let raw_lease_id = mq_next_lease_id q;
              expires_at = now + LEASE_TTL
          in (Inr (Some \<lparr>lease_request = r, lease_id = raw_lease_id, lease_expires_at = expires_at\<rparr>),
              q\<lparr>mq_pending := f, mq_next_lease_id := mq_next_lease_id q + 1,
                mq_in_flight := AList.update raw_lease_id
                  \<lparr>lr_request = r, lr_expires_at = expires_at\<rparr> (mq_in_flight q)\<rparr>))"

definition remove_lease ::
  "u64 \<Rightarrow> ('u, 'j) memory_queue
     \<Rightarrow> storage_error + (('u, 'j) leased_request \<times> ('u, 'j) memory_queue)" where
  "remove_lease i q =
     (case map_of (mq_in_flight q) i of
        None \<Rightarrow> Inl (LeaseNotFound i)
      | Some lr \<Rightarrow> Inr (lr, q\<lparr>mq_in_flight := AList.delete i (mq_in_flight q)\<rparr>))"

definition mem_mark_handled ::
  "('u, 'j) lease \<Rightarrow> ('u, 'j) memory_queue \<Rightarrow> (storage_error + unit) \<times> ('u, 'j) memory_queue" where
  "mem_mark_handled l q =
     (case remove_lease (lease_id l) q of
        Inl e \<Rightarrow> (Inl e, q)
      | Inr (leased, q1) \<Rightarrow>
          (Inr (), q1\<lparr>mq_handled_count := mq_handled_count q1 + 1,
             mq_handled := insert (req_unique_key (lr_request leased)) (mq_handled q1)\<rparr>))"

definition mem_reclaim ::
  "('u, 'j) externals \<Rightarrow> ('u, 'j) lease \<Rightarrow> reclaim_options \<Rightarrow> ('u, 'j) memory_queue
     \<Rightarrow> (storage_error + unit) \<times> ('u, 'j) memory_queue" where
  "mem_reclaim X l opts q =
     (case remove_lease (lease_id l) q of
        Inl e \<Rightarrow> (Inl e, q)
      | Inr (_, q1) \<Rightarrow>
          let request = (if rc_increment_retry opts
                then (lease_request l)\<lparr>req_retry_count := req_retry_count (lease_request l) + 1\<rparr>
                else lease_request l)
          in (Inr (), q1\<lparr>mq_pending := mem_push X (rc_forefront opts) request (mq_pending q1)\<rparr>))"

definition mem_renew ::
  "u64 \<Rightarrow> duration \<Rightarrow> ('u, 'j) memory_queue \<Rightarrow> (storage_error + unit) \<times> ('u, 'j) memory_queue" where
  "mem_renew i extend_by q =
     (case map_of (mq_in_flight q) i of
        None \<Rightarrow> (Inl (LeaseNotFound i), q)
      | Some lr \<Rightarrow>
          (Inr (), q\<lparr>mq_in_flight := AList.update i
             (lr\<lparr>lr_expires_at := lr_expires_at lr + extend_by\<rparr>) (mq_in_flight q)\<rparr>))"

definition mem_abandon ::
  "('u, 'j) externals \<Rightarrow> ('u, 'j) lease \<Rightarrow> ('u, 'j) memory_queue
     \<Rightarrow> (storage_error + unit) \<times> ('u, 'j) memory_queue" where
  "mem_abandon X l q =
     (case remove_lease (lease_id l) q of
        Inl e \<Rightarrow> (Inl e, q)
      | Inr (_, q1) \<Rightarrow>
          (Inr (), q1\<lparr>mq_pending := push_front X (lease_request l) (mq_pending q1)\<rparr>))"

definition mem_is_empty :: "('u, 'j) memory_queue \<Rightarrow> bool" where
  "mem_is_empty q = frontier_is_empty (mq_pending q)"

definition mem_is_finished :: "('u, 'j) memory_queue \<Rightarrow> bool" where
  "mem_is_finished q = (frontier_is_empty (mq_pending q) \<and> mq_in_flight q = [])"

definition mem_handled_count :: "('u, 'j) memory_queue \<Rightarrow> u64" where
  "mem_handled_count q = mq_handled_count q"

definition mem_pending_count :: "('u, 'j) memory_queue \<Rightarrow> u64" where
  "mem_pending_count q = word_of_nat (frontier_len (mq_pending q))"

definition memory_ops :: "('u, 'j) externals \<Rightarrow> (('u, 'j) memory_queue, 'u, 'j) queue_ops" where
  "memory_ops X = \<lparr>q_add = mem_add X, q_fetch_next = mem_fetch_next,
     q_mark_handled = mem_mark_handled, q_reclaim = mem_reclaim X,
     q_renew = (\<lambda>_. mem_renew), q_abandon = mem_abandon X, q_is_empty = mem_is_empty,
     q_is_finished = mem_is_finished, q_handled_count = mem_handled_count,
     q_pending_count = mem_pending_count\<rparr>"

lemmas mem_defs [queue_defs] = mem_add_def mem_add_locked_def mem_fetch_next_def remove_lease_def
  mem_mark_handled_def mem_reclaim_def mem_renew_def mem_abandon_def

section \<open>Invariant and abstraction\<close>

abbreviation leased_key :: "u64 \<times> ('u, 'j) leased_request \<Rightarrow> string" where
  "leased_key p \<equiv> req_unique_key (lr_request (snd p))"

definition pending_keys :: "('u, 'j) memory_queue \<Rightarrow> string multiset" where
  "pending_keys q = image_mset req_unique_key (contents (mq_pending q))"

definition leased_keys :: "('u, 'j) memory_queue \<Rightarrow> string multiset" where
  "leased_keys q = image_mset leased_key (mset (mq_in_flight q))"

definition mem_inv :: "('u, 'j) externals \<Rightarrow> ('u, 'j) memory_queue \<Rightarrow> bool" where
  "mem_inv X q \<longleftrightarrow> frontier_inv X (mq_pending q) \<and> finite (mq_handled q)
     \<and> distinct (map fst (mq_dedup q)) \<and> distinct (map fst (mq_in_flight q))
     \<and> (\<forall>p \<in> set (mq_in_flight q). fst p < mq_next_lease_id q)
     \<and> pending_keys q + leased_keys q + mset_set (mq_handled q) = mset (map fst (mq_dedup q))
     \<and> mq_handled_count q = word_of_nat (card (mq_handled q))"

definition mem_status :: "('u, 'j) memory_queue \<Rightarrow> queue_spec" where
  "mem_status q k =
     (if k \<in> mq_handled q then Some Handled
      else if k \<in># pending_keys q then Some Pending
      else map_option (\<lambda>p. Leased (fst p)) (find (\<lambda>p. leased_key p = k) (mq_in_flight q)))"

definition mem_owned :: "('u, 'j) externals \<Rightarrow> ('u, 'j) lease \<Rightarrow> ('u, 'j) memory_queue \<Rightarrow> bool" where
  "mem_owned X l q \<longleftrightarrow> mem_inv X q \<and> (\<exists>lr. map_of (mq_in_flight q) (lease_id l) = Some lr
     \<and> req_unique_key (lr_request lr) = req_unique_key (lease_request l))"

definition mem_live :: "('u, 'j) memory_queue \<Rightarrow> bool" where
  "mem_live q \<longleftrightarrow> mq_next_lease_id q \<noteq> - 1"

lemma mem_inv_new [simp]: "mem_inv X (mem_with_policy p)"
  by (simp add: mem_inv_def mem_with_policy_def pending_keys_def leased_keys_def)

lemma mem_count_le_1:
  assumes "mem_inv X q"
  shows "count (pending_keys q) k + count (leased_keys q) k + count (mset_set (mq_handled q)) k \<le> 1"
proof -
  have "distinct (map fst (mq_dedup q))" using assms by (simp add: mem_inv_def)
  then have "count (mset (map fst (mq_dedup q))) k \<le> 1"
    by (simp add: distinct_count_atmost_1)
  moreover have "mset (map fst (mq_dedup q)) = pending_keys q + leased_keys q + mset_set (mq_handled q)"
    using assms by (simp add: mem_inv_def)
  ultimately show ?thesis by (simp only: count_union)
qed

lemma mem_disjoint:
  assumes "mem_inv X q"
  shows "k \<in> mq_handled q \<Longrightarrow> k \<notin># pending_keys q \<and> k \<notin># leased_keys q"
    and "k \<in># pending_keys q \<Longrightarrow> k \<notin># leased_keys q"
proof -
  have fin: "finite (mq_handled q)" using assms by (simp add: mem_inv_def)
  show "k \<in> mq_handled q \<Longrightarrow> k \<notin># pending_keys q \<and> k \<notin># leased_keys q"
    using mem_count_le_1 [OF assms, of k] fin by (simp add: count_eq_zero_iff [symmetric])
  show "k \<in># pending_keys q \<Longrightarrow> k \<notin># leased_keys q"
    using mem_count_le_1 [OF assms, of k] by (simp add: count_eq_zero_iff [symmetric] flip: count_greater_zero_iff)
qed

lemma leased_keys_iff: "k \<in># leased_keys q \<longleftrightarrow> (\<exists>p \<in> set (mq_in_flight q). leased_key p = k)"
  by (auto simp: leased_keys_def)

lemma find_leased_None:
  "find (\<lambda>p. leased_key p = k) (mq_in_flight q) = None \<longleftrightarrow> k \<notin># leased_keys q"
  unfolding find_None_iff leased_keys_iff by blast

lemma leased_unique:
  assumes "mem_inv X q" and "p \<in> set (mq_in_flight q)" and "p' \<in> set (mq_in_flight q)"
    and "leased_key p = leased_key p'"
  shows "p = p'"
proof (rule ccontr)
  assume "p \<noteq> p'"
  with assms(2,3) have "{#p, p'#} \<subseteq># mset (mq_in_flight q)"
    by (auto simp: insert_subset_eq_iff in_diff_count)
  then have "image_mset leased_key {#p, p'#} \<subseteq># leased_keys q"
    unfolding leased_keys_def by (rule image_mset_subseteq_mono)
  then have "2 \<le> count (leased_keys q) (leased_key p)"
    using assms(4) by (auto simp: subseteq_mset_def dest: spec [of _ "leased_key p"])
  with mem_count_le_1 [OF assms(1), of "leased_key p"] show False by simp
qed

lemma mem_status_handled [simp]: "k \<in> mq_handled q \<Longrightarrow> mem_status q k = Some Handled"
  by (simp add: mem_status_def)

lemma mem_status_handled_iff: "mem_status q k = Some Handled \<longleftrightarrow> k \<in> mq_handled q"
  by (auto simp: mem_status_def split: option.splits)

lemma mem_status_pendingD: "mem_status q k = Some Pending \<Longrightarrow> k \<in># pending_keys q"
  by (auto simp: mem_status_def split: option.splits if_splits)

lemma mem_status_pending: "mem_inv X q \<Longrightarrow> k \<in># pending_keys q \<Longrightarrow> mem_status q k = Some Pending"
  using mem_disjoint(1) [of X q k] by (auto simp: mem_status_def)

lemma mem_status_leased:
  assumes "mem_inv X q" and "p \<in> set (mq_in_flight q)"
  shows "mem_status q (leased_key p) = Some (Leased (fst p))"
proof -
  have l: "leased_key p \<in># leased_keys q" using assms(2) by (auto simp: leased_keys_iff)
  then have "leased_key p \<notin> mq_handled q" and "leased_key p \<notin># pending_keys q"
    using mem_disjoint [OF assms(1)] by blast+
  moreover obtain p' where p': "find (\<lambda>p'. leased_key p' = leased_key p) (mq_in_flight q) = Some p'"
    using l find_leased_None [of "leased_key p" q] by auto
  moreover from p' have "p' \<in> set (mq_in_flight q) \<and> leased_key p' = leased_key p"
    unfolding find_Some_iff by (metis nth_mem)
  then have "p' = p" using leased_unique [OF assms(1) _ assms(2)] by blast
  ultimately show ?thesis by (simp add: mem_status_def)
qed

definition leased_in :: "(u64 \<times> ('u, 'j) leased_request) list \<Rightarrow> string \<Rightarrow> u64 \<Rightarrow> bool" where
  "leased_in fl k i \<longleftrightarrow> (\<exists>p \<in> set fl. leased_key p = k \<and> fst p = i)"

lemma mem_status_none:
  assumes "mem_inv X q"
  shows "mem_status q k = None \<longleftrightarrow> map_of (mq_dedup q) k = None"
proof -
  have fin: "finite (mq_handled q)"
    and tot: "pending_keys q + leased_keys q + mset_set (mq_handled q) = mset (map fst (mq_dedup q))"
    using assms by (simp_all add: mem_inv_def)
  have "map_of (mq_dedup q) k = None \<longleftrightarrow> k \<notin># mset (map fst (mq_dedup q))"
    by (simp add: map_of_eq_None_iff)
  also have "\<dots> \<longleftrightarrow> k \<notin> mq_handled q \<and> k \<notin># pending_keys q \<and> k \<notin># leased_keys q"
    unfolding tot [symmetric] using fin by auto
  also have "\<dots> \<longleftrightarrow> mem_status q k = None"
    by (simp add: mem_status_def find_leased_None)
  finally show ?thesis ..
qed

lemma mem_status_frame:
  assumes "mem_inv X q" and "mem_inv X q'"
    and "k \<in> mq_handled q' \<longleftrightarrow> k \<in> mq_handled q" and "k \<in># pending_keys q' \<longleftrightarrow> k \<in># pending_keys q"
    and "leased_in (mq_in_flight q') k = leased_in (mq_in_flight q) k"
  shows "mem_status q' k = mem_status q k"
proof (cases "k \<in># leased_keys q")
  case True
  then obtain p where p: "p \<in> set (mq_in_flight q)" "leased_key p = k" by (auto simp: leased_keys_iff)
  then have "leased_in (mq_in_flight q') k (fst p)" using assms(5) by (auto simp: leased_in_def)
  then obtain p' where "p' \<in> set (mq_in_flight q')" "leased_key p' = k" "fst p' = fst p"
    by (auto simp: leased_in_def)
  with p mem_status_leased [OF assms(1) p(1)] mem_status_leased [OF assms(2), of p'] show ?thesis by simp
next
  case False
  then have "\<not> leased_in (mq_in_flight q') k i" for i
  proof -
    have "\<not> leased_in (mq_in_flight q) k i"
      using False unfolding leased_keys_iff leased_in_def by blast
    then show ?thesis using assms(5) by simp
  qed
  then have "k \<notin># leased_keys q'" unfolding leased_keys_iff leased_in_def by blast
  then have "find (\<lambda>p. leased_key p = k) (mq_in_flight q') = None"
    and "find (\<lambda>p. leased_key p = k) (mq_in_flight q) = None"
    using False by (simp_all only: find_leased_None not_False_eq_True)
  then show ?thesis using assms(3,4) by (simp only: mem_status_def split: if_split)
qed

section \<open>Every operation keeps the invariant\<close>

lemma mem_push_inv: "frontier_inv X f \<Longrightarrow> frontier_inv X (mem_push X ff r f)"
  by (simp add: mem_push_def fr.pushb_invar fr.pushf_invar)

lemma mem_push_contents:
  "frontier_inv X f \<Longrightarrow> contents (mem_push X ff r f) = add_mset r (contents f)"
  by (simp add: mem_push_def fr.pushb_contents fr.pushf_contents)

lemma mem_add_new:
  assumes "mem_inv X q" and new: "map_of (mq_dedup q) (req_unique_key r) = None"
    and q': "q' = q\<lparr>mq_dedup := AList.update (req_unique_key r) (req_id r) (mq_dedup q),
             mq_pending := mem_push X ff r (mq_pending q)\<rparr>"
  shows "mem_inv X q' \<and> mem_status q' = (mem_status q)(req_unique_key r \<mapsto> Pending)"
proof -
  have f: "frontier_inv X (mq_pending q)" using assms(1) by (simp add: mem_inv_def)
  have pk: "pending_keys q' = add_mset (req_unique_key r) (pending_keys q)"
    using f by (simp add: q' pending_keys_def mem_push_contents)
  have lk: "leased_keys q' = leased_keys q" by (simp add: q' leased_keys_def)
  have inv': "mem_inv X q'"
    using assms(1) pk lk new by (auto simp: mem_inv_def q' mem_push_inv update_new map_of_eq_None_iff)
  have "mem_status q' k = mem_status q k" if "k \<noteq> req_unique_key r" for k
    using that pk by (intro mem_status_frame [OF assms(1) inv']) (simp_all add: q')
  moreover have "mem_status q' (req_unique_key r) = Some Pending"
    using pk by (intro mem_status_pending [OF inv']) simp
  ultimately show ?thesis using inv' by auto
qed

lemma mem_remove:
  assumes "mem_inv X q" and lr: "map_of (mq_in_flight q) i = Some lr"
  shows "leased_keys q = add_mset (req_unique_key (lr_request lr))
           (leased_keys (q\<lparr>mq_in_flight := AList.delete i (mq_in_flight q)\<rparr>))"
proof -
  have "mset (mq_in_flight q) = add_mset (i, lr) (mset (AList.delete i (mq_in_flight q)))"
    using assms by (intro mset_delete) (auto simp: mem_inv_def)
  then show ?thesis by (simp add: leased_keys_def)
qed

lemma mem_leased_others:
  assumes "mem_inv X q" and lr: "map_of (mq_in_flight q) i = Some lr" and "k \<noteq> req_unique_key (lr_request lr)"
  shows "leased_in (AList.delete i (mq_in_flight q)) k = leased_in (mq_in_flight q) k"
proof -
  have "snd p = lr" if "p \<in> set (mq_in_flight q)" "fst p = i" for p
  proof -
    have "distinct (map fst (mq_in_flight q))" using assms(1) by (simp add: mem_inv_def)
    then have "map_of (mq_in_flight q) (fst p) = Some (snd p)" using that(1) by (cases p) (simp add: map_of_is_SomeI)
    with that(2) lr show ?thesis by simp
  qed
  then have "leased_in (AList.delete i (mq_in_flight q)) k j = leased_in (mq_in_flight q) k j" for j
    using assms(3) unfolding leased_in_def set_delete_alist by blast
  then show ?thesis by blast
qed

lemma mem_requeue:
  assumes "mem_inv X q" and lr: "map_of (mq_in_flight q) i = Some lr"
    and key: "req_unique_key r = req_unique_key (lr_request lr)"
    and q': "q' = q\<lparr>mq_in_flight := AList.delete i (mq_in_flight q),
             mq_pending := mem_push X ff r (mq_pending q)\<rparr>"
  shows "mem_inv X q' \<and> mem_status q' = (mem_status q)(req_unique_key r \<mapsto> Pending)"
proof -
  have f: "frontier_inv X (mq_pending q)" using assms(1) by (simp add: mem_inv_def)
  have pk: "pending_keys q' = add_mset (req_unique_key r) (pending_keys q)"
    using f by (simp add: q' pending_keys_def mem_push_contents)
  have lk: "leased_keys q = add_mset (req_unique_key r) (leased_keys q')"
    using mem_remove [OF assms(1) lr] key by (simp add: q' leased_keys_def)
  have "pending_keys q' + leased_keys q' + mset_set (mq_handled q') = mset (map fst (mq_dedup q'))"
    using assms(1) pk lk by (simp add: mem_inv_def q')
  then have inv': "mem_inv X q'"
    using assms(1) by (auto simp: mem_inv_def q' mem_push_inv AList.distinct_delete set_delete_alist)
  have "mem_status q' k = mem_status q k" if "k \<noteq> req_unique_key r" for k
    using that mem_leased_others [OF assms(1) lr] key pk
    by (intro mem_status_frame [OF assms(1) inv']) (simp_all add: q')
  moreover have "mem_status q' (req_unique_key r) = Some Pending"
    using pk by (intro mem_status_pending [OF inv']) simp
  ultimately show ?thesis using inv' by auto
qed

lemma mem_handle:
  assumes "mem_inv X q" and lr: "map_of (mq_in_flight q) i = Some lr"
    and q': "q' = q\<lparr>mq_in_flight := AList.delete i (mq_in_flight q),
             mq_handled_count := mq_handled_count q + 1,
             mq_handled := insert (req_unique_key (lr_request lr)) (mq_handled q)\<rparr>"
  shows "mem_inv X q' \<and> mem_status q' = (mem_status q)(req_unique_key (lr_request lr) \<mapsto> Handled)"
proof -
  let ?k = "req_unique_key (lr_request lr)"
  have fin: "finite (mq_handled q)" using assms(1) by (simp add: mem_inv_def)
  have lk: "leased_keys q = add_mset ?k (leased_keys q')"
    using mem_remove [OF assms(1) lr] by (simp add: q' leased_keys_def)
  then have "?k \<in># leased_keys q" by simp
  then have new: "?k \<notin> mq_handled q" using mem_disjoint(1) [OF assms(1)] by blast
  have "pending_keys q' = pending_keys q" and "mset_set (mq_handled q') = add_mset ?k (mset_set (mq_handled q))"
    using new fin by (simp_all add: q' pending_keys_def)
  with lk have "pending_keys q' + leased_keys q' + mset_set (mq_handled q')
      = pending_keys q + leased_keys q + mset_set (mq_handled q)" by simp
  also have "\<dots> = mset (map fst (mq_dedup q'))" using assms(1) by (simp add: mem_inv_def q')
  finally have "pending_keys q' + leased_keys q' + mset_set (mq_handled q') = mset (map fst (mq_dedup q'))" .
  then have inv': "mem_inv X q'"
    using assms(1) new fin
    by (auto simp: mem_inv_def q' AList.distinct_delete set_delete_alist)
  have "mem_status q' k = mem_status q k" if "k \<noteq> ?k" for k
    using that mem_leased_others [OF assms(1) lr]
    by (intro mem_status_frame [OF assms(1) inv']) (simp_all add: q' pending_keys_def)
  then show ?thesis using inv' by (auto simp: q')
qed

lemma mem_fetch:
  assumes "mem_inv X q" and "mem_live q"
    and pop: "contents (mq_pending q) = add_mset r (contents f)" and f: "frontier_inv X f"
    and q': "q' = q\<lparr>mq_pending := f, mq_next_lease_id := mq_next_lease_id q + 1,
             mq_in_flight := AList.update (mq_next_lease_id q) lr (mq_in_flight q)\<rparr>"
    and lr: "lr_request lr = r"
  shows "mem_inv X q' \<and> map_of (mq_in_flight q') (mq_next_lease_id q) = Some lr
    \<and> mem_status q' = (mem_status q)(req_unique_key r \<mapsto> Leased (mq_next_lease_id q))
    \<and> mem_status q (req_unique_key r) = Some Pending"
proof -
  let ?i = "mq_next_lease_id q"
  have ids: "\<forall>p \<in> set (mq_in_flight q). fst p < ?i" using assms(1) by (simp add: mem_inv_def)
  then have "map_of (mq_in_flight q) ?i = None" by (auto simp: map_of_eq_None_iff)
  then have fl: "mq_in_flight q' = mq_in_flight q @ [(?i, lr)]" by (simp add: q' update_new)
  have pk: "pending_keys q = add_mset (req_unique_key r) (pending_keys q')"
    using pop by (simp add: pending_keys_def q')
  have lk: "leased_keys q' = add_mset (req_unique_key r) (leased_keys q)"
    using fl lr by (simp add: leased_keys_def)
  have "pending_keys q' + leased_keys q' + mset_set (mq_handled q') = mset (map fst (mq_dedup q'))"
    using assms(1) pk lk by (simp add: mem_inv_def q')
  moreover have "fst p < ?i + 1" if "p \<in> set (mq_in_flight q')" for p
    using that fl ids assms(2) by (auto simp: mem_live_def intro!: word_less_inc)
  moreover have "distinct (map fst (mq_in_flight q'))"
    using assms(1) ids fl by (auto simp: mem_inv_def)
  ultimately have inv': "mem_inv X q'"
    using assms(1) f by (simp add: mem_inv_def q')
  have "mem_status q' k = mem_status q k" if "k \<noteq> req_unique_key r" for k
    using that pk fl lr
    by (intro mem_status_frame [OF assms(1) inv']) (auto simp: q' leased_in_def)
  moreover have "mem_status q' (req_unique_key r) = Some (Leased ?i)"
    using mem_status_leased [OF inv', of "(?i, lr)"] fl lr by simp
  moreover have "mem_status q (req_unique_key r) = Some Pending"
    using pk by (intro mem_status_pending [OF assms(1)]) simp
  ultimately show ?thesis using inv' by (auto simp: q')
qed

lemma leased_in_map:
  "leased_in fl k i \<longleftrightarrow> (i, k) \<in> set (map (\<lambda>p. (fst p, leased_key p)) fl)"
  by (force simp: leased_in_def)

lemma mem_renew_ok:
  assumes "mem_inv X q" and lr: "map_of (mq_in_flight q) i = Some lr"
    and q': "q' = q\<lparr>mq_in_flight := AList.update i (lr\<lparr>lr_expires_at := t\<rparr>) (mq_in_flight q)\<rparr>"
  shows "mem_inv X q' \<and> mem_status q' = mem_status q"
proof -
  have keys: "map fst (mq_in_flight q') = map fst (mq_in_flight q)"
    "map leased_key (mq_in_flight q') = map leased_key (mq_in_flight q)"
    "map (\<lambda>p. (fst p, leased_key p)) (mq_in_flight q') = map (\<lambda>p. (fst p, leased_key p)) (mq_in_flight q)"
    using lr by (simp_all add: q' map_update_same)
  have "leased_keys q' = leased_keys q"
    using arg_cong [OF keys(2), of mset] by (simp add: leased_keys_def)
  moreover have "\<forall>p \<in> set (mq_in_flight q'). fst p < mq_next_lease_id q"
  proof -
    have "fst ` set (mq_in_flight q') = fst ` set (mq_in_flight q)"
      using arg_cong [OF keys(1), of set] by (simp only: set_map)
    moreover have "\<forall>i \<in> fst ` set (mq_in_flight q). i < mq_next_lease_id q"
      using assms(1) by (simp add: mem_inv_def)
    ultimately have "\<forall>i \<in> fst ` set (mq_in_flight q'). i < mq_next_lease_id q" by simp
    then show ?thesis by blast
  qed
  ultimately have inv': "mem_inv X q'"
    using assms(1) keys(1) by (simp add: mem_inv_def q' pending_keys_def)
  have "leased_in (mq_in_flight q') k = leased_in (mq_in_flight q) k" for k
    by (intro ext) (simp only: leased_in_map keys(3))
  then have "mem_status q' k = mem_status q k" for k
    by (intro mem_status_frame [OF assms(1) inv']) (simp_all add: q' pending_keys_def)
  with inv' show ?thesis by auto
qed

section \<open>The queue implements the contract\<close>

lemma mem_owned_lookup:
  "mem_owned X l q \<Longrightarrow> \<exists>lr. map_of (mq_in_flight q) (lease_id l) = Some lr
     \<and> req_unique_key (lr_request lr) = req_unique_key (lease_request l)"
  by (auto simp: mem_owned_def)

interpretation mem: request_queue "memory_ops X" mem_status "mem_inv X" "\<lambda>_ _. True" "mem_owned X" mem_live
  for X
proof (unfold_locales, goal_cases)
  case (1 l q)
  then obtain lr where "map_of (mq_in_flight q) (lease_id l) = Some lr"
    "req_unique_key (lr_request lr) = req_unique_key (lease_request l)" and inv: "mem_inv X q"
    by (auto simp: mem_owned_def)
  with mem_status_leased [OF inv, of "(lease_id l, lr)"] show ?case by (auto dest: map_of_SomeD)
next
  case (2 q r opts info q')
  show ?case
  proof (cases "map_of (mq_dedup q) (req_unique_key r)")
    case None
    have q': "q' = q\<lparr>mq_dedup := AList.update (req_unique_key r) (req_id r) (mq_dedup q),
             mq_pending := mem_push X (add_forefront opts) r (mq_pending q)\<rparr>"
      and "\<not> pr_was_already_present info" "\<not> pr_was_already_handled info"
      using 2(3) None by (auto simp: memory_ops_def mem_add_def mem_add_locked_def Let_def)
    moreover have "mem_status q (req_unique_key r) = None"
      using mem_status_none [OF 2(1)] None by simp
    ultimately show ?thesis using mem_add_new [OF 2(1) None q'] by (simp add: spec_add_def)
  next
    case (Some i)
    then have "mem_status q (req_unique_key r) \<noteq> None" using mem_status_none [OF 2(1)] by simp
    moreover have "q' = q" "pr_was_already_present info"
      "pr_was_already_handled info \<longleftrightarrow> req_unique_key r \<in> mq_handled q"
      using 2(3) Some by (auto simp: memory_ops_def mem_add_def mem_add_locked_def Let_def)
    ultimately show ?thesis using 2(1) by (auto simp: spec_add_def mem_status_handled_iff)
  qed
next
  case (3 q now l q')
  have inv: "mem_inv X q" by (rule 3)
  then have f: "frontier_inv X (mq_pending q)" by (simp add: mem_inv_def)
  from 3(3) obtain r g where pop: "pop_front (mq_pending q) = Some (Some r, g)"
    by (auto simp: memory_ops_def mem_fetch_next_def Let_def split: option.splits)
  with fr.pop_cases [OF f] have g: "frontier_inv X g" "contents (mq_pending q) = add_mset r (contents g)"
    by auto
  let ?lr = "\<lparr>lr_request = r, lr_expires_at = now + LEASE_TTL\<rparr>"
  have l: "l = \<lparr>lease_request = r, lease_id = mq_next_lease_id q, lease_expires_at = now + LEASE_TTL\<rparr>"
    and q': "q' = q\<lparr>mq_pending := g, mq_next_lease_id := mq_next_lease_id q + 1,
             mq_in_flight := AList.update (mq_next_lease_id q) ?lr (mq_in_flight q)\<rparr>"
    using 3(3) pop by (auto simp: memory_ops_def mem_fetch_next_def Let_def)
  note m = mem_fetch [OF inv 3(2) g(2,1) q']
  then show ?case using l by (auto simp: mem_owned_def intro!: exI [of _ "mem_status q"])
next
  case (4 q now q')
  have f: "frontier_inv X (mq_pending q)" using 4(1) by (simp add: mem_inv_def)
  from 4(2) obtain g where pop: "pop_front (mq_pending q) = Some (None, g)" and q': "q' = q\<lparr>mq_pending := g\<rparr>"
    by (auto simp: memory_ops_def mem_fetch_next_def Let_def split: option.splits)
  from fr.pop_cases [OF f pop] q' have "q' = q" and "pending_keys q = {#}" by (auto simp: pending_keys_def)
  moreover from this have "Some Pending \<noteq> mem_status q k" for k
    using mem_status_pendingD [of q k] by auto
  ultimately show ?case using 4(1) by (auto simp: image_iff)
next
  case (5 q l q')
  from mem_owned_lookup [OF 5(2)] obtain lr where lr: "map_of (mq_in_flight q) (lease_id l) = Some lr"
    "req_unique_key (lr_request lr) = req_unique_key (lease_request l)" by blast
  with 5(3) mem_handle [OF 5(1) lr(1)] show ?case
    by (auto simp: memory_ops_def mem_mark_handled_def remove_lease_def)
next
  case (6 q l ro q')
  from mem_owned_lookup [OF 6(2)] obtain lr where lr: "map_of (mq_in_flight q) (lease_id l) = Some lr"
    "req_unique_key (lr_request lr) = req_unique_key (lease_request l)" by blast
  let ?r = "if rc_increment_retry ro
     then (lease_request l)\<lparr>req_retry_count := req_retry_count (lease_request l) + 1\<rparr> else lease_request l"
  have "req_unique_key ?r = req_unique_key (lease_request l)" by simp
  moreover have "q' = q\<lparr>mq_in_flight := AList.delete (lease_id l) (mq_in_flight q),
      mq_pending := mem_push X (rc_forefront ro) ?r (mq_pending q)\<rparr>"
    using 6(3) lr by (simp add: memory_ops_def mem_reclaim_def remove_lease_def Let_def)
  ultimately show ?case using mem_requeue [OF 6(1) lr(1), of ?r q' "rc_forefront ro"] lr(2) by simp
next
  case (7 q l q')
  from mem_owned_lookup [OF 7(2)] obtain lr where lr: "map_of (mq_in_flight q) (lease_id l) = Some lr"
    "req_unique_key (lr_request lr) = req_unique_key (lease_request l)" by blast
  have "q' = q\<lparr>mq_in_flight := AList.delete (lease_id l) (mq_in_flight q),
      mq_pending := mem_push X True (lease_request l) (mq_pending q)\<rparr>"
    using 7(3) lr by (simp add: memory_ops_def mem_abandon_def remove_lease_def mem_push_def)
  then show ?case using mem_requeue [OF 7(1) lr(1), of "lease_request l" q' True] lr(2) by simp
next
  case (8 q now i d q')
  then obtain lr where lr: "map_of (mq_in_flight q) i = Some lr"
    and "q' = q\<lparr>mq_in_flight := AList.update i (lr\<lparr>lr_expires_at := lr_expires_at lr + d\<rparr>) (mq_in_flight q)\<rparr>"
    by (auto simp: memory_ops_def mem_renew_def split: option.splits)
  then show ?case using mem_renew_ok [OF 8(1) lr] by simp
qed

section \<open>Properties\<close>

lemma mem_total:
  assumes "mem_inv X q"
  shows "length (mq_dedup q) = frontier_len (mq_pending q) + length (mq_in_flight q) + card (mq_handled q)"
proof -
  have "size (pending_keys q + leased_keys q + mset_set (mq_handled q)) = size (mset (map fst (mq_dedup q)))"
    using assms by (simp add: mem_inv_def)
  moreover have "frontier_len (mq_pending q) = size (contents (mq_pending q))"
    using assms by (intro fr.len_contents [of X]) (simp add: mem_inv_def)
  ultimately show ?thesis by (simp add: pending_keys_def leased_keys_def)
qed

text \<open>
  The operations of the trait in one step relation: a client calls any operation with any
  request, and returns only leases it holds, with the key they were leased under.
\<close>

inductive mem_step :: "('u, 'j) externals \<Rightarrow> ('u, 'j) memory_queue \<Rightarrow> ('u, 'j) memory_queue \<Rightarrow> bool"
  for X where
  add: "mem_add X r opts q = (res, q') \<Longrightarrow> mem_step X q q'"
| fetch: "mem_live q \<Longrightarrow> mem_fetch_next now q = (res, q') \<Longrightarrow> mem_step X q q'"
| handled: "mem_owned X l q \<Longrightarrow> mem_mark_handled l q = (res, q') \<Longrightarrow> mem_step X q q'"
| reclaim: "mem_owned X l q \<Longrightarrow> mem_reclaim X l ro q = (res, q') \<Longrightarrow> mem_step X q q'"
| abandon: "mem_owned X l q \<Longrightarrow> mem_abandon X l q = (res, q') \<Longrightarrow> mem_step X q q'"
| renew: "mem_renew i d q = (res, q') \<Longrightarrow> mem_step X q q'"

inductive_cases mem_step_E: "mem_step X q q'"

lemma mem_step_client:
  assumes "mem_step X q q'" and "mem_inv X q"
  shows "mem.client_step X q q' \<or> q' = q"
  using assms
proof (induction rule: mem_step.induct)
  case (add r opts q res q')
  then obtain info where "q_add (memory_ops X) r opts q = (Inr info, q')"
    by (auto simp: memory_ops_def mem_add_def split: prod.splits)
  then show ?case by (auto intro: mem.client_step.add [OF TrueI])
next
  case (fetch q now res q')
  show ?case
  proof (cases res)
    case (Inl e)
    then show ?thesis using fetch by (auto simp: mem_fetch_next_def Let_def split: option.splits)
  next
    case (Inr lo)
    then show ?thesis using fetch
      by (intro disjI1 mem.client_step.fetch [of q X now lo]) (auto simp: memory_ops_def)
  qed
next
  case (handled l q res q')
  then show ?case
    by (intro disjI1 mem.client_step.handled [of X l q])
      (auto simp: memory_ops_def mem_owned_def mem_mark_handled_def remove_lease_def)
next
  case (reclaim l q ro res q')
  then show ?case
    by (intro disjI1 mem.client_step.reclaim [of X l q ro])
      (auto simp: memory_ops_def mem_owned_def mem_reclaim_def remove_lease_def Let_def)
next
  case (abandon l q res q')
  then show ?case
    by (intro disjI1 mem.client_step.abandon [of X l q])
      (auto simp: memory_ops_def mem_owned_def mem_abandon_def remove_lease_def)
next
  case (renew i d q res q')
  show ?case
  proof (cases res)
    case (Inl e)
    then show ?thesis using renew by (auto simp: mem_renew_def split: option.splits)
  next
    case (Inr u)
    then show ?thesis using renew
      by (intro disjI1 mem.client_step.renew [of X 0 i d q]) (auto simp: memory_ops_def)
  qed
qed

lemma mem_step_inv: "mem_step X q q' \<Longrightarrow> mem_inv X q \<Longrightarrow> mem_inv X q'"
  using mem_step_client mem.client_step_invar by blast

lemma mem_run_client:
  assumes "(mem_step X)\<^sup>*\<^sup>* q q'" and "mem_inv X q"
  shows "(mem.client_step X)\<^sup>*\<^sup>* q q' \<and> mem_inv X q'"
  using assms
proof (induction rule: rtranclp_induct)
  case (step y z)
  then show ?case using mem_step_client [OF step.hyps(2)] mem_step_inv [OF step.hyps(2)]
    by (auto intro: rtranclp.rtrancl_into_rtrancl)
qed simp


definition sample_queue :: "(string, string) memory_queue" where
  "sample_queue = snd (mem_add sample_externals (sample_request ''https://a/1'' ''k1'')
     \<lparr>add_forefront = False\<rparr> (mem_with_policy DomainRoundRobinPolicy))"

lemma sample_queue_step:
  "mem_step sample_externals (mem_with_policy DomainRoundRobinPolicy) sample_queue"
  unfolding sample_queue_def by (rule mem_step.add) (rule prod.collapse [symmetric])


text \<open>
  Exactly-once: once a key is handled, no later operation hands it out again, and adding a
  request with that key reports it as present and handled and changes nothing.
\<close>

theorem mem_handled_is_final:
  assumes "mem_inv X q" and "k \<in> mq_handled q" and "(mem_step X)\<^sup>*\<^sup>* q q'"
  shows "(mem_live q' \<longrightarrow> mem_fetch_next now q' = (Inr (Some l), q'') \<longrightarrow> req_unique_key (lease_request l) \<noteq> k)
    \<and> (req_unique_key r = k \<longrightarrow> (\<exists>info. mem_add X r opts q' = (Inr info, q')
         \<and> pr_was_already_present info \<and> pr_was_already_handled info))"
proof -
  have run: "(mem.client_step X)\<^sup>*\<^sup>* q q'" and inv: "mem_inv X q'"
    using mem_run_client [OF assms(3,1)] by simp_all
  have h: "mem_status q k = Some Handled" using assms(2) by simp
  then have h': "mem_status q' k = Some Handled" using mem.client_run_keeps [OF run assms(1)] by blast
  have "mem_add X r opts q' = (Inr \<lparr>pr_request_id = i, pr_unique_key = k, pr_was_already_present = True,
     pr_was_already_handled = True\<rparr>, q')" if "req_unique_key r = k" "map_of (mq_dedup q') k = Some i" for i
    using that h' by (simp add: mem_add_def mem_add_locked_def mem_status_handled_iff)
  moreover have "map_of (mq_dedup q') k \<noteq> None" using h' mem_status_none [OF inv, of k] by simp
  moreover have "req_unique_key (lease_request l) \<noteq> k"
    if "mem_live q'" "mem_fetch_next now q' = (Inr (Some l), q'')"
    using mem.handled_never_fetched [OF run assms(1) that(1) h, of now l q''] that(2)
    by (simp add: memory_ops_def)
  ultimately show ?thesis by auto
qed

definition sample_leased :: "(string, string) memory_queue" where
  "sample_leased = snd (mem_fetch_next 0 sample_queue)"

definition sample_lease :: "(string, string) lease" where
  "sample_lease = \<lparr>lease_request = sample_request ''https://a/1'' ''k1'', lease_id = 0,
     lease_expires_at = LEASE_TTL\<rparr>"

definition sample_handled :: "(string, string) memory_queue" where
  "sample_handled = snd (mem_mark_handled sample_lease sample_leased)"

lemmas sample_queue_eval = sample_queue_def sample_leased_def sample_lease_def sample_handled_def
  mem_with_policy_def mem_add_def mem_add_locked_def mem_fetch_next_def mem_mark_handled_def
  remove_lease_def mem_push_def drr_push_back_def drr_default_def drr_pop_front_def
  sample_request_def Let_def

lemma sample_queue_inv: "mem_inv sample_externals sample_queue"
  using mem_step_inv [OF sample_queue_step] by simp

lemma sample_fetch: "mem_fetch_next 0 sample_queue = (Inr (Some sample_lease), sample_leased)"
  by (simp add: sample_queue_eval)

lemma sample_leased_inv: "mem_inv sample_externals sample_leased" "mem_owned sample_externals sample_lease sample_leased"
proof -
  have "mem_live sample_queue" by (simp add: mem_live_def sample_queue_eval)
  with mem.fetch_some [OF sample_queue_inv, of 0 sample_lease sample_leased] sample_fetch
  show "mem_inv sample_externals sample_leased" "mem_owned sample_externals sample_lease sample_leased"
    by (simp_all add: memory_ops_def)
qed

lemma sample_mark: "mem_mark_handled sample_lease sample_leased = (Inr (), sample_handled)"
  by (simp add: sample_queue_eval)

lemma sample_handled_inv: "mem_inv sample_externals sample_handled" "''k1'' \<in> mq_handled sample_handled"
  using mem.handled_ok [OF sample_leased_inv, of sample_handled] sample_mark
  by (simp_all add: memory_ops_def) (simp add: sample_queue_eval)

theorem mem_handled_is_final_witness:
  "mem_inv sample_externals sample_handled \<and> ''k1'' \<in> mq_handled sample_handled
   \<and> (\<exists>info. mem_add sample_externals (sample_request ''https://a/1'' ''k1'') \<lparr>add_forefront = True\<rparr> sample_handled
          = (Inr info, sample_handled) \<and> pr_was_already_handled info)"
proof -
  have k: "req_unique_key (sample_request ''https://a/1'' ''k1'') = ''k1''" by (simp add: sample_request_def)
  show ?thesis
    using sample_handled_inv
      mem_handled_is_final [OF sample_handled_inv rtranclp.rtrancl_refl, of 0 sample_lease sample_handled
        "sample_request ''https://a/1'' ''k1''" "\<lparr>add_forefront = True\<rparr>"] k
    by blast
qed



text \<open>
  The three progress queries mean what the trait says: \<open>is_empty\<close> that no key is pending,
  \<open>is_finished\<close> that every known key is handled, and \<open>pending_count\<close> counts the pending keys.
\<close>

theorem mem_queries_correct:
  assumes "mem_inv X q"
  shows "(mem_is_empty q \<longleftrightarrow> Some Pending \<notin> range (mem_status q))
    \<and> (mem_is_finished q \<longleftrightarrow> range (mem_status q) \<subseteq> {None, Some Handled})
    \<and> mem_pending_count q = word_of_nat (size (pending_keys q))"
proof (intro conjI)
  have f: "frontier_inv X (mq_pending q)" using assms by (simp add: mem_inv_def)
  have e: "mem_is_empty q \<longleftrightarrow> pending_keys q = {#}"
    using fr.empty_contents [OF f] by (simp add: mem_is_empty_def pending_keys_def)
  have p: "Some Pending \<in> range (mem_status q) \<longleftrightarrow> pending_keys q \<noteq> {#}"
    using mem_status_pendingD [of q] mem_status_pending [OF assms]
    by (metis empty_not_add_mset multi_member_split multiset_nonemptyE rangeE rangeI)
  show "mem_is_empty q \<longleftrightarrow> Some Pending \<notin> range (mem_status q)" using e p by simp
  have l: "mq_in_flight q \<noteq> [] \<longleftrightarrow> (\<exists>i. Some (Leased i) \<in> range (mem_status q))"
  proof
    assume "mq_in_flight q \<noteq> []"
    then obtain x where "x \<in> set (mq_in_flight q)" by (cases "mq_in_flight q") auto
    from mem_status_leased [OF assms this] show "\<exists>i. Some (Leased i) \<in> range (mem_status q)"
      by (metis rangeI)
  next
    assume "\<exists>i. Some (Leased i) \<in> range (mem_status q)"
    then show "mq_in_flight q \<noteq> []" by (auto simp: mem_status_def split: if_splits)
  qed
  have all: "x \<in> {None, Some Handled} \<longleftrightarrow> x \<noteq> Some Pending \<and> (\<forall>i. x \<noteq> Some (Leased i))" for x
    by (cases x; cases "the x") auto
  show "mem_is_finished q \<longleftrightarrow> range (mem_status q) \<subseteq> {None, Some Handled}"
    using e p l all by (simp add: mem_is_finished_def mem_is_empty_def subset_iff) blast
  show "mem_pending_count q = word_of_nat (size (pending_keys q))"
    using fr.len_contents [OF f] by (simp add: mem_pending_count_def pending_keys_def)
qed

theorem mem_queries_correct_witness:
  "mem_inv sample_externals sample_queue
   \<and> (mem_is_empty sample_queue \<longleftrightarrow> Some Pending \<notin> range (mem_status sample_queue))
   \<and> \<not> mem_is_empty sample_queue"
proof -
  have "\<not> mem_is_empty sample_queue"
    by (simp add: mem_is_empty_def drr_is_empty_def sample_queue_eval)
  then show ?thesis using sample_queue_inv mem_queries_correct [OF sample_queue_inv] by blast
qed

end
