(* ===== verification/Fs_Queue.thy ===== *)
theory Fs_Queue
  imports Memory_Queue
begin

text \<open>
  The durable file-system queue (\<open>millipede-storage-fs/src/queue.rs\<close>). The in-memory index and
  the request files are both part of the state: \<open>fq_disk\<close> maps an identifier to the content of
  \<open>requests/<id>.json\<close>. The file system is a parameter: \<open>fs_env\<close> tells which file writes fail.
  A failed write leaves the file as it was (the code writes a temporary file and renames it).
  The queue interprets the same contract as the in-memory queue, and \<open>scan_queue\<close> rebuilds its
  state from the files.
\<close>

section \<open>State\<close>

definition i64_max :: int where
  "i64_max = 2 ^ 63 - 1"

definition i64_min :: int where
  "i64_min = - (2 ^ 63)"

record ('u, 'j) stored_request =
  sr_request :: "('u, 'j) request"
  sr_order_no :: "int option"

record ('u, 'j) request_envelope =
  env_id :: string
  env_url :: string
  env_unique_key :: string
  env_method :: string
  env_retry_count :: u32
  env_order_no :: "int option"
  env_json :: "('u, 'j) request"

record queue_cache =
  qc_version :: u8
  qc_handled_request_count :: u64
  qc_pending_request_count :: u64
  qc_next_order :: int
  qc_next_forefront_order :: int

record ('u, 'j) fs_queue =
  fq_pending :: "(int \<times> request_id) list"
  fq_dedup :: "(string \<times> request_id \<times> bool) list"
  fq_leases :: "(u64 \<times> request_id \<times> instant) list"
  fq_requests :: "(request_id \<times> ('u, 'j) stored_request) list"
  fq_handled_count :: u64
  fq_next_order :: int
  fq_next_forefront_order :: int
  fq_next_lease_id :: u64
  fq_disk :: "(request_id \<times> ('u, 'j) request_envelope) list"
  fq_cache :: "queue_cache option"

text \<open>
  The outcome of each kind of write: \<open>fe_write\<close> for the file of a request (\<open>Some e\<close>: it fails
  with \<open>e\<close>), \<open>fe_cache\<close> for \<open>state.json\<close> (whether it succeeds).
\<close>

record fs_env =
  fe_write :: "request_id \<Rightarrow> int option \<Rightarrow> storage_error option"
  fe_cache :: bool

definition fs_empty :: "('u, 'j) fs_queue" where
  "fs_empty = \<lparr>fq_pending = [], fq_dedup = [], fq_leases = [], fq_requests = [],
     fq_handled_count = 0, fq_next_order = 1, fq_next_forefront_order = -1,
     fq_next_lease_id = 0, fq_disk = [], fq_cache = None\<rparr>"

text \<open>\<open>reset\<close> replaces the in-memory state only; the files are removed by the client's \<open>purge\<close>.\<close>

definition fs_reset :: "('u, 'j) fs_queue \<Rightarrow> ('u, 'j) fs_queue" where
  "fs_reset q = fs_empty\<lparr>fq_disk := fq_disk q, fq_cache := fq_cache q\<rparr>"

section \<open>Helpers\<close>

definition take_order :: "bool \<Rightarrow> ('u, 'j) fs_queue \<Rightarrow> storage_error + (int \<times> ('u, 'j) fs_queue)" where
  "take_order forefront q =
     (if forefront then
        let order_no = fq_next_forefront_order q in
        if order_no - 1 < i64_min
        then Inl (Backend (anyhow_msg ''request queue forefront order exhausted''))
        else Inr (order_no, q\<lparr>fq_next_forefront_order := order_no - 1\<rparr>)
      else
        let order_no = fq_next_order q in
        if i64_max < order_no + 1
        then Inl (Backend (anyhow_msg ''request queue order exhausted''))
        else Inr (order_no, q\<lparr>fq_next_order := order_no + 1\<rparr>))"

definition envelope_of ::
  "('u, 'j) externals \<Rightarrow> ('u, 'j) request \<Rightarrow> int option \<Rightarrow> ('u, 'j) request_envelope" where
  "envelope_of X r order_no = \<lparr>env_id = as_str (req_id r), env_url = url_string X (req_url r),
     env_unique_key = req_unique_key r, env_method = req_method r,
     env_retry_count = req_retry_count r, env_order_no = order_no, env_json = r\<rparr>"

definition write_request ::
  "('u, 'j) externals \<Rightarrow> fs_env \<Rightarrow> ('u, 'j) request \<Rightarrow> int option \<Rightarrow> ('u, 'j) fs_queue
     \<Rightarrow> storage_error + ('u, 'j) fs_queue" where
  "write_request X E r order_no q =
     (case fe_write E (req_id r) order_no of
        Some e \<Rightarrow> Inl e
      | None \<Rightarrow> Inr (q\<lparr>fq_disk := AList.update (req_id r) (envelope_of X r order_no) (fq_disk q)\<rparr>))"

definition cache_of :: "('u, 'j) fs_queue \<Rightarrow> queue_cache" where
  "cache_of q = \<lparr>qc_version = 1, qc_handled_request_count = fq_handled_count q,
     qc_pending_request_count =
       word_of_nat (length (filter (\<lambda>p. sr_order_no (snd p) \<noteq> None) (fq_requests q))),
     qc_next_order = fq_next_order q, qc_next_forefront_order = fq_next_forefront_order q\<rparr>"

definition write_cache_best_effort :: "fs_env \<Rightarrow> ('u, 'j) fs_queue \<Rightarrow> ('u, 'j) fs_queue" where
  "write_cache_best_effort E q = (if fe_cache E then q\<lparr>fq_cache := Some (cache_of q)\<rparr> else q)"

definition lease_request_id :: "('u, 'j) fs_queue \<Rightarrow> u64 \<Rightarrow> storage_error + request_id" where
  "lease_request_id q i =
     (case map_of (fq_leases q) i of
        Some (request_id, _) \<Rightarrow> Inr request_id
      | None \<Rightarrow> Inl (LeaseNotFound i))"

definition validate_unique_key ::
  "('u, 'j) fs_queue \<Rightarrow> request_id \<Rightarrow> ('u, 'j) request \<Rightarrow> storage_error option" where
  "validate_unique_key q request_id r =
     (case map_of (fq_dedup q) (req_unique_key r) of
        Some (known_id, _) \<Rightarrow>
          if known_id \<noteq> request_id
          then Some (Backend (anyhow_msg ''request lease changed unique_key to an existing queue key''))
          else None
      | None \<Rightarrow> None)"

definition replace_stored_request ::
  "request_id \<Rightarrow> ('u, 'j) request \<Rightarrow> int option \<Rightarrow> bool \<Rightarrow> ('u, 'j) fs_queue \<Rightarrow> ('u, 'j) fs_queue" where
  "replace_stored_request request_id r order_no handled q =
     (let dedup =
        (case map_of (fq_requests q) request_id of
           Some previous \<Rightarrow>
             if req_unique_key (sr_request previous) \<noteq> req_unique_key r
             then AList.delete (req_unique_key (sr_request previous)) (fq_dedup q)
             else fq_dedup q
         | None \<Rightarrow> fq_dedup q)
      in q\<lparr>fq_dedup := AList.update (req_unique_key r) (request_id, handled) dedup,
           fq_requests := AList.update request_id
             \<lparr>sr_request = r, sr_order_no = order_no\<rparr> (fq_requests q)\<rparr>)"

text \<open>Putting one expired lease back, the body of the loop of \<open>reclaim_expired\<close> and of \<open>renew\<close>.\<close>

definition release_lease :: "u64 \<Rightarrow> ('u, 'j) fs_queue \<Rightarrow> ('u, 'j) fs_queue" where
  "release_lease i q =
     (case map_of (fq_leases q) i of
        None \<Rightarrow> q
      | Some (request_id, _) \<Rightarrow>
          let q1 = q\<lparr>fq_leases := AList.delete i (fq_leases q)\<rparr> in
          (case Option.bind (map_of (fq_requests q) request_id) sr_order_no of
             Some order_no \<Rightarrow> q1\<lparr>fq_pending := AList.update order_no request_id (fq_pending q)\<rparr>
           | None \<Rightarrow> q1))"

definition reclaim_expired :: "instant \<Rightarrow> ('u, 'j) fs_queue \<Rightarrow> ('u, 'j) fs_queue" where
  "reclaim_expired now q =
     fold release_lease (map fst (filter (\<lambda>p. snd (snd p) \<le> now) (fq_leases q))) q"

text \<open>\<open>BTreeMap::pop_first\<close>.\<close>

definition btree_pop_first :: "(int \<times> 'v) list \<Rightarrow> (int \<times> 'v \<times> (int \<times> 'v) list) option" where
  "btree_pop_first m =
     (if m = [] then None
      else let k = Min (fst ` set m) in
        map_option (\<lambda>v. (k, v, AList.delete k m)) (map_of m k))"

section \<open>Operations\<close>

definition fs_add_locked ::
  "('u, 'j) externals \<Rightarrow> fs_env \<Rightarrow> ('u, 'j) request \<Rightarrow> add_options \<Rightarrow> ('u, 'j) fs_queue
     \<Rightarrow> (storage_error + processed_request) \<times> ('u, 'j) fs_queue" where
  "fs_add_locked X E r opts q =
     (let unique_key = req_unique_key r in
      case map_of (fq_dedup q) unique_key of
        Some (request_id, handled) \<Rightarrow>
          (Inr \<lparr>pr_request_id = request_id, pr_unique_key = unique_key,
             pr_was_already_present = True, pr_was_already_handled = handled\<rparr>, q)
      | None \<Rightarrow>
     (case take_order (add_forefront opts) q of
        Inl e \<Rightarrow> (Inl e, q)
      | Inr (order_no, q1) \<Rightarrow>
     (case write_request X E r (Some order_no) q1 of
        Inl e \<Rightarrow> (Inl e, q1)
      | Inr q2 \<Rightarrow>
        let q3 = q2\<lparr>fq_pending := AList.update order_no (req_id r) (fq_pending q2),
              fq_dedup := AList.update unique_key (req_id r, False) (fq_dedup q2),
              fq_requests := AList.update (req_id r)
                \<lparr>sr_request = r, sr_order_no = Some order_no\<rparr> (fq_requests q2)\<rparr>
        in (Inr \<lparr>pr_request_id = req_id r, pr_unique_key = unique_key,
              pr_was_already_present = False, pr_was_already_handled = False\<rparr>,
            write_cache_best_effort E q3))))"

fun fs_add_all ::
  "('u, 'j) externals \<Rightarrow> fs_env \<Rightarrow> ('u, 'j) request_source list \<Rightarrow> add_options \<Rightarrow> ('u, 'j) fs_queue
     \<Rightarrow> (storage_error + processed_request list) \<times> ('u, 'j) fs_queue" where
  "fs_add_all X E [] opts q = (Inr [], q)"
| "fs_add_all X E (SourceRequest r # rs) opts q =
     (case fs_add_locked X E r opts q of
        (Inl e, q1) \<Rightarrow> (Inl e, q1)
      | (Inr info, q1) \<Rightarrow>
          (case fs_add_all X E rs opts q1 of
             (Inl e, q2) \<Rightarrow> (Inl e, q2)
           | (Inr infos, q2) \<Rightarrow> (Inr (info # infos), q2)))"

definition fs_add_batch ::
  "('u, 'j) externals \<Rightarrow> fs_env \<Rightarrow> ('u, 'j) request_source list \<Rightarrow> add_options \<Rightarrow> ('u, 'j) fs_queue
     \<Rightarrow> (storage_error + batch_add_handle) \<times> ('u, 'j) fs_queue" where
  "fs_add_batch X E rs opts q =
     (case fs_add_all X E rs opts q of
        (Inl e, q') \<Rightarrow> (Inl e, q')
      | (Inr infos, q') \<Rightarrow> (Inr (batch_ready infos), q'))"

definition fs_fetch_next ::
  "instant \<Rightarrow> ('u, 'j) fs_queue \<Rightarrow> (storage_error + ('u, 'j) lease option) \<times> ('u, 'j) fs_queue" where
  "fs_fetch_next now q0 =
     (let q = reclaim_expired now q0 in
      case btree_pop_first (fq_pending q) of
        None \<Rightarrow> (Inr None, q)
      | Some (_, request_id, rest) \<Rightarrow>
          let q1 = q\<lparr>fq_pending := rest\<rparr> in
          (case map_of (fq_requests q1) request_id of
             None \<Rightarrow> (Inl (Panicked ''pending request has a stored request''), q1)
           | Some stored \<Rightarrow>
               let raw_lease_id = fq_next_lease_id q1 in
               if raw_lease_id = - 1
               then (Inl (Backend (anyhow_msg ''request queue lease identifiers exhausted'')), q1)
               else
                 let expires_at = now + LEASE_TTL in
                 (Inr (Some \<lparr>lease_request = sr_request stored, lease_id = raw_lease_id,
                    lease_expires_at = expires_at\<rparr>),
                  q1\<lparr>fq_next_lease_id := raw_lease_id + 1,
                    fq_leases := AList.update raw_lease_id (request_id, expires_at) (fq_leases q1)\<rparr>)))"

definition fs_mark_handled ::
  "('u, 'j) externals \<Rightarrow> fs_env \<Rightarrow> ('u, 'j) lease \<Rightarrow> ('u, 'j) fs_queue
     \<Rightarrow> (storage_error + unit) \<times> ('u, 'j) fs_queue" where
  "fs_mark_handled X E l q =
     (case lease_request_id q (lease_id l) of
        Inl e \<Rightarrow> (Inl e, q)
      | Inr request_id \<Rightarrow>
     (case validate_unique_key q request_id (lease_request l) of
        Some e \<Rightarrow> (Inl e, q)
      | None \<Rightarrow>
     (case write_request X E (lease_request l) None q of
        Inl e \<Rightarrow> (Inl e, q)
      | Inr q1 \<Rightarrow>
        let q2 = q1\<lparr>fq_leases := AList.delete (lease_id l) (fq_leases q1),
              fq_handled_count := sat_add (fq_handled_count q1) 1\<rparr>;
            q3 = replace_stored_request request_id (lease_request l) None True q2
        in (Inr (), write_cache_best_effort E q3))))"

definition fs_requeue ::
  "('u, 'j) externals \<Rightarrow> fs_env \<Rightarrow> ('u, 'j) lease \<Rightarrow> bool \<Rightarrow> bool \<Rightarrow> ('u, 'j) fs_queue
     \<Rightarrow> (storage_error + unit) \<times> ('u, 'j) fs_queue" where
  "fs_requeue X E l forefront increment_retry q =
     (case lease_request_id q (lease_id l) of
        Inl e \<Rightarrow> (Inl e, q)
      | Inr request_id \<Rightarrow>
     (case validate_unique_key q request_id (lease_request l) of
        Some e \<Rightarrow> (Inl e, q)
      | None \<Rightarrow>
        let request = (if increment_retry
              then (lease_request l)\<lparr>req_retry_count := req_retry_count (lease_request l) + 1\<rparr>
              else lease_request l) in
     (case take_order forefront q of
        Inl e \<Rightarrow> (Inl e, q)
      | Inr (order_no, q1) \<Rightarrow>
     (case write_request X E request (Some order_no) q1 of
        Inl e \<Rightarrow> (Inl e, q1)
      | Inr q2 \<Rightarrow>
        let q3 = q2\<lparr>fq_leases := AList.delete (lease_id l) (fq_leases q2),
              fq_pending := AList.update order_no request_id (fq_pending q2)\<rparr>;
            q4 = replace_stored_request request_id request (Some order_no) False q3
        in (Inr (), write_cache_best_effort E q4)))))"

definition fs_reclaim ::
  "('u, 'j) externals \<Rightarrow> fs_env \<Rightarrow> ('u, 'j) lease \<Rightarrow> reclaim_options \<Rightarrow> ('u, 'j) fs_queue
     \<Rightarrow> (storage_error + unit) \<times> ('u, 'j) fs_queue" where
  "fs_reclaim X E l opts q = fs_requeue X E l (rc_forefront opts) (rc_increment_retry opts) q"

definition fs_abandon ::
  "('u, 'j) externals \<Rightarrow> fs_env \<Rightarrow> ('u, 'j) lease \<Rightarrow> ('u, 'j) fs_queue
     \<Rightarrow> (storage_error + unit) \<times> ('u, 'j) fs_queue" where
  "fs_abandon X E l q = fs_requeue X E l True False q"

definition fs_renew ::
  "instant \<Rightarrow> u64 \<Rightarrow> duration \<Rightarrow> ('u, 'j) fs_queue \<Rightarrow> (storage_error + unit) \<times> ('u, 'j) fs_queue" where
  "fs_renew now i extend_by q =
     (case map_of (fq_leases q) i of
        None \<Rightarrow> (Inl (LeaseNotFound i), q)
      | Some (request_id, expires_at) \<Rightarrow>
          if expires_at \<le> now then (Inl (LeaseNotFound i), release_lease i q)
          else (Inr (), q\<lparr>fq_leases := AList.update i (request_id, expires_at + extend_by) (fq_leases q)\<rparr>))"

definition fs_is_empty :: "('u, 'j) fs_queue \<Rightarrow> bool" where
  "fs_is_empty q = (fq_pending q = [])"

definition fs_is_finished :: "('u, 'j) fs_queue \<Rightarrow> bool" where
  "fs_is_finished q = (fq_pending q = [] \<and> fq_leases q = [])"

definition fs_handled_count :: "('u, 'j) fs_queue \<Rightarrow> u64" where
  "fs_handled_count q = fq_handled_count q"

definition fs_pending_count :: "('u, 'j) fs_queue \<Rightarrow> u64" where
  "fs_pending_count q = word_of_nat (length (fq_pending q))"

definition fs_ops :: "('u, 'j) externals \<Rightarrow> fs_env \<Rightarrow> (('u, 'j) fs_queue, 'u, 'j) queue_ops" where
  "fs_ops X E = \<lparr>q_add = fs_add_locked X E, q_fetch_next = fs_fetch_next,
     q_mark_handled = fs_mark_handled X E, q_reclaim = fs_reclaim X E,
     q_renew = fs_renew, q_abandon = fs_abandon X E, q_is_empty = fs_is_empty,
     q_is_finished = fs_is_finished, q_handled_count = fs_handled_count,
     q_pending_count = fs_pending_count\<rparr>"

section \<open>Rebuilding the state from the files\<close>

text \<open>
  A request file decodes to a request, its order number and whether the file is a bare request
  without an envelope; \<open>None\<close> is a file that cannot be decoded, which the scan skips. The files
  come sorted by path.
\<close>

type_synonym ('u, 'j) decoded = "('u, 'j) request \<times> int option \<times> bool"

definition max_normal :: "('u, 'j) decoded list \<Rightarrow> int" where
  "max_normal ds = foldr max [n. (_, Some n, _) \<leftarrow> ds, n > 0] 0"

definition min_forefront :: "('u, 'j) decoded list \<Rightarrow> int" where
  "min_forefront ds = foldr min [n. (_, Some n, _) \<leftarrow> ds, n < 0] 0"

definition scan_init :: "('u, 'j) decoded list \<Rightarrow> ('u, 'j) fs_queue" where
  "scan_init ds = fs_empty\<lparr>fq_next_order := min i64_max (max_normal ds + 1),
     fq_next_forefront_order :=
       (if min_forefront ds < 0 then max i64_min (min_forefront ds - 1) else -1)\<rparr>"

definition scan_one :: "('u, 'j) decoded \<Rightarrow> ('u, 'j) fs_queue \<Rightarrow> storage_error + ('u, 'j) fs_queue" where
  "scan_one d q =
     (case d of (r, disk_order_no, bare) \<Rightarrow>
      case (if bare then map_sum id (\<lambda>(n, q1). (Some n, q1)) (take_order False q)
            else (case disk_order_no of
              Some n \<Rightarrow> if map_of (fq_pending q) n \<noteq> None
                        then map_sum id (\<lambda>(n, q1). (Some n, q1)) (take_order False q)
                        else Inr (Some n, q)
            | None \<Rightarrow> Inr (None, q))) of
        Inl e \<Rightarrow> Inl e
      | Inr (order_no, q1) \<Rightarrow>
          let q2 = (case order_no of
                Some n \<Rightarrow> q1\<lparr>fq_pending := AList.update n (req_id r) (fq_pending q1)\<rparr>
              | None \<Rightarrow> q1\<lparr>fq_handled_count := sat_add (fq_handled_count q1) 1\<rparr>)
          in Inr (q2\<lparr>fq_dedup := AList.update (req_unique_key r) (req_id r, order_no = None) (fq_dedup q2),
                fq_requests := AList.update (req_id r)
                  \<lparr>sr_request = r, sr_order_no = order_no\<rparr> (fq_requests q2)\<rparr>))"

definition scan_queue :: "('u, 'j) decoded option list \<Rightarrow> storage_error + ('u, 'j) fs_queue" where
  "scan_queue files =
     (let ds = List.map_filter id files in fold_result scan_one ds (scan_init ds))"

end
