(* ===== verification/Fs_Invariant.thy ===== *)
theory Fs_Invariant
  imports Fs_Queue
begin

text \<open>
  The invariant of the file-system queue, its abstraction to key statuses, and the proof that
  it implements the contract \<open>request_queue\<close>. The invariant ties the five indexes and the files
  together: the deduplication index and the stored requests are inverse to each other, a stored
  request with an order number is either pending under that number or leased once, order numbers
  are unique and inside the allocated range, and the file of a request is the envelope of what
  the index stores.
\<close>

lemmas alist_conv = AList.update_conv' AList.delete_conv'

section \<open>Invariant and abstraction\<close>

definition fs_keys :: "('u, 'j) fs_queue \<Rightarrow> bool" where
  "fs_keys q \<longleftrightarrow> distinct (map fst (fq_pending q)) \<and> distinct (map fst (fq_dedup q))
     \<and> distinct (map fst (fq_leases q)) \<and> distinct (map fst (fq_requests q))
     \<and> distinct (map fst (fq_disk q)) \<and> fq_next_forefront_order q < fq_next_order q
     \<and> i64_min \<le> fq_next_forefront_order q \<and> fq_next_order q \<le> i64_max"

definition fs_index :: "('u, 'j) fs_queue \<Rightarrow> bool" where
  "fs_index q \<longleftrightarrow>
     (\<forall>i sr. map_of (fq_requests q) i = Some sr \<longrightarrow> req_id (sr_request sr) = i
        \<and> map_of (fq_dedup q) (req_unique_key (sr_request sr)) = Some (i, sr_order_no sr = None))
     \<and> (\<forall>k i h. map_of (fq_dedup q) k = Some (i, h) \<longrightarrow>
          (\<exists>sr. map_of (fq_requests q) i = Some sr \<and> req_unique_key (sr_request sr) = k))"

definition fs_places :: "('u, 'j) fs_queue \<Rightarrow> bool" where
  "fs_places q \<longleftrightarrow>
     (\<forall>n i. map_of (fq_pending q) n = Some i \<longrightarrow>
        (\<exists>sr. map_of (fq_requests q) i = Some sr \<and> sr_order_no sr = Some n))
     \<and> (\<forall>l i t. map_of (fq_leases q) l = Some (i, t) \<longrightarrow> l < fq_next_lease_id q
        \<and> (\<exists>sr n. map_of (fq_requests q) i = Some sr \<and> sr_order_no sr = Some n
             \<and> map_of (fq_pending q) n = None))
     \<and> (\<forall>l l' i t t'. map_of (fq_leases q) l = Some (i, t) \<longrightarrow> map_of (fq_leases q) l' = Some (i, t')
          \<longrightarrow> l = l')"

definition fs_orders :: "('u, 'j) fs_queue \<Rightarrow> bool" where
  "fs_orders q \<longleftrightarrow>
     (\<forall>i sr n. map_of (fq_requests q) i = Some sr \<longrightarrow> sr_order_no sr = Some n \<longrightarrow>
        fq_next_forefront_order q < n \<and> n < fq_next_order q
        \<and> (map_of (fq_pending q) n = Some i \<or> (\<exists>l t. map_of (fq_leases q) l = Some (i, t))))
     \<and> (\<forall>i i' sr sr' n. map_of (fq_requests q) i = Some sr \<longrightarrow> map_of (fq_requests q) i' = Some sr'
          \<longrightarrow> sr_order_no sr = Some n \<longrightarrow> sr_order_no sr' = Some n \<longrightarrow> i = i')"

definition handled_ids :: "('u, 'j) fs_queue \<Rightarrow> request_id set" where
  "handled_ids q = {i. \<exists>sr. map_of (fq_requests q) i = Some sr \<and> sr_order_no sr = None}"

definition fs_count :: "('u, 'j) fs_queue \<Rightarrow> bool" where
  "fs_count q \<longleftrightarrow> unat (fq_handled_count q) = min (2 ^ 64 - 1) (card (handled_ids q))"

definition fs_files :: "('u, 'j) externals \<Rightarrow> ('u, 'j) fs_queue \<Rightarrow> bool" where
  "fs_files X q \<longleftrightarrow> (\<forall>i. map_of (fq_disk q) i =
     map_option (\<lambda>sr. envelope_of X (sr_request sr) (sr_order_no sr)) (map_of (fq_requests q) i))"

definition fs_inv :: "('u, 'j) externals \<Rightarrow> ('u, 'j) fs_queue \<Rightarrow> bool" where
  "fs_inv X q \<longleftrightarrow> fs_keys q \<and> fs_index q \<and> fs_places q \<and> fs_orders q \<and> fs_count q \<and> fs_files X q"

definition lease_for :: "('u, 'j) fs_queue \<Rightarrow> request_id \<Rightarrow> u64 option" where
  "lease_for q i = map_option fst (find (\<lambda>p. fst (snd p) = i) (fq_leases q))"

definition fs_status :: "('u, 'j) fs_queue \<Rightarrow> queue_spec" where
  "fs_status q k =
     (case map_of (fq_dedup q) k of
        None \<Rightarrow> None
      | Some (i, handled) \<Rightarrow>
          if handled then Some Handled
          else (case lease_for q i of Some l \<Rightarrow> Some (Leased l) | None \<Rightarrow> Some Pending))"

text \<open>A new request must not carry the identifier of another stored request.\<close>

definition fs_admissible :: "('u, 'j) request \<Rightarrow> ('u, 'j) fs_queue \<Rightarrow> bool" where
  "fs_admissible r q \<longleftrightarrow>
     map_of (fq_dedup q) (req_unique_key r) = None \<longrightarrow> map_of (fq_requests q) (req_id r) = None"

definition fs_owned :: "('u, 'j) externals \<Rightarrow> ('u, 'j) lease \<Rightarrow> ('u, 'j) fs_queue \<Rightarrow> bool" where
  "fs_owned X l q \<longleftrightarrow> fs_inv X q \<and>
     (\<exists>t sr. map_of (fq_leases q) (lease_id l) = Some (req_id (lease_request l), t)
        \<and> map_of (fq_requests q) (req_id (lease_request l)) = Some sr
        \<and> req_unique_key (sr_request sr) = req_unique_key (lease_request l))"

lemma fs_inv_empty [simp]: "fs_inv X fs_empty"
  by (simp add: fs_inv_def fs_empty_def fs_keys_def i64_min_def i64_max_def fs_index_def fs_places_def fs_orders_def
      fs_count_def handled_ids_def fs_files_def)

lemma fs_inv_cache [simp]: "fs_inv X (q\<lparr>fq_cache := c\<rparr>) = fs_inv X q"
  by (simp add: fs_inv_def fs_keys_def fs_index_def fs_places_def fs_orders_def
      fs_count_def handled_ids_def fs_files_def)

lemma lease_for_cache [simp]: "lease_for (q\<lparr>fq_cache := c\<rparr>) = lease_for q"
  by (simp add: lease_for_def fun_eq_iff)

lemma fs_status_cache [simp]: "fs_status (q\<lparr>fq_cache := c\<rparr>) = fs_status q"
  by (auto simp: fs_status_def fun_eq_iff split: option.splits)

lemma write_cache_inv [simp]: "fs_inv X (write_cache_best_effort E q) = fs_inv X q"
  and write_cache_status [simp]: "fs_status (write_cache_best_effort E q) = fs_status q"
  by (simp_all add: write_cache_best_effort_def)

lemma lease_for_Some:
  assumes "fs_keys q" and "fs_places q"
  shows "lease_for q i = Some l \<longleftrightarrow> (\<exists>t. map_of (fq_leases q) l = Some (i, t))"
proof
  assume "lease_for q i = Some l"
  then obtain p where p: "find (\<lambda>p. fst (snd p) = i) (fq_leases q) = Some p" "fst p = l"
    by (auto simp: lease_for_def)
  then have "p \<in> set (fq_leases q)" "fst (snd p) = i"
    unfolding find_Some_iff by (auto simp: in_set_conv_nth)
  then have "(l, i, snd (snd p)) \<in> set (fq_leases q)" using p(2) by (cases p) auto
  then show "\<exists>t. map_of (fq_leases q) l = Some (i, t)"
    using assms(1) by (auto simp: fs_keys_def)
next
  assume "\<exists>t. map_of (fq_leases q) l = Some (i, t)"
  then obtain t where t: "map_of (fq_leases q) l = Some (i, t)" by blast
  then have m: "(l, i, t) \<in> set (fq_leases q)" by (rule map_of_SomeD)
  show "lease_for q i = Some l"
  proof (cases "find (\<lambda>p. fst (snd p) = i) (fq_leases q)")
    case None
    with m show ?thesis unfolding find_None_iff by force
  next
    case (Some p)
    then have "p \<in> set (fq_leases q)" "fst (snd p) = i"
      unfolding find_Some_iff by (auto simp: in_set_conv_nth)
    then have "map_of (fq_leases q) (fst p) = Some (i, snd (snd p))"
      using assms(1) by (cases p) (auto simp: fs_keys_def)
    with t assms(2) have "fst p = l" unfolding fs_places_def by blast
    with Some show ?thesis by (simp add: lease_for_def)
  qed
qed

lemma lease_for_None:
  assumes "fs_keys q" and "fs_places q"
  shows "lease_for q i = None \<longleftrightarrow> (\<forall>l t. map_of (fq_leases q) l \<noteq> Some (i, t))"
  using lease_for_Some [OF assms, of i] by (metis not_None_eq)

lemma finite_handled_ids [simp]: "finite (handled_ids q)"
proof -
  have "handled_ids q \<subseteq> dom (map_of (fq_requests q))" by (auto simp: handled_ids_def)
  then show ?thesis by (rule finite_subset) (rule finite_dom_map_of)
qed

text \<open>The status is determined by the three maps; the statuses of a key, given the invariant.\<close>

lemma fs_status_dedup:
  "fs_inv X q \<Longrightarrow> fs_status q k = None \<longleftrightarrow> map_of (fq_dedup q) k = None"
  by (auto simp: fs_status_def split: option.splits if_splits)

lemma fs_stored:
  assumes "fs_inv X q" and "map_of (fq_requests q) i = Some sr"
  shows "req_id (sr_request sr) = i"
    and "map_of (fq_dedup q) (req_unique_key (sr_request sr)) = Some (i, sr_order_no sr = None)"
  using assms by (auto simp: fs_inv_def fs_index_def)

lemma fs_leased_stored:
  assumes "fs_inv X q" and "map_of (fq_leases q) l = Some (i, t)"
  shows "\<exists>sr n. map_of (fq_requests q) i = Some sr \<and> sr_order_no sr = Some n \<and> map_of (fq_pending q) n = None"
    and "l < fq_next_lease_id q"
  using assms unfolding fs_inv_def fs_places_def by blast+

lemma fs_status_stored:
  assumes "fs_inv X q" and "map_of (fq_requests q) i = Some sr"
  shows "fs_status q (req_unique_key (sr_request sr)) =
     (if sr_order_no sr = None then Some Handled
      else case lease_for q i of Some l \<Rightarrow> Some (Leased l) | None \<Rightarrow> Some Pending)"
  using fs_stored [OF assms] by (auto simp: fs_status_def)

lemma fs_owned_status:
  assumes "fs_owned X l q"
  shows "fs_status q (req_unique_key (lease_request l)) = Some (Leased (lease_id l))"
proof -
  from assms obtain t sr where inv: "fs_inv X q"
    and t: "map_of (fq_leases q) (lease_id l) = Some (req_id (lease_request l), t)"
    and sr: "map_of (fq_requests q) (req_id (lease_request l)) = Some sr"
    and k: "req_unique_key (sr_request sr) = req_unique_key (lease_request l)"
    by (auto simp: fs_owned_def)
  have "lease_for q (req_id (lease_request l)) = Some (lease_id l)"
    using inv t by (subst lease_for_Some) (auto simp: fs_inv_def)
  moreover have "sr_order_no sr \<noteq> None" using fs_leased_stored(1) [OF inv t] sr by auto
  ultimately show ?thesis using fs_status_stored [OF inv sr] k by simp
qed

lemma fs_status_frame:
  assumes "fs_inv X q" and "fs_inv X q'" and "map_of (fq_dedup q') k = map_of (fq_dedup q) k"
    and "\<And>i h l. map_of (fq_dedup q) k = Some (i, h) \<Longrightarrow>
       (\<exists>t. map_of (fq_leases q') l = Some (i, t)) \<longleftrightarrow> (\<exists>t. map_of (fq_leases q) l = Some (i, t))"
  shows "fs_status q' k = fs_status q k"
proof (cases "map_of (fq_dedup q) k")
  case None
  then show ?thesis using assms(3) by (simp add: fs_status_def)
next
  case (Some p)
  obtain i h where p: "p = (i, h)" by (cases p)
  have "lease_for q' i = Some l \<longleftrightarrow> lease_for q i = Some l" for l
    using assms(1,2) assms(4) [of i h l] Some p by (simp add: lease_for_Some fs_inv_def)
  then have "lease_for q' i = lease_for q i" by (metis not_None_eq)
  then show ?thesis using assms(3) Some p by (simp add: fs_status_def)
qed

section \<open>Placing a request\<close>

text \<open>
  Adding, re-queueing, handling and releasing all store one request under its identifier, give
  it a place and drop the lease on it. The lemma says when this keeps the invariant and what it
  does to the statuses.
\<close>

definition fresh_order :: "request_id \<Rightarrow> int option \<Rightarrow> ('u, 'j) fs_queue \<Rightarrow> bool" where
  "fresh_order i ord q \<longleftrightarrow> (\<forall>n. ord = Some n \<longrightarrow> map_of (fq_pending q) n = None
     \<and> (\<forall>j sr. map_of (fq_requests q) j = Some sr \<longrightarrow> j \<noteq> i \<longrightarrow> sr_order_no sr \<noteq> Some n))"

definition placeable :: "('u, 'j) request \<Rightarrow> ('u, 'j) fs_queue \<Rightarrow> bool" where
  "placeable r q \<longleftrightarrow>
     map_of (fq_requests q) (req_id r) = None \<and> map_of (fq_dedup q) (req_unique_key r) = None
     \<or> (\<exists>sr l t. map_of (fq_requests q) (req_id r) = Some sr
          \<and> req_unique_key (sr_request sr) = req_unique_key r
          \<and> map_of (fq_leases q) l = Some (req_id r, t))"

definition placed ::
  "('u, 'j) externals \<Rightarrow> ('u, 'j) request \<Rightarrow> int option \<Rightarrow> ('u, 'j) fs_queue \<Rightarrow> ('u, 'j) fs_queue \<Rightarrow> bool" where
  "placed X r ord q q' \<longleftrightarrow>
     map_of (fq_pending q') = (case ord of Some n \<Rightarrow> (map_of (fq_pending q))(n \<mapsto> req_id r)
        | None \<Rightarrow> map_of (fq_pending q))
     \<and> map_of (fq_dedup q') = (map_of (fq_dedup q))(req_unique_key r \<mapsto> (req_id r, ord = None))
     \<and> (\<forall>l p. map_of (fq_leases q') l = Some p \<longleftrightarrow> map_of (fq_leases q) l = Some p \<and> fst p \<noteq> req_id r)
     \<and> map_of (fq_requests q') = (map_of (fq_requests q))(req_id r \<mapsto> \<lparr>sr_request = r, sr_order_no = ord\<rparr>)
     \<and> map_of (fq_disk q') = (map_of (fq_disk q))(req_id r \<mapsto> envelope_of X r ord)
     \<and> fq_next_lease_id q' = fq_next_lease_id q
     \<and> fq_next_forefront_order q' \<le> fq_next_forefront_order q
     \<and> fq_next_order q \<le> fq_next_order q'
     \<and> (\<forall>n. ord = Some n \<longrightarrow> fq_next_forefront_order q' < n \<and> n < fq_next_order q')"

lemma placeable_others:
  assumes inv: "fs_inv X q" and P: "placeable r q"
  shows "map_of (fq_requests q) j = Some sr \<Longrightarrow> j \<noteq> req_id r \<Longrightarrow>
      req_unique_key (sr_request sr) \<noteq> req_unique_key r"
    and "map_of (fq_dedup q) k = Some (j, h) \<Longrightarrow> k \<noteq> req_unique_key r \<Longrightarrow> j \<noteq> req_id r"
    and "map_of (fq_pending q) m \<noteq> Some (req_id r)"
    and "req_id r \<notin> handled_ids q"
proof -
  show "req_unique_key (sr_request sr) \<noteq> req_unique_key r"
    if "map_of (fq_requests q) j = Some sr" "j \<noteq> req_id r"
    using fs_stored(2) [OF inv that(1)] that(2) P fs_stored(2) [OF inv]
    unfolding placeable_def by (metis option.distinct(1) option.inject prod.inject)
  show "j \<noteq> req_id r" if "map_of (fq_dedup q) k = Some (j, h)" "k \<noteq> req_unique_key r"
    using that inv P unfolding placeable_def fs_inv_def fs_index_def
    by (metis option.distinct(1) option.inject)
  have lz: "\<exists>sr n. map_of (fq_requests q) (req_id r) = Some sr \<and> sr_order_no sr = Some n
      \<and> map_of (fq_pending q) n = None" if "map_of (fq_requests q) (req_id r) \<noteq> None"
  proof -
    from that P obtain l t where "map_of (fq_leases q) l = Some (req_id r, t)"
      by (auto simp: placeable_def)
    then show ?thesis by (rule fs_leased_stored(1) [OF inv])
  qed
  show "map_of (fq_pending q) m \<noteq> Some (req_id r)"
  proof
    assume m: "map_of (fq_pending q) m = Some (req_id r)"
    then obtain sr where "map_of (fq_requests q) (req_id r) = Some sr" "sr_order_no sr = Some m"
      using inv unfolding fs_inv_def fs_places_def by blast
    with lz m show False by auto
  qed
  show "req_id r \<notin> handled_ids q" using lz by (force simp: handled_ids_def)
qed

definition placing ::
  "('u, 'j) externals \<Rightarrow> ('u, 'j) request \<Rightarrow> int option \<Rightarrow> ('u, 'j) fs_queue \<Rightarrow> ('u, 'j) fs_queue \<Rightarrow> bool" where
  "placing X r ord q q' \<longleftrightarrow> fs_inv X q \<and> placeable r q \<and> fresh_order (req_id r) ord q
     \<and> placed X r ord q q' \<and> fs_keys q'"

lemma placing_maps:
  assumes "placing X r ord q q'"
  shows "map_of (fq_pending q') = (case ord of Some n \<Rightarrow> (map_of (fq_pending q))(n \<mapsto> req_id r)
        | None \<Rightarrow> map_of (fq_pending q))"
    and "map_of (fq_dedup q') = (map_of (fq_dedup q))(req_unique_key r \<mapsto> (req_id r, ord = None))"
    and "map_of (fq_leases q') l = Some p \<longleftrightarrow> map_of (fq_leases q) l = Some p \<and> fst p \<noteq> req_id r"
    and "map_of (fq_requests q') = (map_of (fq_requests q))(req_id r \<mapsto> \<lparr>sr_request = r, sr_order_no = ord\<rparr>)"
    and "map_of (fq_disk q') = (map_of (fq_disk q))(req_id r \<mapsto> envelope_of X r ord)"
    and "fq_next_lease_id q' = fq_next_lease_id q"
  using assms unfolding placing_def placed_def by blast+

lemma placing_index:
  assumes A: "placing X r ord q q'"
  shows "fs_index q'"
proof -
  have inv: "fs_inv X q" and P: "placeable r q" using A by (simp_all add: placing_def)
  note m = placing_maps [OF A] and o = placeable_others [OF inv P]
  have "req_id (sr_request sr) = i
      \<and> map_of (fq_dedup q') (req_unique_key (sr_request sr)) = Some (i, sr_order_no sr = None)"
    if "map_of (fq_requests q') i = Some sr" for i sr
  proof (cases "i = req_id r")
    case True
    with that show ?thesis by (auto simp: m)
  next
    case False
    with that have s: "map_of (fq_requests q) i = Some sr" by (simp add: m)
    with fs_stored [OF inv s] o(1) [OF s False] show ?thesis by (simp add: m)
  qed
  moreover have "\<exists>sr. map_of (fq_requests q') i = Some sr \<and> req_unique_key (sr_request sr) = k"
    if "map_of (fq_dedup q') k = Some (i, h)" for k i h
  proof (cases "k = req_unique_key r")
    case True
    with that show ?thesis by (simp add: m)
  next
    case False
    with that have s: "map_of (fq_dedup q) k = Some (i, h)" by (simp add: m)
    with inv have "\<exists>sr. map_of (fq_requests q) i = Some sr \<and> req_unique_key (sr_request sr) = k"
      unfolding fs_inv_def fs_index_def by blast
    with o(2) [OF s False] show ?thesis by (simp add: m)
  qed
  ultimately show ?thesis by (simp add: fs_index_def)
qed

lemma placing_places:
  assumes A: "placing X r ord q q'"
  shows "fs_places q'"
proof -
  have inv: "fs_inv X q" and P: "placeable r q" and F: "fresh_order (req_id r) ord q"
    using A by (simp_all add: placing_def)
  note m = placing_maps [OF A] and o = placeable_others [OF inv P]
  have pl: "fs_places q" using inv by (simp add: fs_inv_def)
  have "\<exists>sr. map_of (fq_requests q') i = Some sr \<and> sr_order_no sr = Some n"
    if "map_of (fq_pending q') n = Some i" for n i
  proof (cases "ord = Some n")
    case True
    with that show ?thesis by (simp add: m)
  next
    case False
    with that have s: "map_of (fq_pending q) n = Some i" by (auto simp: m split: option.splits if_splits)
    then have "i \<noteq> req_id r" using o(3) [of n] by auto
    with s pl show ?thesis by (simp add: m fs_places_def)
  qed
  moreover have "l < fq_next_lease_id q' \<and> (\<exists>sr n. map_of (fq_requests q') i = Some sr
      \<and> sr_order_no sr = Some n \<and> map_of (fq_pending q') n = None)"
    if "map_of (fq_leases q') l = Some (i, t)" for l i t
  proof -
    from that have l: "map_of (fq_leases q) l = Some (i, t)" and i: "i \<noteq> req_id r" by (simp_all add: m)
    from fs_leased_stored(1) [OF inv l] obtain sr n where
      sr: "map_of (fq_requests q) i = Some sr" "sr_order_no sr = Some n" "map_of (fq_pending q) n = None"
      by blast
    then have "ord \<noteq> Some n" using F i by (auto simp: fresh_order_def)
    then have "map_of (fq_pending q') n = None" using sr(3) by (auto simp: m split: option.splits)
    then show ?thesis using sr i fs_leased_stored(2) [OF inv l] by (simp add: m)
  qed
  moreover have "l = l'" if "map_of (fq_leases q') l = Some (i, t)" "map_of (fq_leases q') l' = Some (i, t')"
    for l l' i t t' using that pl unfolding m fs_places_def by blast
  ultimately show ?thesis unfolding fs_places_def by blast
qed

lemma placing_orders:
  assumes A: "placing X r ord q q'"
  shows "fs_orders q'"
proof -
  have inv: "fs_inv X q" and F: "fresh_order (req_id r) ord q" and Q: "placed X r ord q q'"
    using A by (simp_all add: placing_def)
  note m = placing_maps [OF A]
  have od: "fs_orders q" using inv by (simp add: fs_inv_def)
  have "fq_next_forefront_order q' < n \<and> n < fq_next_order q'
      \<and> (map_of (fq_pending q') n = Some i \<or> (\<exists>l t. map_of (fq_leases q') l = Some (i, t)))"
    if i: "map_of (fq_requests q') i = Some sr" "sr_order_no sr = Some n" for i sr n
  proof (cases "i = req_id r")
    case True
    with i have "ord = Some n" by (auto simp: m)
    with True Q show ?thesis by (simp add: placed_def)
  next
    case False
    with i have s: "map_of (fq_requests q) i = Some sr" by (simp add: m)
    with i(2) od have "fq_next_forefront_order q < n" "n < fq_next_order q"
      and pl: "map_of (fq_pending q) n = Some i \<or> (\<exists>l t. map_of (fq_leases q) l = Some (i, t))"
      unfolding fs_orders_def by blast+
    moreover have "ord \<noteq> Some n" using F s i(2) False by (auto simp: fresh_order_def)
    then have "map_of (fq_pending q') n = map_of (fq_pending q) n" by (auto simp: m split: option.splits)
    ultimately show ?thesis using Q False by (auto simp: m placed_def)
  qed
  moreover have "i = j"
    if "map_of (fq_requests q') i = Some sr" "map_of (fq_requests q') j = Some sr'"
      "sr_order_no sr = Some n" "sr_order_no sr' = Some n" for i j sr sr' n
  proof (cases "i = req_id r \<or> j = req_id r")
    case True
    with that F show ?thesis by (fastforce simp: m fresh_order_def split: if_splits)
  next
    case False
    with that have "map_of (fq_requests q) i = Some sr" "map_of (fq_requests q) j = Some sr'"
      by (simp_all add: m)
    with that(3,4) od show ?thesis unfolding fs_orders_def by blast
  qed
  ultimately show ?thesis unfolding fs_orders_def by blast
qed

lemma placing_handled:
  assumes A: "placing X r ord q q'"
  shows "handled_ids q' = (if ord = None then insert (req_id r) (handled_ids q) else handled_ids q)"
    and "req_id r \<notin> handled_ids q"
  using placeable_others(4) [of X q r] A
  by (auto simp: placing_maps [OF A] handled_ids_def placing_def split: if_splits)

lemma placing_files:
  assumes A: "placing X r ord q q'"
  shows "fs_files X q'"
  using A by (auto simp: placing_maps [OF A] fs_files_def placing_def fs_inv_def)

lemma fs_place:
  assumes A: "placing X r ord q q'"
    and c: "fq_handled_count q' =
      (if ord = None then sat_add (fq_handled_count q) 1 else fq_handled_count q)"
  shows "fs_inv X q' \<and> fs_status q' =
    (fs_status q)(req_unique_key r \<mapsto> (if ord = None then Handled else Pending))"
proof -
  have inv: "fs_inv X q" and P: "placeable r q" and keys: "fs_keys q'"
    using A by (simp_all add: placing_def)
  note m = placing_maps [OF A]
  have "fs_count q'"
  proof (cases ord)
    case None
    have "unat (fq_handled_count q) = min (2 ^ 64 - 1) (card (handled_ids q))"
      using inv by (simp add: fs_inv_def fs_count_def)
    then have "unat (fq_handled_count q') = min (2 ^ 64 - 1) (card (handled_ids q) + 1)"
      using c None by (simp add: unat_sat_add)
    then show ?thesis using placing_handled [OF A] None by (simp add: fs_count_def)
  next
    case (Some n)
    then show ?thesis using placing_handled [OF A] c inv by (simp add: fs_count_def fs_inv_def)
  qed
  then have inv': "fs_inv X q'"
    using keys placing_index [OF A] placing_places [OF A] placing_orders [OF A] placing_files [OF A]
    by (simp add: fs_inv_def)
  have "fs_status q' k = fs_status q k" if k: "k \<noteq> req_unique_key r" for k
    using k placeable_others(2) [OF inv P]
    by (intro fs_status_frame [OF inv inv']) (auto simp: m)
  moreover have "lease_for q' (req_id r) = None"
    using inv' by (subst lease_for_None) (auto simp: m fs_inv_def)
  then have "fs_status q' (req_unique_key r) = Some (if ord = None then Handled else Pending)"
    using fs_status_stored [OF inv', of "req_id r" "\<lparr>sr_request = r, sr_order_no = ord\<rparr>"]
    by (simp add: m)
  ultimately show ?thesis using inv' by auto
qed

section \<open>The operations\<close>

lemma take_order_spec:
  assumes "take_order ff q = Inr (n, q1)" and "fs_keys q"
  obtains a b where "q1 = q\<lparr>fq_next_order := a, fq_next_forefront_order := b\<rparr>"
    and "b \<le> fq_next_forefront_order q" and "fq_next_order q \<le> a" and "b < n" and "n < a"
    and "n \<le> fq_next_forefront_order q \<or> fq_next_order q \<le> n" and "i64_min \<le> b" and "a \<le> i64_max"
proof (cases ff)
  case True
  with assms have n: "n = fq_next_forefront_order q" "q1 = q\<lparr>fq_next_forefront_order := n - 1\<rparr>" "i64_min \<le> n - 1"
    by (auto simp: take_order_def Let_def split: if_splits)
  show ?thesis
    by (rule that [where a = "fq_next_order q" and b = "n - 1"]) (use n assms(2) in \<open>auto simp: fs_keys_def\<close>)
next
  case False
  with assms have n: "n = fq_next_order q" "q1 = q\<lparr>fq_next_order := n + 1\<rparr>" "n + 1 \<le> i64_max"
    by (auto simp: take_order_def Let_def split: if_splits)
  show ?thesis
    by (rule that [where a = "n + 1" and b = "fq_next_forefront_order q"])
      (use n assms(2) in \<open>auto simp: fs_keys_def\<close>)
qed

lemma fs_fresh_order:
  assumes "fs_inv X q" and "n \<le> fq_next_forefront_order q \<or> fq_next_order q \<le> n"
  shows "fresh_order i (Some n) q"
proof -
  have r: "map_of (fq_requests q) j = Some sr \<Longrightarrow> sr_order_no sr \<noteq> Some n" for j sr
    using assms by (force simp: fs_inv_def fs_orders_def)
  have "map_of (fq_pending q) n \<noteq> Some i" for i
    using r assms(1) unfolding fs_inv_def fs_places_def by blast
  then have "map_of (fq_pending q) n = None" by (metis not_None_eq)
  with r show ?thesis by (simp add: fresh_order_def)
qed

lemma fs_inv_keys: "fs_inv X q \<Longrightarrow> fs_keys q"
  by (simp add: fs_inv_def)

text \<open>The only lease of a request is the one that is dropped.\<close>

lemma fs_lease_drop:
  assumes "fs_inv X q" and "map_of (fq_leases q) l = Some (i, t)"
  shows "map_of (AList.delete l (fq_leases q)) l' = Some p
    \<longleftrightarrow> map_of (fq_leases q) l' = Some p \<and> fst p \<noteq> i"
proof -
  have u: "l' = l" if "map_of (fq_leases q) l' = Some (i, t')" for t'
    using that assms unfolding fs_inv_def fs_places_def by blast
  show ?thesis
  proof (cases "l' = l")
    case True
    then show ?thesis using assms(2) by auto
  next
    case False
    then have "map_of (fq_leases q) l' = Some p \<Longrightarrow> fst p \<noteq> i" using u [of "snd p"] by (cases p) auto
    then show ?thesis using False by auto
  qed
qed

lemma fs_no_lease:
  "fs_inv X q \<Longrightarrow> map_of (fq_requests q) i = None \<Longrightarrow> map_of (fq_leases q) l \<noteq> Some (i, t)"
  using fs_leased_stored(1) [of X q l i t] by auto

lemma fs_add_ok:
  assumes inv: "fs_inv X q" and adm: "fs_admissible r q"
    and step: "fs_add_locked X E r opts q = (Inr info, q')"
  shows "fs_inv X q' \<and> fs_status q' = spec_add (req_unique_key r) (fs_status q)
    \<and> pr_was_already_present info = (fs_status q (req_unique_key r) \<noteq> None)
    \<and> pr_was_already_handled info = (fs_status q (req_unique_key r) = Some Handled)"
proof (cases "map_of (fq_dedup q) (req_unique_key r)")
  case None
  with adm have R: "map_of (fq_requests q) (req_id r) = None" by (simp add: fs_admissible_def)
  from step None obtain n q1 where t: "take_order (add_forefront opts) q = Inr (n, q1)"
    by (auto simp: fs_add_locked_def Let_def split: sum.splits)
  from take_order_spec [OF t fs_inv_keys [OF inv]] obtain a b where
    q1: "q1 = q\<lparr>fq_next_order := a, fq_next_forefront_order := b\<rparr>"
    and ab: "b \<le> fq_next_forefront_order q" "fq_next_order q \<le> a" "b < n" "n < a"
    and n: "n \<le> fq_next_forefront_order q \<or> fq_next_order q \<le> n"
    and lim: "i64_min \<le> b" "a \<le> i64_max" .
  let ?q = "q1\<lparr>fq_disk := AList.update (req_id r) (envelope_of X r (Some n)) (fq_disk q),
     fq_pending := AList.update n (req_id r) (fq_pending q),
     fq_dedup := AList.update (req_unique_key r) (req_id r, False) (fq_dedup q),
     fq_requests := AList.update (req_id r) \<lparr>sr_request = r, sr_order_no = Some n\<rparr> (fq_requests q)\<rparr>"
  have q': "q' = write_cache_best_effort E ?q" and i: "\<not> pr_was_already_present info"
    "\<not> pr_was_already_handled info"
    using step None t by (auto simp: fs_add_locked_def write_request_def Let_def q1 split: option.splits)
  have "placing X r (Some n) q ?q"
    using inv None R ab lim fs_fresh_order [OF inv n] fs_no_lease [OF inv R] fs_inv_keys [OF inv]
    by (auto simp: placing_def placeable_def placed_def q1 fs_keys_def AList.distinct_update AList.update_conv')
  from fs_place [OF this] have "fs_inv X ?q" "fs_status ?q = (fs_status q)(req_unique_key r \<mapsto> Pending)"
    by (simp_all add: q1)
  then show ?thesis using i None fs_status_dedup [OF inv, of "req_unique_key r"]
    by (simp add: q' spec_add_def)
next
  case (Some p)
  obtain i h where p: "p = (i, h)" by (cases p)
  have "q' = q" "pr_was_already_present info" "pr_was_already_handled info = h"
    using step Some p by (auto simp: fs_add_locked_def Let_def)
  moreover have "fs_status q (req_unique_key r) \<noteq> None"
    and "(fs_status q (req_unique_key r) = Some Handled) = h"
    using Some p by (auto simp: fs_status_def split: option.splits)
  ultimately show ?thesis using inv by (auto simp: spec_add_def)
qed

lemma fs_owned_placeable:
  assumes "fs_owned X l q" and "req_id r = req_id (lease_request l)"
    and "req_unique_key r = req_unique_key (lease_request l)"
  shows "placeable r q"
  using assms by (auto simp: fs_owned_def placeable_def)

lemma fs_owned_lease:
  assumes "fs_owned X l q"
  shows "lease_request_id q (lease_id l) = Inr (req_id (lease_request l))"
    and "validate_unique_key q (req_id (lease_request l)) (lease_request l) = None"
    and "\<exists>t. map_of (fq_leases q) (lease_id l) = Some (req_id (lease_request l), t)"
    and "\<exists>sr. map_of (fq_requests q) (req_id (lease_request l)) = Some sr
           \<and> req_unique_key (sr_request sr) = req_unique_key (lease_request l)"
proof -
  from assms obtain t sr where inv: "fs_inv X q"
    and t: "map_of (fq_leases q) (lease_id l) = Some (req_id (lease_request l), t)"
    and sr: "map_of (fq_requests q) (req_id (lease_request l)) = Some sr"
    and k: "req_unique_key (sr_request sr) = req_unique_key (lease_request l)"
    by (auto simp: fs_owned_def)
  show "\<exists>t. map_of (fq_leases q) (lease_id l) = Some (req_id (lease_request l), t)"
    and "\<exists>sr. map_of (fq_requests q) (req_id (lease_request l)) = Some sr
           \<and> req_unique_key (sr_request sr) = req_unique_key (lease_request l)"
    using t sr k by blast+
  show "lease_request_id q (lease_id l) = Inr (req_id (lease_request l))"
    using t by (simp add: lease_request_id_def)
  show "validate_unique_key q (req_id (lease_request l)) (lease_request l) = None"
    using fs_stored(2) [OF inv sr] k by (simp add: validate_unique_key_def)
qed

lemma fs_mark_handled_ok:
  assumes inv: "fs_inv X q" and own: "fs_owned X l q"
    and step: "fs_mark_handled X E l q = (Inr (), q')"
  shows "fs_inv X q' \<and> fs_status q' = (fs_status q)(req_unique_key (lease_request l) \<mapsto> Handled)"
proof -
  let ?r = "lease_request l"
  note o = fs_owned_lease [OF own]
  obtain t sr where t: "map_of (fq_leases q) (lease_id l) = Some (req_id ?r, t)"
    and sr: "map_of (fq_requests q) (req_id ?r) = Some sr" "req_unique_key (sr_request sr) = req_unique_key ?r"
    using o(3,4) by blast
  let ?q = "q\<lparr>fq_disk := AList.update (req_id ?r) (envelope_of X ?r None) (fq_disk q),
     fq_leases := AList.delete (lease_id l) (fq_leases q),
     fq_handled_count := sat_add (fq_handled_count q) 1,
     fq_dedup := AList.update (req_unique_key ?r) (req_id ?r, True) (fq_dedup q),
     fq_requests := AList.update (req_id ?r) \<lparr>sr_request = ?r, sr_order_no = None\<rparr> (fq_requests q)\<rparr>"
  have q': "q' = write_cache_best_effort E ?q"
    using step sr by (auto simp: fs_mark_handled_def o(1,2) write_request_def replace_stored_request_def
        Let_def split: option.splits)
  have "placing X ?r None q ?q"
    using inv fs_owned_placeable [OF own, of ?r] fs_lease_drop [OF inv t] fs_inv_keys [OF inv]
    by (simp add: placing_def placed_def fresh_order_def fs_keys_def AList.distinct_update
        AList.distinct_delete AList.update_conv')
  from fs_place [OF this] show ?thesis by (simp add: q')
qed

lemma fs_requeue_ok:
  assumes inv: "fs_inv X q" and own: "fs_owned X l q"
    and step: "fs_requeue X E l ff inc q = (Inr (), q')"
  shows "fs_inv X q' \<and> fs_status q' = (fs_status q)(req_unique_key (lease_request l) \<mapsto> Pending)"
proof -
  define r where "r = (if inc then (lease_request l)\<lparr>req_retry_count := req_retry_count (lease_request l) + 1\<rparr>
              else lease_request l)"
  have r: "req_id r = req_id (lease_request l)" "req_unique_key r = req_unique_key (lease_request l)"
    by (simp_all add: r_def)
  note o = fs_owned_lease [OF own]
  obtain t sr where t: "map_of (fq_leases q) (lease_id l) = Some (req_id r, t)"
    and sr: "map_of (fq_requests q) (req_id r) = Some sr" "req_unique_key (sr_request sr) = req_unique_key r"
    using o(3,4) by (auto simp: r)
  from step obtain n q1 where tk: "take_order ff q = Inr (n, q1)"
    by (auto simp: fs_requeue_def o(1,2) Let_def split: sum.splits)
  from take_order_spec [OF tk fs_inv_keys [OF inv]] obtain a b where
    q1: "q1 = q\<lparr>fq_next_order := a, fq_next_forefront_order := b\<rparr>"
    and ab: "b \<le> fq_next_forefront_order q" "fq_next_order q \<le> a" "b < n" "n < a"
    and n: "n \<le> fq_next_forefront_order q \<or> fq_next_order q \<le> n"
    and lim: "i64_min \<le> b" "a \<le> i64_max" .
  let ?q = "q1\<lparr>fq_disk := AList.update (req_id r) (envelope_of X r (Some n)) (fq_disk q),
     fq_leases := AList.delete (lease_id l) (fq_leases q),
     fq_pending := AList.update n (req_id r) (fq_pending q),
     fq_dedup := AList.update (req_unique_key r) (req_id r, False) (fq_dedup q),
     fq_requests := AList.update (req_id r) \<lparr>sr_request = r, sr_order_no = Some n\<rparr> (fq_requests q)\<rparr>"
  have q': "q' = write_cache_best_effort E ?q"
    using step sr tk unfolding r [symmetric]
    by (auto simp: fs_requeue_def o(1,2) write_request_def replace_stored_request_def
        Let_def q1 r_def [symmetric] r split: option.splits)
  have "placing X r (Some n) q ?q"
    using inv fs_owned_placeable [OF own r] fs_lease_drop [OF inv t] fs_inv_keys [OF inv] ab lim
      fs_fresh_order [OF inv n]
    by (simp add: placing_def placed_def q1 fs_keys_def AList.distinct_update
        AList.distinct_delete AList.update_conv')
  from fs_place [OF this] show ?thesis by (simp add: q' q1 r)
qed

lemma spec_expire_trans: "spec_expire m m' \<Longrightarrow> spec_expire m' m'' \<Longrightarrow> spec_expire m m''"
  unfolding spec_expire_def by (metis key_status.distinct(1) option.inject)

lemma fs_release:
  assumes inv: "fs_inv X q"
  shows "fs_inv X (release_lease l q) \<and> spec_expire (fs_status q) (fs_status (release_lease l q))"
proof (cases "map_of (fq_leases q) l")
  case None
  then show ?thesis using inv by (simp add: release_lease_def)
next
  case (Some p)
  obtain i t where p: "p = (i, t)" by (cases p)
  with Some have L: "map_of (fq_leases q) l = Some (i, t)" by simp
  from fs_leased_stored(1) [OF inv L] obtain sr n where
    R: "map_of (fq_requests q) i = Some sr" "sr_order_no sr = Some n" "map_of (fq_pending q) n = None"
    by blast
  let ?r = "sr_request sr" and ?q = "release_lease l q"
  note st = fs_stored [OF inv R(1)]
  have q: "?q = q\<lparr>fq_leases := AList.delete l (fq_leases q),
      fq_pending := AList.update n i (fq_pending q)\<rparr>"
    using L R by (simp add: release_lease_def)
  have od: "fs_orders q" and fl: "fs_files X q" using inv by (simp_all add: fs_inv_def)
  have "fresh_order i (Some n) q"
    using R od unfolding fresh_order_def fs_orders_def by blast
  moreover have "placeable ?r q" using R(1) L st(1) by (auto simp: placeable_def)
  moreover have "map_of (fq_disk q) i = Some (envelope_of X ?r (Some n))"
    using fl R by (simp add: fs_files_def)
  moreover have "fq_next_forefront_order q < n \<and> n < fq_next_order q"
    using od R unfolding fs_orders_def by blast
  ultimately have "placing X ?r (Some n) q ?q"
    using inv fs_lease_drop [OF inv L] fs_inv_keys [OF inv] R st
    by (simp add: placing_def placed_def q fs_keys_def AList.distinct_update
        AList.distinct_delete AList.update_conv' fun_upd_idem)
  from fs_place [OF this] have "fs_inv X ?q"
    "fs_status ?q = (fs_status q)(req_unique_key ?r \<mapsto> Pending)" by (simp_all add: q)
  moreover have "fs_status q (req_unique_key ?r) = Some (Leased l)"
    using fs_status_stored [OF inv R(1)] R(2) L inv lease_for_Some [of q i l] by (auto simp: fs_inv_def)
  ultimately show ?thesis by (simp add: spec_expire_def)
qed

lemma fs_reclaim_expired:
  assumes "fs_inv X q"
  shows "fs_inv X (reclaim_expired now q) \<and> spec_expire (fs_status q) (fs_status (reclaim_expired now q))"
proof -
  have "fs_inv X (fold release_lease ls q) \<and> spec_expire (fs_status q) (fs_status (fold release_lease ls q))"
    for ls using assms
  proof (induction ls arbitrary: q)
    case (Cons l ls)
    with fs_release [of X q l] show ?case by (auto intro: spec_expire_trans)
  qed simp
  then show ?thesis by (simp add: reclaim_expired_def)
qed

lemma btree_pop_first_spec:
  assumes "distinct (map fst m)"
  shows "btree_pop_first m = None \<longleftrightarrow> m = []"
    and "btree_pop_first m = Some (n, v, rest) \<Longrightarrow> map_of m n = Some v \<and> rest = AList.delete n m
      \<and> (\<forall>n' v'. map_of m n' = Some v' \<longrightarrow> n \<le> n')"
proof -
  have "map_of m (Min (fst ` set m)) \<noteq> None" if "m \<noteq> []"
    using that Min_in [of "fst ` set m"] by (simp add: map_of_eq_None_iff)
  then show "btree_pop_first m = None \<longleftrightarrow> m = []" by (auto simp: btree_pop_first_def Let_def)
  have "Min (fst ` set m) \<le> n'" if "map_of m n' = Some v'" for n' v'
    using map_of_SomeD [OF that] by (force intro: Min_le)
  then show "map_of m n = Some v \<and> rest = AList.delete n m \<and> (\<forall>n' v'. map_of m n' = Some v' \<longrightarrow> n \<le> n')"
    if "btree_pop_first m = Some (n, v, rest)"
    using that by (auto simp: btree_pop_first_def Let_def split: if_splits)
qed

lemma fs_take:
  assumes inv: "fs_inv X q" and pend: "map_of (fq_pending q) n = Some i"
    and sr: "map_of (fq_requests q) i = Some sr" and id: "fq_next_lease_id q \<noteq> - 1"
    and q': "q' = q\<lparr>fq_pending := AList.delete n (fq_pending q), fq_next_lease_id := fq_next_lease_id q + 1,
       fq_leases := AList.update (fq_next_lease_id q) (i, t) (fq_leases q)\<rparr>"
  shows "fs_inv X q' \<and> fs_status q (req_unique_key (sr_request sr)) = Some Pending
    \<and> fs_status q' = (fs_status q)(req_unique_key (sr_request sr) \<mapsto> Leased (fq_next_lease_id q))"
proof -
  let ?l = "fq_next_lease_id q" and ?k = "req_unique_key (sr_request sr)"
  have pl: "fs_places q" and od: "fs_orders q" using inv by (simp_all add: fs_inv_def)
  have n: "sr_order_no sr = Some n" using pl pend sr unfolding fs_places_def by force
  have noL: "map_of (fq_leases q) l \<noteq> Some (i, t')" for l t'
    using fs_leased_stored(1) [OF inv, of l i t'] sr n pend by auto
  have fresh: "map_of (fq_leases q) ?l = None"
    using fs_leased_stored(2) [OF inv] by (cases "map_of (fq_leases q) ?l") auto
  have keys: "fs_keys q'"
    using inv by (simp add: fs_inv_def fs_keys_def q' AList.distinct_update AList.distinct_delete)
  have m: "map_of (fq_pending q') = (map_of (fq_pending q))(n := None)"
    "map_of (fq_leases q') = (map_of (fq_leases q))(?l \<mapsto> (i, t))"
    by (simp_all add: q' AList.delete_conv' AList.update_conv')
  have other: "i' \<noteq> i" if "map_of (fq_pending q) m = Some i'" "m \<noteq> n" for m i'
    using that pl sr n unfolding fs_places_def by force
  have lease: "l < fq_next_lease_id q' \<and> (\<exists>sr m. map_of (fq_requests q') j = Some sr
      \<and> sr_order_no sr = Some m \<and> map_of (fq_pending q') m = None)"
    if "map_of (fq_leases q') l = Some (j, t')" for l j t'
  proof (cases "l = ?l")
    case True
    with that have "j = i" by (simp add: m)
    then show ?thesis using True sr n word_less_inc [OF id, of ?l] by (simp add: m q')
  next
    case False
    with that have l: "map_of (fq_leases q) l = Some (j, t')" by (simp add: m)
    from fs_leased_stored [OF inv l] word_less_inc [OF id, of l] show ?thesis
      by (auto simp: q' AList.delete_conv')
  qed
  have places: "fs_places q'"
    unfolding fs_places_def
  proof (intro conjI allI impI)
    fix m' j assume "map_of (fq_pending q') m' = Some j"
    then have "map_of (fq_pending q) m' = Some j" by (simp add: m split: if_splits)
    with pl show "\<exists>sr. map_of (fq_requests q') j = Some sr \<and> sr_order_no sr = Some m'"
      unfolding fs_places_def by (simp add: q')
  next
    fix l l' j t1 t2
    assume "map_of (fq_leases q') l = Some (j, t1)" "map_of (fq_leases q') l' = Some (j, t2)"
    then show "l = l'" using noL pl unfolding m fs_places_def by (auto split: if_splits)
  qed (use lease in blast)+
  have orders: "fs_orders q'"
    unfolding fs_orders_def
  proof (intro conjI allI impI)
    fix j s m' assume j: "map_of (fq_requests q') j = Some s" "sr_order_no s = Some m'"
    then have "map_of (fq_requests q) j = Some s" by (simp add: q')
    with j(2) od have "fq_next_forefront_order q < m' \<and> m' < fq_next_order q"
      and w: "map_of (fq_pending q) m' = Some j \<or> (\<exists>l t. map_of (fq_leases q) l = Some (j, t))"
      unfolding fs_orders_def by blast+
    then show "fq_next_forefront_order q' < m'" "m' < fq_next_order q'" by (simp_all add: q')
    from w show "map_of (fq_pending q') m' = Some j \<or> (\<exists>l t. map_of (fq_leases q') l = Some (j, t))"
    proof
      assume "map_of (fq_pending q) m' = Some j"
      then show ?thesis using pend by (cases "m' = n") (auto simp: m)
    next
      assume "\<exists>l t. map_of (fq_leases q) l = Some (j, t)"
      then obtain l t' where "map_of (fq_leases q) l = Some (j, t')" by blast
      then show ?thesis using fresh by (intro disjI2 exI [of _ l] exI [of _ t']) (auto simp: m)
    qed
  qed (use od in \<open>auto simp: q' fs_orders_def\<close>)
  have inv': "fs_inv X q'"
    using inv keys places orders by (simp add: fs_inv_def fs_index_def fs_count_def handled_ids_def fs_files_def q')
  have "fs_status q' k = fs_status q k" if k: "k \<noteq> ?k" for k
  proof (rule fs_status_frame [OF inv inv'])
    fix j h l assume "map_of (fq_dedup q) k = Some (j, h)"
    then have "j \<noteq> i" using k inv sr unfolding fs_inv_def fs_index_def by force
    then show "(\<exists>t. map_of (fq_leases q') l = Some (j, t)) \<longleftrightarrow> (\<exists>t. map_of (fq_leases q) l = Some (j, t))"
      using fresh by (auto simp: m)
  qed (simp add: q')
  moreover have "lease_for q' i = Some ?l" using lease_for_Some [OF keys places] by (simp add: m)
  then have "fs_status q' ?k = Some (Leased ?l)"
    using fs_status_stored [OF inv', of i sr] sr n by (simp add: q')
  moreover have "lease_for q i = None" using lease_for_None [of q i] inv noL by (simp add: fs_inv_def)
  then have "fs_status q ?k = Some Pending" using fs_status_stored [OF inv sr] n by simp
  ultimately show ?thesis using inv' by auto
qed

lemma fs_nothing_pending:
  assumes inv: "fs_inv X q" and "fq_pending q = []"
  shows "fs_status q k \<noteq> Some Pending"
proof
  assume p: "fs_status q k = Some Pending"
  then obtain i h where d: "map_of (fq_dedup q) k = Some (i, h)"
    by (auto simp: fs_status_def split: option.splits)
  then obtain sr where sr: "map_of (fq_requests q) i = Some sr" "req_unique_key (sr_request sr) = k"
    using inv unfolding fs_inv_def fs_index_def by blast
  with p fs_status_stored [OF inv sr(1)] obtain n where n: "sr_order_no sr = Some n" "lease_for q i = None"
    by (auto split: if_splits option.splits)
  with sr inv assms(2) obtain l t where "map_of (fq_leases q) l = Some (i, t)"
    unfolding fs_inv_def fs_orders_def by fastforce
  then show False using n(2) lease_for_None [of q i] inv by (auto simp: fs_inv_def)
qed

lemma fs_renew_ok:
  assumes inv: "fs_inv X q" and step: "fs_renew now l d q = (Inr (), q')"
  shows "fs_inv X q' \<and> fs_status q' = fs_status q"
proof -
  from step obtain i t where L: "map_of (fq_leases q) l = Some (i, t)"
    and q': "q' = q\<lparr>fq_leases := AList.update l (i, t + d) (fq_leases q)\<rparr>"
    by (auto simp: fs_renew_def split: option.splits if_splits)
  have m: "(\<exists>t. map_of (fq_leases q') l' = Some (j, t)) \<longleftrightarrow> (\<exists>t. map_of (fq_leases q) l' = Some (j, t))" for l' j
    using L by (auto simp: q' AList.update_conv')
  have "fs_keys q'" using inv by (simp add: fs_inv_def fs_keys_def q' AList.distinct_update)
  moreover have "fs_places q'"
    using inv m unfolding fs_inv_def fs_places_def by (simp add: q')
  moreover have "fs_orders q'"
    using inv m unfolding fs_inv_def fs_orders_def by (simp add: q')
  ultimately have inv': "fs_inv X q'"
    using inv by (simp add: fs_inv_def fs_index_def fs_count_def handled_ids_def fs_files_def q')
  have "fs_status q' k = fs_status q k" for k
    using m by (intro fs_status_frame [OF inv inv']) (simp_all add: q')
  then show ?thesis using inv' by auto
qed

section \<open>The contract holds\<close>

lemma fs_fetch_cases:
  assumes inv: "fs_inv X q0" and step: "fs_fetch_next now q0 = (Inr lo, q')"
  defines "q \<equiv> reclaim_expired now q0"
  shows "lo = None \<and> q' = q \<and> fq_pending q = []
    \<or> (\<exists>n i sr. lo = Some \<lparr>lease_request = sr_request sr, lease_id = fq_next_lease_id q,
           lease_expires_at = now + LEASE_TTL\<rparr>
         \<and> map_of (fq_pending q) n = Some i \<and> (\<forall>n' v'. map_of (fq_pending q) n' = Some v' \<longrightarrow> n \<le> n')
         \<and> map_of (fq_requests q) i = Some sr \<and> fq_next_lease_id q \<noteq> - 1
         \<and> q' = q\<lparr>fq_pending := AList.delete n (fq_pending q), fq_next_lease_id := fq_next_lease_id q + 1,
              fq_leases := AList.update (fq_next_lease_id q) (i, now + LEASE_TTL) (fq_leases q)\<rparr>)"
proof -
  have d: "distinct (map fst (fq_pending q))"
    using fs_reclaim_expired [OF inv, of now] by (simp add: q_def fs_inv_def fs_keys_def)
  show ?thesis
  proof (cases "btree_pop_first (fq_pending q)")
    case None
    then have "fq_pending q = []" using btree_pop_first_spec(1) [OF d] by simp
    moreover have "lo = None" "q' = q"
      using step None by (simp_all add: fs_fetch_next_def q_def [symmetric] Let_def)
    ultimately show ?thesis by blast
  next
    case (Some p)
    obtain n i rest where p: "p = (n, i, rest)" by (cases p)
    note s = btree_pop_first_spec(2) [OF d, of n i rest, unfolded Some p, OF refl]
    then show ?thesis using step Some p
      by (auto simp: fs_fetch_next_def q_def [symmetric] Let_def split: option.splits if_splits)
  qed
qed

interpretation fs: request_queue "fs_ops X E" fs_status "fs_inv X" fs_admissible "fs_owned X" "\<lambda>_. True"
  for X E
proof (unfold_locales, goal_cases)
  case (1 l q)
  then show ?case by (rule fs_owned_status)
next
  case (2 q r opts info q')
  then show ?case by (intro fs_add_ok) (simp_all add: fs_ops_def)
next
  case (3 q now l q')
  let ?q = "reclaim_expired now q"
  have inv: "fs_inv X ?q" and ex: "spec_expire (fs_status q) (fs_status ?q)"
    using fs_reclaim_expired [OF 3(1)] by blast+
  from fs_fetch_cases [OF 3(1), of now "Some l" q'] 3(3) obtain n i sr where
    l: "l = \<lparr>lease_request = sr_request sr, lease_id = fq_next_lease_id ?q, lease_expires_at = now + LEASE_TTL\<rparr>"
    and n: "map_of (fq_pending ?q) n = Some i" and sr: "map_of (fq_requests ?q) i = Some sr"
    and id: "fq_next_lease_id ?q \<noteq> - 1"
    and q': "q' = ?q\<lparr>fq_pending := AList.delete n (fq_pending ?q), fq_next_lease_id := fq_next_lease_id ?q + 1,
              fq_leases := AList.update (fq_next_lease_id ?q) (i, now + LEASE_TTL) (fq_leases ?q)\<rparr>"
    by (auto simp: fs_ops_def)
  note t = fs_take [OF inv n sr id q']
  moreover have "fs_owned X l q'"
    using t sr fs_stored(1) [OF inv sr] by (auto simp: fs_owned_def l q' AList.update_conv')
  ultimately show ?case using ex l by auto
next
  case (4 q now q')
  with fs_fetch_cases [OF 4(1), of now None q'] fs_reclaim_expired [OF 4(1), of now]
    fs_nothing_pending [of X "reclaim_expired now q"]
  show ?case by (auto simp: fs_ops_def) (metis)
next
  case (5 q l q')
  then show ?case by (intro fs_mark_handled_ok) (simp_all add: fs_ops_def)
next
  case (6 q l ro q')
  then show ?case using fs_requeue_ok [OF 6(1,2)] by (simp add: fs_ops_def fs_reclaim_def)
next
  case (7 q l q')
  then show ?case using fs_requeue_ok [OF 7(1,2)] by (simp add: fs_ops_def fs_abandon_def)
next
  case (8 q now i d q')
  then show ?case using fs_renew_ok [OF 8(1)] by (simp add: fs_ops_def)
qed

end
