(* ===== verification/Fs_Recovery.thy ===== *)
theory Fs_Recovery
  imports Fs_Invariant
begin

text \<open>
  What survives a restart of the file-system queue: \<open>scan_queue\<close> applied to the files of a queue
  that satisfies its invariant rebuilds the same requests, deduplication index and order numbers;
  leases are forgotten and their requests are pending again. Then the properties of the queue.
\<close>

section \<open>The scan in closed form\<close>

definition pending_of :: "('u, 'j) decoded list \<Rightarrow> (int \<times> request_id) list" where
  "pending_of ds = List.map_filter (\<lambda>(r, ord, _). map_option (\<lambda>n. (n, req_id r)) ord) ds"

definition dedup_of :: "('u, 'j) decoded list \<Rightarrow> (string \<times> request_id \<times> bool) list" where
  "dedup_of ds = map (\<lambda>(r, ord, _). (req_unique_key r, req_id r, ord = None)) ds"

definition requests_of :: "('u, 'j) decoded list \<Rightarrow> (request_id \<times> ('u, 'j) stored_request) list" where
  "requests_of ds = map (\<lambda>(r, ord, _). (req_id r, \<lparr>sr_request = r, sr_order_no = ord\<rparr>)) ds"

definition handled_of :: "('u, 'j) decoded list \<Rightarrow> nat" where
  "handled_of ds = length (filter (\<lambda>(r, ord, _). ord = None) ds)"

lemma scan_closed:
  assumes "\<forall>(r, ord, bare) \<in> set ds. \<not> bare"
    and "distinct (map fst (fq_pending q @ pending_of ds))"
    and "distinct (map fst (fq_dedup q @ dedup_of ds))"
    and "distinct (map fst (fq_requests q @ requests_of ds))"
  shows "\<exists>c. fold_result scan_one ds q = Inr (q\<lparr>fq_pending := fq_pending q @ pending_of ds,
      fq_dedup := fq_dedup q @ dedup_of ds, fq_requests := fq_requests q @ requests_of ds,
      fq_handled_count := c\<rparr>)
    \<and> unat c = min (2 ^ 64 - 1) (unat (fq_handled_count q) + handled_of ds)"
  using assms
proof (induction ds arbitrary: q)
  case Nil
  have "unat (fq_handled_count q) \<le> 2 ^ 64 - 1" using unsigned_less [where 'a = nat, of "fq_handled_count q"] by simp
  then show ?case
    by (intro exI [of _ "fq_handled_count q"]) (simp add: pending_of_def dedup_of_def requests_of_def handled_of_def List.map_filter_def)
next
  case (Cons d ds)
  obtain r ord bare where d: "d = (r, ord, bare)" by (cases d)
  define q1 where "q1 = q\<lparr>fq_pending := fq_pending q @ pending_of [d],
      fq_dedup := fq_dedup q @ dedup_of [d], fq_requests := fq_requests q @ requests_of [d],
      fq_handled_count := (if ord = None then sat_add (fq_handled_count q) 1 else fq_handled_count q)\<rparr>"
  have split: "pending_of (d # ds) = pending_of [d] @ pending_of ds"
    "dedup_of (d # ds) = dedup_of [d] @ dedup_of ds" "requests_of (d # ds) = requests_of [d] @ requests_of ds"
    by (simp_all add: pending_of_def dedup_of_def requests_of_def List.map_filter_def)
  have "map_of (fq_pending q) n = None" if "ord = Some n" for n
    using Cons.prems(2) that by (auto simp: split pending_of_def d List.map_filter_def map_of_eq_None_iff)
  moreover have "map_of (fq_dedup q) (req_unique_key r) = None" "map_of (fq_requests q) (req_id r) = None"
    using Cons.prems(3,4) by (auto simp: split dedup_of_def requests_of_def d map_of_eq_None_iff)
  ultimately have step: "scan_one d q = Inr q1"
    using Cons.prems(1)
    by (auto simp: scan_one_def d q1_def update_new pending_of_def dedup_of_def requests_of_def
        List.map_filter_def split: option.splits)
  have "\<exists>c. fold_result scan_one ds q1 = Inr (q1\<lparr>fq_pending := fq_pending q1 @ pending_of ds,
      fq_dedup := fq_dedup q1 @ dedup_of ds, fq_requests := fq_requests q1 @ requests_of ds,
      fq_handled_count := c\<rparr>)
    \<and> unat c = min (2 ^ 64 - 1) (unat (fq_handled_count q1) + handled_of ds)"
    using Cons.prems by (intro Cons.IH) (simp_all add: q1_def split)
  then obtain c where c: "fold_result scan_one ds q1 = Inr (q1\<lparr>fq_pending := fq_pending q1 @ pending_of ds,
      fq_dedup := fq_dedup q1 @ dedup_of ds, fq_requests := fq_requests q1 @ requests_of ds,
      fq_handled_count := c\<rparr>)"
    "unat c = min (2 ^ 64 - 1) (unat (fq_handled_count q1) + handled_of ds)" by blast
  have "unat c = min (2 ^ 64 - 1) (unat (fq_handled_count q) + handled_of (d # ds))"
    using c(2) by (auto simp: q1_def handled_of_def d unat_sat_add)
  then show ?case using c(1) step by (auto simp: q1_def split)
qed

section \<open>The files of a queue\<close>

definition disk_decoded :: "('u, 'j) fs_queue \<Rightarrow> ('u, 'j) decoded list" where
  "disk_decoded q = map (\<lambda>(_, e). (env_json e, env_order_no e, False)) (fq_disk q)"

lemma disk_file:
  assumes inv: "fs_inv X q" and "(i, e) \<in> set (fq_disk q)"
  shows "\<exists>sr. map_of (fq_requests q) i = Some sr \<and> e = envelope_of X (sr_request sr) (sr_order_no sr)
    \<and> req_id (sr_request sr) = i"
proof -
  have "map_of (fq_disk q) i = Some e"
    using assms by (intro map_of_is_SomeI) (simp_all add: fs_inv_def fs_keys_def)
  with inv show ?thesis by (auto simp: fs_inv_def fs_files_def fs_index_def)
qed

lemma disk_decoded_set:
  assumes inv: "fs_inv X q"
  shows "(r, ord, b) \<in> set (disk_decoded q) \<longleftrightarrow>
    \<not> b \<and> map_of (fq_requests q) (req_id r) = Some \<lparr>sr_request = r, sr_order_no = ord\<rparr>"
proof
  assume "(r, ord, b) \<in> set (disk_decoded q)"
  then obtain i e where e: "(i, e) \<in> set (fq_disk q)" "r = env_json e" "ord = env_order_no e" "\<not> b"
    by (auto simp: disk_decoded_def)
  from disk_file [OF inv e(1)] obtain sr where "map_of (fq_requests q) i = Some sr"
    "e = envelope_of X (sr_request sr) (sr_order_no sr)" "req_id (sr_request sr) = i" by blast
  with e show "\<not> b \<and> map_of (fq_requests q) (req_id r) = Some \<lparr>sr_request = r, sr_order_no = ord\<rparr>"
    by (simp add: envelope_of_def)
next
  assume a: "\<not> b \<and> map_of (fq_requests q) (req_id r) = Some \<lparr>sr_request = r, sr_order_no = ord\<rparr>"
  with inv have "map_of (fq_disk q) (req_id r) = Some (envelope_of X r ord)"
    by (simp add: fs_inv_def fs_files_def)
  then have "(req_id r, envelope_of X r ord) \<in> set (fq_disk q)" by (rule map_of_SomeD)
  with a show "(r, ord, b) \<in> set (disk_decoded q)"
    by (force simp: disk_decoded_def envelope_of_def)
qed

lemma disk_decoded_ids:
  assumes inv: "fs_inv X q"
  shows "distinct (map (\<lambda>(r, _, _). req_id r) (disk_decoded q))"
proof -
  have "map (\<lambda>(r, _, _). req_id r) (disk_decoded q) = map fst (fq_disk q)"
    using disk_file [OF inv] by (force simp: disk_decoded_def envelope_of_def)
  then show ?thesis using inv by (simp add: fs_inv_def fs_keys_def)
qed

lemma decoded_distinct:
  assumes inv: "fs_inv X q" and perm: "mset ds = mset (disk_decoded q)"
  shows "distinct (map fst (requests_of ds))" and "distinct (map fst (dedup_of ds))"
    and "distinct (map fst (pending_of ds))"
proof -
  have set: "set ds = set (disk_decoded q)" using perm by (rule mset_eq_setD)
  have "mset (map (\<lambda>(r, _, _). req_id r) ds) = mset (map (\<lambda>(r, _, _). req_id r) (disk_decoded q))"
    using perm by simp
  then have ids: "distinct (map (\<lambda>(r, _, _). req_id r) ds)"
    using disk_decoded_ids [OF inv] mset_eq_imp_distinct_iff by blast
  then show "distinct (map fst (requests_of ds))" by (simp add: requests_of_def comp_def case_prod_unfold)
  have mem: "\<not> b \<and> map_of (fq_requests q) (req_id r) = Some \<lparr>sr_request = r, sr_order_no = ord\<rparr>"
    if "(r, ord, b) \<in> set ds" for r ord b
    using that disk_decoded_set [OF inv] set by blast
  have ds: "distinct ds" using ids by (simp add: distinct_map)
  have eq: "d = d'" if "d \<in> set ds" "d' \<in> set ds" "req_id (fst d) = req_id (fst d')" for d d'
  proof -
    obtain r ord b r' ord' b' where d: "d = (r, ord, b)" "d' = (r', ord', b')" by (cases d; cases d')
    have m: "\<not> b" "\<not> b'" "map_of (fq_requests q) (req_id r) = Some \<lparr>sr_request = r, sr_order_no = ord\<rparr>"
      "map_of (fq_requests q) (req_id r') = Some \<lparr>sr_request = r', sr_order_no = ord'\<rparr>"
      using mem that d by blast+
    have "req_id r = req_id r'" using that(3) d by simp
    then have "Some \<lparr>sr_request = r, sr_order_no = ord\<rparr> = Some \<lparr>sr_request = r', sr_order_no = ord'\<rparr>"
      unfolding m(3) [symmetric] m(4) [symmetric] by (rule arg_cong)
    then show ?thesis using m(1,2) d by simp
  qed
  have "inj_on (\<lambda>d. req_unique_key (fst d)) (set ds)"
  proof (rule inj_onI)
    fix d d' assume a: "d \<in> set ds" "d' \<in> set ds" "req_unique_key (fst d) = req_unique_key (fst d')"
    obtain r ord b r' ord' b' where d: "d = (r, ord, b)" "d' = (r', ord', b')" by (cases d; cases d')
    have "map_of (fq_requests q) (req_id r) = Some \<lparr>sr_request = r, sr_order_no = ord\<rparr>"
      and "map_of (fq_requests q) (req_id r') = Some \<lparr>sr_request = r', sr_order_no = ord'\<rparr>"
      using a mem d by blast+
    from this [THEN fs_stored(2) [OF inv]] have "req_id r = req_id r'" using a(3) d by simp
    with a d show "d = d'" by (intro eq) simp_all
  qed
  then show "distinct (map fst (dedup_of ds))"
    using ds by (simp add: dedup_of_def comp_def case_prod_unfold distinct_map)
  have "inj_on (\<lambda>d. the (fst (snd d))) {d \<in> set ds. fst (snd d) \<noteq> None}"
  proof (rule inj_onI)
    fix d d' assume a: "d \<in> {d \<in> set ds. fst (snd d) \<noteq> None}" "d' \<in> {d \<in> set ds. fst (snd d) \<noteq> None}"
      "the (fst (snd d)) = the (fst (snd d'))"
    then obtain r b r' b' n where d: "d = (r, Some n, b)" "d' = (r', Some n, b')" by (cases d; cases d') auto
    have "map_of (fq_requests q) (req_id r) = Some \<lparr>sr_request = r, sr_order_no = Some n\<rparr>"
      and "map_of (fq_requests q) (req_id r') = Some \<lparr>sr_request = r', sr_order_no = Some n\<rparr>"
      using a mem d by blast+
    with inv have "req_id r = req_id r'" unfolding fs_inv_def fs_orders_def by force
    with a d show "d = d'" by (intro eq) simp_all
  qed
  then have "distinct (map (\<lambda>d. the (fst (snd d))) (filter (\<lambda>d. fst (snd d) \<noteq> None) ds))"
    using ds by (simp add: distinct_map)
  moreover have "map fst (pending_of ds) = map (\<lambda>d. the (fst (snd d))) (filter (\<lambda>d. fst (snd d) \<noteq> None) ds)"
    by (induction ds) (auto simp: pending_of_def List.map_filter_def)
  ultimately show "distinct (map fst (pending_of ds))" by simp
qed

lemma foldr_max_ge: "x \<in> set xs \<Longrightarrow> x \<le> foldr max xs (0 :: int)"
  by (induction xs) auto

lemma foldr_max_le: "\<forall>x \<in> set xs. x \<le> b \<Longrightarrow> 0 \<le> b \<Longrightarrow> foldr max xs (0 :: int) \<le> b"
  by (induction xs) auto

lemma foldr_min_le: "x \<in> set xs \<Longrightarrow> foldr min xs (0 :: int) \<le> x"
  by (induction xs) auto

lemma foldr_min_ge: "\<forall>x \<in> set xs. b \<le> x \<Longrightarrow> b \<le> 0 \<Longrightarrow> b \<le> foldr min xs (0 :: int)"
  by (induction xs) auto

lemma foldr_max_nonneg: "0 \<le> foldr max xs (0 :: int)"
  by (induction xs) auto

lemma foldr_min_nonpos: "foldr min xs (0 :: int) \<le> 0"
  by (induction xs) auto

lemma scan_init_orders:
  assumes "\<And>r n b. (r, Some n, b) \<in> set ds \<Longrightarrow> i64_min < n \<and> n < i64_max"
  shows "(r, Some n, b) \<in> set ds \<Longrightarrow>
      fq_next_forefront_order (scan_init ds) < n \<and> n < fq_next_order (scan_init ds)"
    and "i64_min \<le> fq_next_forefront_order (scan_init ds)" and "fq_next_order (scan_init ds) \<le> i64_max"
    and "fq_next_forefront_order (scan_init ds) < fq_next_order (scan_init ds)"
proof -
  have up: "max_normal ds < i64_max"
    using assms unfolding max_normal_def
    by (intro le_less_trans [OF foldr_max_le [where b = "i64_max - 1"]]) (force simp: i64_max_def)+
  have lo: "i64_min < min_forefront ds"
    using assms unfolding min_forefront_def
    by (intro less_le_trans [OF _ foldr_min_ge [where b = "i64_min + 1"]]) (force simp: i64_min_def)+
  have "0 \<le> max_normal ds" "min_forefront ds \<le> 0"
    unfolding max_normal_def min_forefront_def by (intro foldr_max_nonneg foldr_min_nonpos)+
  note b = up lo this
  show "i64_min \<le> fq_next_forefront_order (scan_init ds)" "fq_next_order (scan_init ds) \<le> i64_max"
    "fq_next_forefront_order (scan_init ds) < fq_next_order (scan_init ds)"
    using b by (auto simp: scan_init_def fs_empty_def i64_min_def i64_max_def)
  assume d: "(r, Some n, b) \<in> set ds"
  have "n \<le> max_normal ds" if "0 < n" using d that unfolding max_normal_def
    by (intro foldr_max_ge) force
  moreover have "min_forefront ds \<le> n" if "n < 0" using d that unfolding min_forefront_def
    by (intro foldr_min_le) force
  ultimately show "fq_next_forefront_order (scan_init ds) < n \<and> n < fq_next_order (scan_init ds)"
    using b by (cases "n < 0"; cases "n = 0") (auto simp: scan_init_def fs_empty_def i64_min_def i64_max_def)
qed

section \<open>Recovery\<close>

definition recovered :: "key_status option \<Rightarrow> key_status option" where
  "recovered s = (case s of Some (Leased _) \<Rightarrow> Some Pending | _ \<Rightarrow> s)"

lemma mem_pending_of: "(n, i) \<in> set (pending_of ds) \<longleftrightarrow> (\<exists>r b. (r, Some n, b) \<in> set ds \<and> req_id r = i)"
proof (induction ds)
  case (Cons d ds)
  obtain r ord b where d: "d = (r, ord, b)" by (cases d)
  have "pending_of (d # ds) = (case ord of Some n \<Rightarrow> (n, req_id r) # pending_of ds | None \<Rightarrow> pending_of ds)"
    by (simp add: d pending_of_def List.map_filter_def split: option.splits)
  then show ?case using Cons.IH by (auto simp: d split: option.splits)
qed (simp add: pending_of_def List.map_filter_def)

lemma decoded_maps:
  assumes inv: "fs_inv X q" and perm: "mset ds = mset (disk_decoded q)"
  shows "map_of (requests_of ds) = map_of (fq_requests q)"
    and "map_of (dedup_of ds) = map_of (fq_dedup q)"
    and "map_of (pending_of ds) n = Some i \<longleftrightarrow>
      (\<exists>sr. map_of (fq_requests q) i = Some sr \<and> sr_order_no sr = Some n)"
    and "handled_of ds = card (handled_ids q)"
proof -
  note dist = decoded_distinct [OF inv perm]
  have set: "set ds = set (disk_decoded q)" using perm by (rule mset_eq_setD)
  note mem = disk_decoded_set [OF inv, folded set]
  have R: "map_of (requests_of ds) i = Some sr \<longleftrightarrow> map_of (fq_requests q) i = Some sr" for i sr
  proof -
    have "map_of (requests_of ds) i = Some sr \<longleftrightarrow> (i, sr) \<in> set (requests_of ds)"
      using dist(1) by simp
    also have "\<dots> \<longleftrightarrow> (\<exists>b. req_id (sr_request sr) = i \<and> (sr_request sr, sr_order_no sr, b) \<in> set ds)"
      by (cases sr) (force simp: requests_of_def)
    also have "\<dots> \<longleftrightarrow> map_of (fq_requests q) i = Some sr"
      using fs_stored(1) [OF inv, of i sr] by (auto simp: mem)
    finally show ?thesis .
  qed
  then show Re: "map_of (requests_of ds) = map_of (fq_requests q)" by (intro ext) (metis not_None_eq)
  have "map_of (dedup_of ds) k = Some (i, h) \<longleftrightarrow> map_of (fq_dedup q) k = Some (i, h)" for k i h
  proof -
    have "map_of (dedup_of ds) k = Some (i, h) \<longleftrightarrow> (k, i, h) \<in> set (dedup_of ds)"
      using dist(2) by simp
    also have "\<dots> \<longleftrightarrow> (\<exists>sr. map_of (fq_requests q) i = Some sr \<and> req_unique_key (sr_request sr) = k
        \<and> h = (sr_order_no sr = None))"
    proof
      assume "(k, i, h) \<in> set (dedup_of ds)"
      then obtain r ord b where "(r, ord, b) \<in> set ds" "k = req_unique_key r" "i = req_id r" "h = (ord = None)"
        by (auto simp: dedup_of_def)
      with mem show "\<exists>sr. map_of (fq_requests q) i = Some sr \<and> req_unique_key (sr_request sr) = k
        \<and> h = (sr_order_no sr = None)" by force
    next
      assume "\<exists>sr. map_of (fq_requests q) i = Some sr \<and> req_unique_key (sr_request sr) = k
        \<and> h = (sr_order_no sr = None)"
      then obtain sr where "map_of (fq_requests q) i = Some sr" "req_unique_key (sr_request sr) = k"
        "h = (sr_order_no sr = None)" by blast
      moreover from this fs_stored(1) [OF inv] mem have "(sr_request sr, sr_order_no sr, False) \<in> set ds"
        by simp
      ultimately show "(k, i, h) \<in> set (dedup_of ds)"
        using fs_stored(1) [OF inv] by (force simp: dedup_of_def)
    qed
    also have "\<dots> \<longleftrightarrow> map_of (fq_dedup q) k = Some (i, h)"
    proof
      assume d: "map_of (fq_dedup q) k = Some (i, h)"
      then obtain sr where sr: "map_of (fq_requests q) i = Some sr" "req_unique_key (sr_request sr) = k"
        using inv unfolding fs_inv_def fs_index_def by blast
      with fs_stored(2) [OF inv sr(1)] d show "\<exists>sr. map_of (fq_requests q) i = Some sr
        \<and> req_unique_key (sr_request sr) = k \<and> h = (sr_order_no sr = None)" by auto
    qed (use fs_stored(2) [OF inv] in blast)
    finally show ?thesis .
  qed
  then show "map_of (dedup_of ds) = map_of (fq_dedup q)" by (intro ext) (metis not_None_eq surj_pair)
  have "map_of (pending_of ds) n = Some i \<longleftrightarrow> (n, i) \<in> set (pending_of ds)" using dist(3) by simp
  also have "\<dots> \<longleftrightarrow> (\<exists>r b. (r, Some n, b) \<in> set ds \<and> req_id r = i)" by (rule mem_pending_of)
  also have "\<dots> \<longleftrightarrow> (\<exists>sr. map_of (fq_requests q) i = Some sr \<and> sr_order_no sr = Some n)"
  proof
    assume "\<exists>r b. (r, Some n, b) \<in> set ds \<and> req_id r = i"
    then show "\<exists>sr. map_of (fq_requests q) i = Some sr \<and> sr_order_no sr = Some n" by (auto simp: mem)
  next
    assume "\<exists>sr. map_of (fq_requests q) i = Some sr \<and> sr_order_no sr = Some n"
    then obtain sr where "map_of (fq_requests q) i = Some sr" "sr_order_no sr = Some n" by blast
    then have "(sr_request sr, Some n, False) \<in> set ds \<and> req_id (sr_request sr) = i"
      using fs_stored(1) [OF inv, of i sr] by (cases sr) (auto simp: mem)
    then show "\<exists>r b. (r, Some n, b) \<in> set ds \<and> req_id r = i" by blast
  qed
  finally show "map_of (pending_of ds) n = Some i \<longleftrightarrow>
      (\<exists>sr. map_of (fq_requests q) i = Some sr \<and> sr_order_no sr = Some n)" .
  have "handled_of ds = length (filter (\<lambda>p. sr_order_no (snd p) = None) (requests_of ds))"
    unfolding handled_of_def requests_of_def by (induction ds) auto
  also have "\<dots> = card (fst ` set (filter (\<lambda>p. sr_order_no (snd p) = None) (requests_of ds)))"
    using distinct_fst_filter [OF dist(1), of "\<lambda>p. sr_order_no (snd p) = None"] distinct_card
    by (metis length_map list.set_map)
  also have "fst ` set (filter (\<lambda>p. sr_order_no (snd p) = None) (requests_of ds)) = handled_ids q"
    using dist(1) unfolding handled_ids_def Re [symmetric] by force
  finally show "handled_of ds = card (handled_ids q)" .
qed

lemma fs_recover:
  assumes inv: "fs_inv X q" and perm: "mset (List.map_filter id files) = mset (disk_decoded q)"
  obtains q' where "scan_queue files = Inr q'" and "fs_inv X (q'\<lparr>fq_disk := fq_disk q\<rparr>)"
    and "map_of (fq_requests q') = map_of (fq_requests q)" and "map_of (fq_dedup q') = map_of (fq_dedup q)"
    and "\<And>n i. map_of (fq_pending q') n = Some i \<longleftrightarrow>
      (\<exists>sr. map_of (fq_requests q) i = Some sr \<and> sr_order_no sr = Some n)"
    and "fq_leases q' = []"
proof -
  let ?ds = "List.map_filter id files"
  note dist = decoded_distinct [OF inv perm] and maps = decoded_maps [OF inv perm]
  have set: "set ?ds = set (disk_decoded q)" using perm by (rule mset_eq_setD)
  note mem = disk_decoded_set [OF inv, folded set]
  have i0: "fq_pending (scan_init ?ds) = []" "fq_dedup (scan_init ?ds) = []" "fq_requests (scan_init ?ds) = []"
    "fq_leases (scan_init ?ds) = []" "fq_handled_count (scan_init ?ds) = 0"
    by (simp_all add: scan_init_def fs_empty_def)
  from scan_closed [of ?ds "scan_init ?ds"] mem dist obtain c where
    c: "fold_result scan_one ?ds (scan_init ?ds) = Inr ((scan_init ?ds)\<lparr>fq_pending := pending_of ?ds,
      fq_dedup := dedup_of ?ds, fq_requests := requests_of ?ds, fq_handled_count := c\<rparr>)"
    "unat c = min (2 ^ 64 - 1) (handled_of ?ds)" by (auto simp: i0)
  let ?q = "(scan_init ?ds)\<lparr>fq_pending := pending_of ?ds,
      fq_dedup := dedup_of ?ds, fq_requests := requests_of ?ds, fq_handled_count := c\<rparr>"
  let ?r = "?q\<lparr>fq_disk := fq_disk q\<rparr>"
  have ord: "fq_next_forefront_order q < n \<and> n < fq_next_order q"
    if "map_of (fq_requests q) i = Some sr" "sr_order_no sr = Some n" for i sr n
    using that inv unfolding fs_inv_def fs_orders_def by blast
  have lim: "i64_min < n \<and> n < i64_max" if "(r, Some n, b) \<in> set ?ds" for r n b
    using that ord [of "req_id r" "\<lparr>sr_request = r, sr_order_no = Some n\<rparr>" n] inv
    by (auto simp: mem fs_inv_def fs_keys_def)
  have so: "(r, Some n, b) \<in> set ?ds \<Longrightarrow>
      fq_next_forefront_order (scan_init ?ds) < n \<and> n < fq_next_order (scan_init ?ds)"
    "i64_min \<le> fq_next_forefront_order (scan_init ?ds)" "fq_next_order (scan_init ?ds) \<le> i64_max"
    "fq_next_forefront_order (scan_init ?ds) < fq_next_order (scan_init ?ds)" for r n b
    using scan_init_orders [of ?ds] lim by blast+
  have "fs_keys ?r" using dist so(2-4) inv by (simp add: fs_inv_def fs_keys_def i0)
  moreover have "fs_index ?r" "fs_files X ?r"
    using inv by (simp_all add: fs_inv_def fs_index_def fs_files_def maps)
  moreover have "fs_places ?r" by (simp add: fs_places_def maps i0)
  moreover have "fs_orders ?r"
    unfolding fs_orders_def
  proof (intro conjI allI impI)
    fix i sr n assume "map_of (fq_requests ?r) i = Some sr" "sr_order_no sr = Some n"
    then have s: "map_of (fq_requests q) i = Some sr" "sr_order_no sr = Some n" by (simp_all add: maps)
    then have "(sr_request sr, Some n, False) \<in> set ?ds" using fs_stored(1) [OF inv s(1)]
      by (cases sr) (simp add: mem)
    from so(1) [OF this] show "fq_next_forefront_order ?r < n" "n < fq_next_order ?r" by simp_all
    show "map_of (fq_pending ?r) n = Some i \<or> (\<exists>l t. map_of (fq_leases ?r) l = Some (i, t))"
      using s maps(3) by simp
  next
    fix i j sr sr' n assume "map_of (fq_requests ?r) i = Some sr" "map_of (fq_requests ?r) j = Some sr'"
      "sr_order_no sr = Some n" "sr_order_no sr' = Some n"
    then show "i = j" using inv by (auto simp: maps fs_inv_def fs_orders_def)
  qed
  moreover have "fs_count ?r" using c(2) maps(4) by (simp add: fs_count_def handled_ids_def maps(1))
  ultimately have "fs_inv X ?r" by (simp add: fs_inv_def)
  then show thesis using c(1) maps
    by (intro that [of ?q]) (simp_all add: scan_queue_def Let_def i0)
qed

section \<open>Runs with failing writes\<close>

text \<open>
  Every operation, with any outcome of its file writes (\<open>E\<close> may differ at each step) and any
  result, errors included. Only an exhausted lease counter is excluded from \<open>fetch_next\<close>.
\<close>

inductive fs_step :: "('u, 'j) externals \<Rightarrow> ('u, 'j) fs_queue \<Rightarrow> ('u, 'j) fs_queue \<Rightarrow> bool" for X where
  add: "fs_admissible r q \<Longrightarrow> fs_add_locked X E r opts q = (res, q') \<Longrightarrow> fs_step X q q'"
| fetch: "fs_fetch_next now q = (Inr lo, q') \<Longrightarrow> fs_step X q q'"
| handled: "fs_owned X l q \<Longrightarrow> fs_mark_handled X E l q = (res, q') \<Longrightarrow> fs_step X q q'"
| reclaim: "fs_owned X l q \<Longrightarrow> fs_reclaim X E l ro q = (res, q') \<Longrightarrow> fs_step X q q'"
| abandon: "fs_owned X l q \<Longrightarrow> fs_abandon X E l q = (res, q') \<Longrightarrow> fs_step X q q'"
| renew: "fs_renew now i d q = (res, q') \<Longrightarrow> fs_step X q q'"

inductive_cases fs_step_E: "fs_step X q q'"

text \<open>An order number that was taken but not used only widens the allocated range.\<close>

lemma fs_inv_take_order:
  assumes inv: "fs_inv X q" and t: "take_order ff q = Inr (n, q1)"
  shows "fs_inv X q1 \<and> fs_status q1 = fs_status q"
proof -
  from take_order_spec [OF t fs_inv_keys [OF inv]] obtain a b where
    q1: "q1 = q\<lparr>fq_next_order := a, fq_next_forefront_order := b\<rparr>"
    and ab: "b \<le> fq_next_forefront_order q" "fq_next_order q \<le> a" "b < n" "n < a"
    and lim: "i64_min \<le> b" "a \<le> i64_max" by blast
  have "fs_orders q1"
    using inv ab unfolding fs_inv_def fs_orders_def by (simp add: q1) (meson le_less_trans less_le_trans)
  moreover have "fs_keys q1" using inv ab(3,4) lim by (simp add: fs_inv_def fs_keys_def q1)
  moreover have "fs_index q1" "fs_places q1" "fs_count q1" "fs_files X q1"
    using inv by (simp_all add: fs_inv_def fs_index_def fs_places_def fs_count_def handled_ids_def fs_files_def q1)
  ultimately have inv1: "fs_inv X q1" by (simp add: fs_inv_def)
  have "fs_status q1 k = fs_status q k" for k by (rule fs_status_frame [OF inv inv1]) (simp_all add: q1)
  then show ?thesis using inv1 by auto
qed

lemma fs_requeue_error:
  assumes "fs_inv X q" and "fs_requeue X E l ff inc q = (Inl e, q')"
  shows "fs_inv X q' \<and> fs_status q' = fs_status q"
  using assms fs_inv_take_order [OF assms(1), of ff]
  by (auto simp: fs_requeue_def Let_def split: sum.splits option.splits prod.splits)

lemma fs_step_cases:
  assumes "fs_step X q q'" and "fs_inv X q"
  shows "fs_inv X q' \<and> (spec_expire (fs_status q) (fs_status q') \<or> (\<exists>E. fs.client_step X E q q'))"
  using assms
proof (induction rule: fs_step.induct)
  case (add r q E opts res q')
  show ?case
  proof (cases res)
    case (Inl e)
    then have "q' = q \<or> (\<exists>n. take_order (add_forefront opts) q = Inr (n, q'))"
      using add.hyps(2) by (auto simp: fs_add_locked_def Let_def split: sum.splits option.splits prod.splits)
    then show ?thesis using fs_inv_take_order [OF add.prems] add.prems by auto
  next
    case (Inr info)
    then have "fs.client_step X E q q'"
      using add.hyps by (intro fs.client_step.add [where r = r and opts = opts and info = info]) (simp_all add: fs_ops_def)
    then show ?thesis using fs.client_step_invar add.prems by blast
  qed
next
  case (fetch now q lo q')
  then have "fs.client_step X E q q'" for E
    by (intro fs.client_step.fetch [where now = now and lo = lo]) (simp_all add: fs_ops_def)
  then show ?case using fs.client_step_invar fetch.prems by blast
next
  case (handled l q E res q')
  show ?case
  proof (cases res)
    case (Inl e)
    then have "q' = q" using handled.hyps(2)
      by (auto simp: fs_mark_handled_def Let_def split: sum.splits option.splits)
    then show ?thesis using handled.prems by simp
  next
    case (Inr u)
    then have "fs.client_step X E q q'"
      using handled.hyps by (intro fs.client_step.handled [where l = l]) (simp_all add: fs_ops_def)
    then show ?thesis using fs.client_step_invar handled.prems by blast
  qed
next
  case (reclaim l q E ro res q')
  show ?case
  proof (cases res)
    case (Inl e)
    then show ?thesis using reclaim fs_requeue_error [of X q E l _ _ e q'] by (auto simp: fs_reclaim_def)
  next
    case (Inr u)
    then have "fs.client_step X E q q'"
      using reclaim.hyps by (intro fs.client_step.reclaim [where l = l and ro = ro]) (simp_all add: fs_ops_def)
    then show ?thesis using fs.client_step_invar reclaim.prems by blast
  qed
next
  case (abandon l q E res q')
  show ?case
  proof (cases res)
    case (Inl e)
    then show ?thesis using abandon fs_requeue_error [of X q E l _ _ e q'] by (auto simp: fs_abandon_def)
  next
    case (Inr u)
    then have "fs.client_step X E q q'"
      using abandon.hyps by (intro fs.client_step.abandon [where l = l]) (simp_all add: fs_ops_def)
    then show ?thesis using fs.client_step_invar abandon.prems by blast
  qed
next
  case (renew now i d q res q')
  show ?case
  proof (cases res)
    case (Inl e)
    then have "q' = q \<or> q' = release_lease i q" using renew.hyps
      by (auto simp: fs_renew_def split: option.splits if_splits)
    then show ?thesis using renew.prems fs_release by auto
  next
    case (Inr u)
    then show ?thesis using renew fs_renew_ok by force
  qed
qed

lemma fs_run_keeps:
  assumes "(fs_step X)\<^sup>*\<^sup>* q q'" and "fs_inv X q"
  shows "fs_inv X q' \<and> dom (fs_status q) \<subseteq> dom (fs_status q')
    \<and> (\<forall>k. fs_status q k = Some Handled \<longrightarrow> fs_status q' k = Some Handled)"
  using assms
proof (induction rule: rtranclp_induct)
  case (step y z)
  then have y: "fs_inv X y" "dom (fs_status q) \<subseteq> dom (fs_status y)"
    "\<forall>k. fs_status q k = Some Handled \<longrightarrow> fs_status y k = Some Handled" by blast+
  from fs_step_cases [OF step.hyps(2) y(1)] have "fs_inv X z" by blast
  moreover from fs_step_cases [OF step.hyps(2) y(1)]
  have "dom (fs_status y) \<subseteq> dom (fs_status z) \<and> (\<forall>k. fs_status y k = Some Handled \<longrightarrow> fs_status z k = Some Handled)"
    using fs.client_step_keeps [OF _ y(1)] spec_expire_dom spec_expire_handled by blast
  ultimately show ?case using y by blast
qed simp

section \<open>Properties\<close>


definition fs_sample_env :: fs_env where
  "fs_sample_env = \<lparr>fe_write = (\<lambda>i _. if i = RequestId ''k2'' then Some (Backend (anyhow_msg ''disk full'')) else None),
     fe_cache = True\<rparr>"

definition fs_request :: "string \<Rightarrow> string \<Rightarrow> (string, string) request" where
  "fs_request u k = (sample_request u k)\<lparr>req_id := RequestId k\<rparr>"

definition fs_sample :: "(string, string) fs_queue" where
  "fs_sample = snd (fs_add_locked sample_externals fs_sample_env (fs_request ''https://a/1'' ''k1'')
     \<lparr>add_forefront = False\<rparr> fs_empty)"

definition fs_sample_failed :: "(string, string) fs_queue" where
  "fs_sample_failed = snd (fs_add_locked sample_externals fs_sample_env (fs_request ''https://a/2'' ''k2'')
     \<lparr>add_forefront = True\<rparr> fs_sample)"

definition fs_sample_leased :: "(string, string) fs_queue" where
  "fs_sample_leased = snd (fs_fetch_next 0 fs_sample)"

definition fs_sample_lease :: "(string, string) lease" where
  "fs_sample_lease = \<lparr>lease_request = fs_request ''https://a/1'' ''k1'', lease_id = 0, lease_expires_at = LEASE_TTL\<rparr>"

lemmas fs_sample_eval = fs_sample_def fs_sample_failed_def fs_sample_leased_def fs_sample_lease_def
  fs_sample_env_def fs_request_def sample_request_def fs_add_locked_def fs_empty_def take_order_def
  write_request_def write_cache_best_effort_def fs_fetch_next_def reclaim_expired_def
  btree_pop_first_def i64_min_def i64_max_def Let_def

lemma fs_sample_step: "fs_step sample_externals fs_empty fs_sample"
  unfolding fs_sample_def
  by (rule fs_step.add [OF _ prod.collapse [symmetric]]) (simp add: fs_admissible_def fs_empty_def)

lemma fs_sample_failed_step: "fs_step sample_externals fs_sample fs_sample_failed"
  unfolding fs_sample_failed_def
  by (rule fs_step.add [OF _ prod.collapse [symmetric]]) (simp add: fs_admissible_def fs_sample_eval)

lemma fs_sample_fetch: "fs_fetch_next 0 fs_sample = (Inr (Some fs_sample_lease), fs_sample_leased)"
  by (simp add: fs_sample_eval)

lemma fs_sample_inv: "fs_inv sample_externals fs_sample" "fs_inv sample_externals fs_sample_leased"
proof -
  show i: "fs_inv sample_externals fs_sample"
    using fs_step_cases [OF fs_sample_step] by simp
  show "fs_inv sample_externals fs_sample_leased"
    using fs_step_cases [OF fs_step.fetch [OF fs_sample_fetch] i] by blast
qed


text \<open>
  C8. Durability: opening the queue again from its files, in whatever order they are listed and
  with undecodable files among them, succeeds, satisfies the invariant with those files, and keeps
  every key with its status; the keys that were leased are pending again. Every unhandled request
  is pending under the order number it had, so the order of the queue survives too.
\<close>

theorem fs_recovery:
  assumes "fs_inv X q" and "mset (List.map_filter id files) = mset (disk_decoded q)"
  shows "\<exists>q'. scan_queue files = Inr q' \<and> fs_inv X (q'\<lparr>fq_disk := fq_disk q\<rparr>)
    \<and> (\<forall>k. fs_status q' k = recovered (fs_status q k))
    \<and> (\<forall>n i. map_of (fq_pending q') n = Some i \<longleftrightarrow>
        (\<exists>sr. map_of (fq_requests q) i = Some sr \<and> sr_order_no sr = Some n))"
proof -
  obtain q' where q': "scan_queue files = Inr q'"
    "fs_inv X (q'\<lparr>fq_disk := fq_disk q\<rparr>)" "map_of (fq_requests q') = map_of (fq_requests q)"
    "map_of (fq_dedup q') = map_of (fq_dedup q)"
    "\<And>n i. map_of (fq_pending q') n = Some i \<longleftrightarrow>
      (\<exists>sr. map_of (fq_requests q) i = Some sr \<and> sr_order_no sr = Some n)" "fq_leases q' = []"
    by (rule fs_recover [OF assms]) blast
  have "lease_for q' i = None" for i by (simp add: lease_for_def q'(6))
  then have "fs_status q' k = recovered (fs_status q k)" for k
    by (auto simp: fs_status_def recovered_def q'(4) split: option.splits)
  with q' show ?thesis by blast
qed

theorem fs_recovery_witness:
  "fs_status fs_sample_leased ''k1'' = Some (Leased 0)
   \<and> (\<exists>q'. scan_queue [None, Some (fs_request ''https://a/1'' ''k1'', Some 1, False)] = Inr q'
        \<and> fs_status q' ''k1'' = Some Pending \<and> map_of (fq_pending q') 1 = Some (RequestId ''k1''))"
proof -
  have "mset (List.map_filter id [None, Some (fs_request ''https://a/1'' ''k1'', Some 1, False)])
    = mset (disk_decoded fs_sample_leased)"
    by (simp add: List.map_filter_simps disk_decoded_def fs_sample_eval envelope_of_def)
  note r = fs_recovery [OF fs_sample_inv(2) this]
  moreover have s: "fs_status fs_sample_leased ''k1'' = Some (Leased 0)"
    by (simp add: fs_status_def lease_for_def fs_sample_eval)
  moreover have "map_of (fq_requests fs_sample_leased) (RequestId ''k1'')
      = Some \<lparr>sr_request = fs_request ''https://a/1'' ''k1'', sr_order_no = Some 1\<rparr>"
    by (simp add: fs_sample_eval)
  ultimately show ?thesis by (fastforce simp: recovered_def)
qed

text \<open>
  First in, first out: \<open>fetch_next\<close> leases a request for \<open>LEASE_TTL\<close> whose order number is
  below that of every request that stays pending, and what it hands out is what the index stores.
\<close>

theorem fs_fetch_order:
  assumes "fs_inv X q" and "fs_fetch_next now q = (Inr (Some l), q')"
  shows "\<exists>sr n. map_of (fq_requests q') (req_id (lease_request l)) = Some sr
    \<and> lease_request l = sr_request sr \<and> sr_order_no sr = Some n
    \<and> map_of (fq_leases q') (lease_id l) = Some (req_id (lease_request l), now + LEASE_TTL)
    \<and> lease_expires_at l = now + LEASE_TTL
    \<and> (\<forall>n' i. map_of (fq_pending q') n' = Some i \<longrightarrow> n < n')"
proof -
  let ?q = "reclaim_expired now q"
  have inv: "fs_inv X ?q" using fs_reclaim_expired [OF assms(1)] by blast
  from fs_fetch_cases [OF assms] obtain n i sr where
    l: "l = \<lparr>lease_request = sr_request sr, lease_id = fq_next_lease_id ?q, lease_expires_at = now + LEASE_TTL\<rparr>"
    and n: "map_of (fq_pending ?q) n = Some i" "\<forall>n' v'. map_of (fq_pending ?q) n' = Some v' \<longrightarrow> n \<le> n'"
    and sr: "map_of (fq_requests ?q) i = Some sr"
    and q': "q' = ?q\<lparr>fq_pending := AList.delete n (fq_pending ?q), fq_next_lease_id := fq_next_lease_id ?q + 1,
              fq_leases := AList.update (fq_next_lease_id ?q) (i, now + LEASE_TTL) (fq_leases ?q)\<rparr>"
    by auto
  have "sr_order_no sr = Some n" using inv n(1) sr unfolding fs_inv_def fs_places_def by force
  moreover have "n < n'" if "map_of (fq_pending q') n' = Some j" for n' j
    using that n(2) by (cases "n = n'") (fastforce simp: q')+
  ultimately show ?thesis using l sr fs_stored(1) [OF inv sr] by (auto simp: q')
qed

theorem fs_fetch_order_witness:
  "fs_inv sample_externals fs_sample \<and> fs_fetch_next 0 fs_sample = (Inr (Some fs_sample_lease), fs_sample_leased)
   \<and> map_of (fq_leases fs_sample_leased) 0 = Some (RequestId ''k1'', LEASE_TTL)"
proof -
  have "req_id (lease_request fs_sample_lease) = RequestId ''k1''" "lease_id fs_sample_lease = 0"
    by (simp_all add: fs_sample_lease_def fs_request_def)
  then show ?thesis using fs_sample_inv(1) fs_sample_fetch fs_fetch_order [OF fs_sample_inv(1) fs_sample_fetch]
    by auto
qed

definition collide :: "(string, string) fs_queue" where
  "collide = snd (fs_add_locked sample_externals \<lparr>fe_write = (\<lambda>_ _. None), fe_cache = True\<rparr>
     ((fs_request ''https://a/2'' ''k2'')\<lparr>req_id := RequestId ''k1''\<rparr>) \<lparr>add_forefront = False\<rparr> fs_sample)"

text \<open>
  Requests are indexed by identifier and an insertion does not look for a stored request
  with the same identifier: adding two requests with different unique keys and one identifier
  overwrites the first one, and the second is handed out twice while the first never is.
\<close>

theorem fs_identifier_collision:
  "\<exists>l1 q1 l2 q2. fs_fetch_next 0 collide = (Inr (Some l1), q1) \<and> fs_fetch_next 0 q1 = (Inr (Some l2), q2)
     \<and> req_unique_key (lease_request l1) = ''k2'' \<and> req_unique_key (lease_request l2) = ''k2''
     \<and> fq_pending q2 = [] \<and> map_of (fq_dedup q2) ''k1'' = Some (RequestId ''k1'', False)"
  by (simp add: collide_def fs_sample_eval LEASE_TTL_def secs_def)

end
