(* ===== verification/Session_Pool.thy ===== *)
theory Session_Pool
  imports Errors
begin

text \<open>
  Sessions and the session pool (\<open>millipede-core/src/session.rs\<close>) with the process-wide random
  state (\<open>util.rs\<close>). A session is shared (\<open>Arc<Session>\<close>) between the pool and the attempts that
  use it, so sessions live in a store and the pool holds addresses; an address handed out stays
  valid after the pool dropped it. The cookie jar (the \<open>cookie_store\<close> crate) is a parameter with
  its two JSON conversions. Wall-clock times are numbers of nanoseconds.
\<close>

section \<open>Random numbers\<close>

definition rand_u64 :: "u64 \<Rightarrow> u64 \<times> u64" where
  "rand_u64 st =
     (let st' = st + 0x9e3779b97f4a7c15;
          v1 = (st' XOR drop_bit 30 st') * 0xbf58476d1ce4e5b9;
          v2 = (v1 XOR drop_bit 27 v1) * 0x94d049bb133111eb
      in (v2 XOR drop_bit 31 v2, st'))"

section \<open>Sessions\<close>

record session_config =
  max_error_score_scaled :: u32
  error_score_decrement_scaled :: u32
  max_usage_count :: u32
  max_age :: duration

definition session_config_default :: session_config where
  "session_config_default = \<lparr>max_error_score_scaled = 3000, error_score_decrement_scaled = 500,
     max_usage_count = 50, max_age = secs 3000\<rparr>"

record ('c, 'j) session =
  sess_id :: string
  sess_cookies :: 'c
  sess_user_data :: "'j user_data"
  sess_error_score_scaled :: u32
  sess_usage_count :: u32
  sess_retired :: bool
  sess_expires_at :: wall_time
  sess_config :: session_config

text \<open>The cookie jar: a new jar, \<open>to_json\<close> and \<open>from_json\<close> (\<open>Inl\<close> the text of the error).\<close>

record 'c jar_ops =
  jar_new :: 'c
  jar_to_json :: "'c \<Rightarrow> string + string"
  jar_from_json :: "string \<Rightarrow> string + 'c"

definition session_id_generate :: "u64 \<Rightarrow> string \<times> u64" where
  "session_id_generate rng = (let (v, rng') = rand_u64 rng in (''session-'' @ hex16 v, rng'))"

definition session_new :: "'c jar_ops \<Rightarrow> wall_time \<Rightarrow> session_config \<Rightarrow> u64 \<Rightarrow> ('c, 'j) session \<times> u64" where
  "session_new J now config rng =
     (let (i, rng') = session_id_generate rng in
      (\<lparr>sess_id = i, sess_cookies = jar_new J, sess_user_data = [], sess_error_score_scaled = 0,
         sess_usage_count = 0, sess_retired = False,
         sess_expires_at = now + int (max_age config), sess_config = config\<rparr>, rng'))"

definition record_usage :: "('c, 'j) session \<Rightarrow> ('c, 'j) session" where
  "record_usage s = s\<lparr>sess_usage_count := sat_add (sess_usage_count s) 1\<rparr>"

definition is_blocked :: "('c, 'j) session \<Rightarrow> bool" where
  "is_blocked s = (max_error_score_scaled (sess_config s) \<le> sess_error_score_scaled s)"

definition is_expired :: "wall_time \<Rightarrow> ('c, 'j) session \<Rightarrow> bool" where
  "is_expired now s = (sess_expires_at s \<le> now)"

definition is_usable :: "wall_time \<Rightarrow> ('c, 'j) session \<Rightarrow> bool" where
  "is_usable now s = (\<not> sess_retired s \<and> \<not> is_expired now s
     \<and> sess_error_score_scaled s < max_error_score_scaled (sess_config s)
     \<and> sess_usage_count s < max_usage_count (sess_config s))"

definition mark_good :: "('c, 'j) session \<Rightarrow> ('c, 'j) session" where
  "mark_good s = s\<lparr>sess_error_score_scaled :=
     sat_sub (sess_error_score_scaled s) (error_score_decrement_scaled (sess_config s))\<rparr>"

definition mark_bad :: "('c, 'j) session \<Rightarrow> ('c, 'j) session" where
  "mark_bad s = s\<lparr>sess_error_score_scaled := sat_add (sess_error_score_scaled s) 1000\<rparr>"

definition retire :: "('c, 'j) session \<Rightarrow> ('c, 'j) session" where
  "retire s = s\<lparr>sess_retired := True\<rparr>"

section \<open>The pool\<close>

record session_pool_options =
  max_pool_size :: nat
  session_config :: session_config
  persist_state_key :: string

definition session_pool_options_default :: session_pool_options where
  "session_pool_options_default = \<lparr>max_pool_size = 1000, session_config = session_config_default,
     persist_state_key = ''SDK_SESSION_POOL_STATE''\<rparr>"

record persisted_session =
  ps_id :: string
  ps_cookies :: string
  ps_error_score_scaled :: u32
  ps_usage_count :: u32
  ps_retired :: bool
  ps_expires_at :: wall_time

text \<open>
  The pool with its store. \<open>sp_kvs\<close> is the attached key-value store, if any: what it holds under
  each key. \<open>sp_rng\<close> is the process-wide random state.
\<close>

record ('c, 'j) session_pool =
  sp_store :: "('c, 'j) session list"
  sp_sessions :: "nat list"
  sp_options :: session_pool_options
  sp_kvs :: "(string \<times> persisted_session list) list option"
  sp_rng :: u64

definition pool_new :: "session_pool_options \<Rightarrow> u64 \<Rightarrow> ('c, 'j) session_pool" where
  "pool_new options rng = \<lparr>sp_store = [], sp_sessions = [], sp_options = options, sp_kvs = None, sp_rng = rng\<rparr>"

definition attach_persistence ::
  "(string \<times> persisted_session list) list \<Rightarrow> ('c, 'j) session_pool \<Rightarrow> ('c, 'j) session_pool" where
  "attach_persistence kvs p = p\<lparr>sp_kvs := Some kvs\<rparr>"

text \<open>An update of a shared session through one of its handles.\<close>

definition on_session ::
  "(('c, 'j) session \<Rightarrow> ('c, 'j) session) \<Rightarrow> nat \<Rightarrow> ('c, 'j) session_pool \<Rightarrow> ('c, 'j) session_pool" where
  "on_session f a p = p\<lparr>sp_store := (sp_store p)[a := f (sp_store p ! a)]\<rparr>"

definition find_session :: "string \<Rightarrow> ('c, 'j) session_pool \<Rightarrow> nat option" where
  "find_session i p = find (\<lambda>a. sess_id (sp_store p ! a) = i) (sp_sessions p)"

definition pool_create ::
  "'c jar_ops \<Rightarrow> wall_time \<Rightarrow> bool \<Rightarrow> ('c, 'j) session_pool \<Rightarrow> nat \<times> ('c, 'j) session_pool" where
  "pool_create J now keep p =
     (let (s, rng) = session_new J now (session_config (sp_options p)) (sp_rng p);
          a = length (sp_store p)
      in (a, p\<lparr>sp_store := sp_store p @ [record_usage s], sp_rng := rng,
               sp_sessions := (if keep then sp_sessions p @ [a] else sp_sessions p)\<rparr>))"

definition pool_session ::
  "'c jar_ops \<Rightarrow> wall_time \<Rightarrow> string option \<Rightarrow> ('c, 'j) session_pool \<Rightarrow> nat \<times> ('c, 'j) session_pool" where
  "pool_session J now sticky p =
     (case Option.bind sticky (\<lambda>i. Option.bind (find_session i p)
            (\<lambda>a. if is_usable now (sp_store p ! a) then Some a else None)) of
        Some a \<Rightarrow> (a, on_session record_usage a p)
      | None \<Rightarrow>
          let p1 = p\<lparr>sp_sessions := filter (\<lambda>a. is_usable now (sp_store p ! a)) (sp_sessions p)\<rparr> in
          if length (sp_sessions p1) < max_pool_size (sp_options p1) then pool_create J now True p1
          else if sp_sessions p1 = [] then pool_create J now False p1
          else
            let (v, rng) = rand_u64 (sp_rng p1);
                a = sp_sessions p1 ! (unat v mod length (sp_sessions p1))
            in (a, on_session record_usage a (p1\<lparr>sp_rng := rng\<rparr>)))"

definition retire_session :: "string \<Rightarrow> ('c, 'j) session_pool \<Rightarrow> ('c, 'j) session_pool" where
  "retire_session i p = (case find_session i p of Some a \<Rightarrow> on_session retire a p | None \<Rightarrow> p)"

definition session_count :: "('c, 'j) session_pool \<Rightarrow> nat" where
  "session_count p = length (sp_sessions p)"

section \<open>Persistence\<close>

definition persist_one :: "'c jar_ops \<Rightarrow> ('c, 'j) session \<Rightarrow> crawl_error + persisted_session" where
  "persist_one J s =
     (case jar_to_json J (sess_cookies s) of
        Inl e \<Rightarrow> Inl (NonRetryable (anyhow_msg e))
      | Inr cookies \<Rightarrow> Inr \<lparr>ps_id = sess_id s, ps_cookies = cookies,
          ps_error_score_scaled = sess_error_score_scaled s, ps_usage_count = sess_usage_count s,
          ps_retired = sess_retired s, ps_expires_at = sess_expires_at s\<rparr>)"

fun collect_results :: "('e + 'a) list \<Rightarrow> 'e + 'a list" where
  "collect_results [] = Inr []"
| "collect_results (r # rs) =
     (case r of Inl e \<Rightarrow> Inl e
      | Inr x \<Rightarrow> (case collect_results rs of Inl e \<Rightarrow> Inl e | Inr xs \<Rightarrow> Inr (x # xs)))"

text \<open>\<open>failure\<close> is the error of the key-value store's \<open>set\<close> or \<open>get\<close>, if it fails.\<close>

definition pool_persist ::
  "'c jar_ops \<Rightarrow> storage_error option \<Rightarrow> ('c, 'j) session_pool
     \<Rightarrow> (crawl_error + unit) \<times> ('c, 'j) session_pool" where
  "pool_persist J failure p =
     (case sp_kvs p of
        None \<Rightarrow> (Inr (), p)
      | Some kvs \<Rightarrow>
     (case collect_results (map (\<lambda>a. persist_one J (sp_store p ! a)) (sp_sessions p)) of
        Inl e \<Rightarrow> (Inl e, p)
      | Inr persisted \<Rightarrow>
     (case failure of
        Some e \<Rightarrow> (Inl (Retry (anyhow_msg (storage_error_text e))), p)
      | None \<Rightarrow> (Inr (), p\<lparr>sp_kvs := Some (AList.update (persist_state_key (sp_options p)) persisted kvs)\<rparr>))))"

definition session_restored ::
  "'c jar_ops \<Rightarrow> session_config \<Rightarrow> persisted_session \<Rightarrow> crawl_error + ('c, 'j) session" where
  "session_restored J config v =
     (case jar_from_json J (ps_cookies v) of
        Inl e \<Rightarrow> Inl (NonRetryable (anyhow_msg e))
      | Inr cookies \<Rightarrow> Inr \<lparr>sess_id = ps_id v, sess_cookies = cookies, sess_user_data = [],
          sess_error_score_scaled = ps_error_score_scaled v, sess_usage_count = ps_usage_count v,
          sess_retired = ps_retired v, sess_expires_at = ps_expires_at v, sess_config = config\<rparr>)"

definition restored_sessions ::
  "'c jar_ops \<Rightarrow> session_config \<Rightarrow> persisted_session list \<Rightarrow> ('c, 'j) session list" where
  "restored_sessions J config ps =
     List.map_filter (\<lambda>v. case session_restored J config v of Inr s \<Rightarrow> Some s | Inl _ \<Rightarrow> None) ps"

definition pool_restore ::
  "'c jar_ops \<Rightarrow> storage_error option \<Rightarrow> ('c, 'j) session_pool
     \<Rightarrow> (crawl_error + unit) \<times> ('c, 'j) session_pool" where
  "pool_restore J failure p =
     (case sp_kvs p of
        None \<Rightarrow> (Inr (), p)
      | Some kvs \<Rightarrow>
     (case failure of
        Some e \<Rightarrow> (Inl (Retry (anyhow_msg (storage_error_text e))), p)
      | None \<Rightarrow>
     (case map_of kvs (persist_state_key (sp_options p)) of
        None \<Rightarrow> (Inr (), p)
      | Some ps \<Rightarrow>
          let restored = restored_sessions J (session_config (sp_options p)) ps in
          (Inr (), p\<lparr>sp_store := sp_store p @ restored,
             sp_sessions := [length (sp_store p) ..< length (sp_store p) + length restored]\<rparr>))))"

section \<open>Checking out a session\<close>

definition pool_inv :: "('c, 'j) session_pool \<Rightarrow> bool" where
  "pool_inv p \<longleftrightarrow> distinct (sp_sessions p) \<and> (\<forall>a \<in> set (sp_sessions p). a < length (sp_store p))"

lemma on_session_simps [simp]:
  "sp_sessions (on_session f a p) = sp_sessions p" "sp_options (on_session f a p) = sp_options p"
  "sp_kvs (on_session f a p) = sp_kvs p" "length (sp_store (on_session f a p)) = length (sp_store p)"
  "sp_store (on_session f a p) = (sp_store p)[a := f (sp_store p ! a)]"
  by (simp_all add: on_session_def)

lemma find_session_Some:
  "find_session i p = Some a \<Longrightarrow> a \<in> set (sp_sessions p) \<and> sess_id (sp_store p ! a) = i"
  by (auto simp: find_session_def find_Some_iff)

text \<open>What a checkout from \<open>p\<close> may do: serve a usable retained session, or a new one.\<close>

definition served_old :: "wall_time \<Rightarrow> nat \<Rightarrow> ('c, 'j) session_pool \<Rightarrow> ('c, 'j) session_pool \<Rightarrow> bool" where
  "served_old now a p p' \<longleftrightarrow> a \<in> set (sp_sessions p) \<and> is_usable now (sp_store p ! a)
     \<and> sp_store p' = (sp_store p)[a := record_usage (sp_store p ! a)]
     \<and> (\<exists>P. sp_sessions p' = filter P (sp_sessions p))"

definition served_new :: "wall_time \<Rightarrow> nat \<Rightarrow> ('c, 'j) session_pool \<Rightarrow> ('c, 'j) session_pool \<Rightarrow> bool" where
  "served_new now a p p' \<longleftrightarrow> a = length (sp_store p)
     \<and> (\<exists>s. sp_store p' = sp_store p @ [s] \<and> \<not> sess_retired s \<and> sess_usage_count s = 1
          \<and> sess_error_score_scaled s = 0 \<and> sess_config s = session_config (sp_options p)
          \<and> sess_expires_at s = now + int (max_age (session_config (sp_options p))))
     \<and> (\<exists>P. sp_sessions p' = filter P (sp_sessions p)
          \<or> sp_sessions p' = filter P (sp_sessions p) @ [a]
            \<and> length (filter P (sp_sessions p)) < max_pool_size (sp_options p))"

lemma pool_create_new:
  assumes "pool_create J now keep (p\<lparr>sp_sessions := filter P (sp_sessions p)\<rparr>) = (a, p')"
    and "keep \<Longrightarrow> length (filter P (sp_sessions p)) < max_pool_size (sp_options p)"
  shows "served_new now a p p' \<and> sp_options p' = sp_options p"
  using assms
  by (auto simp: pool_create_def session_new_def served_new_def record_usage_def sat_add_def Let_def
      split: prod.splits if_splits)

lemma pool_session_cases:
  assumes "pool_inv p" and "pool_session J now sticky p = (a, p')"
  shows "(served_old now a p p' \<or> served_new now a p p') \<and> sp_options p' = sp_options p"
proof (cases "Option.bind sticky (\<lambda>i. Option.bind (find_session i p)
            (\<lambda>a. if is_usable now (sp_store p ! a) then Some a else None))")
  case (Some b)
  then obtain i where "find_session i p = Some b" "is_usable now (sp_store p ! b)"
    by (auto simp: Option.bind_eq_Some_conv split: if_splits)
  moreover from this have "b \<in> set (sp_sessions p)" using find_session_Some by blast
  moreover have "a = b" "p' = on_session record_usage b p"
    using assms(2) Some by (auto simp: pool_session_def)
  moreover have "\<exists>P. sp_sessions p = filter P (sp_sessions p)" by (rule exI [of _ "\<lambda>_. True"]) simp
  ultimately show ?thesis by (simp add: served_old_def)
next
  case None
  let ?P = "\<lambda>a. is_usable now (sp_store p ! a)"
  let ?l = "filter ?P (sp_sessions p)"
  show ?thesis
  proof (cases "length ?l < max_pool_size (sp_options p) \<or> ?l = []")
    case True
    then obtain keep where "pool_create J now keep (p\<lparr>sp_sessions := ?l\<rparr>) = (a, p')"
      and "keep \<Longrightarrow> length ?l < max_pool_size (sp_options p)"
      using assms(2) None by (fastforce simp: pool_session_def Let_def split: if_splits)
    then show ?thesis using pool_create_new by blast
  next
    case False
    obtain v rng where r: "rand_u64 (sp_rng p) = (v, rng)" by (cases "rand_u64 (sp_rng p)")
    have p': "a = ?l ! (unat v mod length ?l)"
      "p' = on_session record_usage a (p\<lparr>sp_sessions := ?l, sp_rng := rng\<rparr>)"
      using assms(2) None False r by (auto simp: pool_session_def Let_def)
    have "unat v mod length ?l < length ?l" using False by (intro mod_less_divisor) simp
    then have "a \<in> set ?l" unfolding p'(1) by (rule nth_mem)
    then show ?thesis using p'(2) by (auto simp: served_old_def)
  qed
qed

lemma pool_session_inv:
  assumes "pool_inv p" and "pool_session J now sticky p = (a, p')"
  shows "pool_inv p'"
proof -
  have "distinct (sp_sessions p)" "\<forall>a \<in> set (sp_sessions p). a < length (sp_store p)"
    using assms(1) by (simp_all add: pool_inv_def)
  then show ?thesis using pool_session_cases [OF assms]
    by (auto simp: served_old_def served_new_def pool_inv_def less_Suc_eq)
qed

text \<open>
  A checkout never serves a retained session that is retired, expired, blocked or used up:
  it serves a usable one or a new one with a fresh score and lifetime, counts exactly this use,
  and leaves every other session as it was. The pool never grows beyond its configured size.
\<close>

theorem session_checkout:
  assumes "pool_inv p" and "pool_session J now sticky p = (a, p')"
  shows "(if a < length (sp_store p)
       then a \<in> set (sp_sessions p) \<and> is_usable now (sp_store p ! a)
         \<and> sp_store p' ! a = record_usage (sp_store p ! a)
       else a = length (sp_store p) \<and> \<not> sess_retired (sp_store p' ! a) \<and> sess_usage_count (sp_store p' ! a) = 1
         \<and> sess_error_score_scaled (sp_store p' ! a) = 0
         \<and> sess_expires_at (sp_store p' ! a) = now + int (max_age (session_config (sp_options p))))
    \<and> (\<forall>b < length (sp_store p). b \<noteq> a \<longrightarrow> sp_store p' ! b = sp_store p ! b)
    \<and> session_count p' \<le> max (session_count p) (max_pool_size (sp_options p))
    \<and> pool_inv p'"
proof -
  have v: "\<forall>a \<in> set (sp_sessions p). a < length (sp_store p)" using assms(1) by (simp add: pool_inv_def)
  have f: "length (filter P (sp_sessions p)) \<le> length (sp_sessions p)" for P by (rule length_filter_le)
  from pool_session_cases [OF assms] consider "served_old now a p p'" | "served_new now a p p'" by blast
  then show ?thesis
  proof cases
    case 1
    then show ?thesis using v f pool_session_inv [OF assms]
      by (auto simp: served_old_def session_count_def le_max_iff_disj)
  next
    case 2
    then have "session_count p' \<le> max (session_count p) (max_pool_size (sp_options p))"
      using f by (auto simp: served_new_def session_count_def le_max_iff_disj)
    then show ?thesis using 2 pool_session_inv [OF assms]
      by (auto simp: served_new_def nth_append)
  qed
qed

definition sample_jar :: "string jar_ops" where
  "sample_jar = \<lparr>jar_new = [], jar_to_json = Inr, jar_from_json = Inr\<rparr>"

definition sample_new :: "(string, string) session_pool" where
  "sample_new = pool_new session_pool_options_default 7"

definition sample_pool :: "(string, string) session_pool" where
  "sample_pool = snd (pool_session sample_jar 5 None sample_new)"

lemma pool_inv_new [simp]: "pool_inv (pool_new options rng)"
  by (simp add: pool_inv_def pool_new_def)

lemma sample_pool_inv: "pool_inv sample_pool"
  unfolding sample_pool_def sample_new_def by (rule pool_session_inv [OF pool_inv_new prod.collapse [symmetric]])

theorem session_checkout_witness:
  "pool_inv sample_new \<and> sess_usage_count (sp_store sample_pool ! 0) = 1 \<and> session_count sample_pool \<le> 1000"
proof -
  have "pool_inv sample_new" by (simp add: sample_new_def)
  moreover obtain a where "pool_session sample_jar 5 None sample_new = (a, sample_pool)"
    by (cases "pool_session sample_jar 5 None sample_new") (simp add: sample_pool_def)
  moreover have "sp_store sample_new = []" "session_count sample_new = 0" "max_pool_size (sp_options sample_new) = 1000"
    by (simp_all add: sample_new_def pool_new_def session_count_def session_pool_options_default_def)
  ultimately show ?thesis using session_checkout [of sample_new sample_jar 5 None a sample_pool] by auto
qed

section \<open>Runs of the pool\<close>

text \<open>
  The operations on the pool and on the sessions an attempt holds, in any order. \<open>update\<close> stands
  for the changes of cookies and user data.
\<close>

inductive pool_step :: "'c jar_ops \<Rightarrow> ('c, 'j) session_pool \<Rightarrow> ('c, 'j) session_pool \<Rightarrow> bool" for J where
  checkout: "pool_session J now sticky p = (a, p') \<Longrightarrow> pool_step J p p'"
| good: "pool_step J p (on_session mark_good a p)"
| bad: "pool_step J p (on_session mark_bad a p)"
| retire: "pool_step J p (on_session retire a p)"
| retire_id: "pool_step J p (retire_session i p)"
| update: "pool_step J p (on_session (\<lambda>s. s\<lparr>sess_cookies := c, sess_user_data := d\<rparr>) a p)"
| attach: "pool_step J p (attach_persistence kvs p)"
| persist: "pool_persist J failure p = (res, p') \<Longrightarrow> pool_step J p p'"

definition pool_bounded :: "('c, 'j) session_pool \<Rightarrow> bool" where
  "pool_bounded p \<longleftrightarrow> pool_inv p \<and> length (sp_sessions p) \<le> max_pool_size (sp_options p)
     \<and> (\<forall>s \<in> set (sp_store p). sess_config s = session_config (sp_options p)
          \<and> unat (sess_usage_count s) \<le> max 1 (unat (max_usage_count (sess_config s))))"

lemma pool_bounded_on_session:
  assumes "pool_bounded p" and "\<And>s. sess_config (f s) = sess_config s"
    and "\<And>s. sess_usage_count (f s) = sess_usage_count s"
  shows "pool_bounded (on_session f a p)"
proof -
  have "\<exists>s' \<in> set (sp_store p). sess_config s = sess_config s' \<and> sess_usage_count s = sess_usage_count s'"
    if "s \<in> set ((sp_store p)[a := f (sp_store p ! a)])" for s
  proof (cases "s \<in> set (sp_store p)")
    case False
    with that have "s = f (sp_store p ! a)"
      using set_update_subset_insert [of "sp_store p" a] by auto
    moreover have "a < length (sp_store p)"
      using that False by (cases "a < length (sp_store p)") (simp_all add: list_update_beyond)
    ultimately show ?thesis using assms(2,3) nth_mem by metis
  qed blast
  then show ?thesis using assms(1) unfolding pool_bounded_def pool_inv_def
    by simp metis
qed

lemma pool_step_bounded: "pool_step J p p' \<Longrightarrow> pool_bounded p \<Longrightarrow> pool_bounded p'"
proof (induction rule: pool_step.induct)
  case (checkout now sticky p a p')
  have inv: "pool_inv p" using checkout.prems by (simp add: pool_bounded_def)
  note c = pool_session_cases [OF inv checkout.hyps] and i = pool_session_inv [OF inv checkout.hyps]
  have len: "length (filter P (sp_sessions p)) \<le> max_pool_size (sp_options p)" for P
    using checkout.prems length_filter_le [of P "sp_sessions p"] unfolding pool_bounded_def by linarith
  from c consider "served_old now a p p'" | "served_new now a p p'" by blast
  then show ?case
  proof cases
    case 1
    let ?s = "sp_store p ! a"
    have "a < length (sp_store p)" using 1 inv by (auto simp: served_old_def pool_inv_def)
    then have "?s \<in> set (sp_store p)" by (rule nth_mem)
    then have cfg: "sess_config ?s = session_config (sp_options p)" using checkout.prems
      by (simp add: pool_bounded_def)
    have "unat (sess_usage_count ?s) < unat (max_usage_count (sess_config ?s))"
      using 1 by (simp add: served_old_def is_usable_def word_less_nat_alt)
    then have u: "unat (sess_usage_count (record_usage ?s)) \<le> max 1 (unat (max_usage_count (sess_config ?s)))"
      by (simp add: record_usage_def unat_sat_add)
    have "sess_config s = session_config (sp_options p) \<and>
        unat (sess_usage_count s) \<le> max 1 (unat (max_usage_count (sess_config s)))"
      if "s \<in> set (sp_store p')" for s
    proof -
      have "s = record_usage ?s \<or> s \<in> set (sp_store p)"
        using that 1 set_update_subset_insert [of "sp_store p" a "record_usage ?s"]
        by (auto simp: served_old_def)
      then show ?thesis using u cfg checkout.prems by (auto simp: pool_bounded_def record_usage_def)
    qed
    moreover have "length (sp_sessions p') \<le> max_pool_size (sp_options p)"
      using len 1 by (auto simp: served_old_def)
    ultimately show ?thesis using i c by (fastforce simp: pool_bounded_def)
  next
    case 2
    then show ?thesis using i c len checkout.prems
      by (auto simp: pool_bounded_def served_new_def Suc_le_eq)
  qed
next
  case (retire_id p i)
  then show ?case by (auto simp: retire_session_def retire_def intro: pool_bounded_on_session split: option.splits)
next
  case (persist failure p res p')
  then show ?case
    by (auto simp: pool_persist_def pool_bounded_def pool_inv_def split: option.splits sum.splits)
next
  case (attach p kvs)
  then show ?case by (auto simp: attach_persistence_def pool_bounded_def pool_inv_def)
qed (simp_all add: pool_bounded_on_session mark_good_def mark_bad_def retire_def)

text \<open>
  Over any run of the pool's operations from a new pool (restoring apart) the pool never holds
  more than \<open>max_pool_size\<close> sessions, and no session is ever served more than \<open>max_usage_count\<close>
  times (once, when that limit is zero: a new session is served without asking).
\<close>

theorem pool_limits:
  assumes "(pool_step J)\<^sup>*\<^sup>* (pool_new options rng) p"
  shows "session_count p \<le> max_pool_size (sp_options p)
    \<and> (\<forall>s \<in> set (sp_store p). unat (sess_usage_count s) \<le> max 1 (unat (max_usage_count (session_config (sp_options p)))))"
proof -
  have "pool_bounded p" using assms
  proof (induction rule: rtranclp_induct)
    case base
    then show ?case by (simp add: pool_bounded_def) (simp add: pool_new_def)
  next
    case (step y z)
    then show ?case using pool_step_bounded by blast
  qed
  then show ?thesis by (fastforce simp: pool_bounded_def session_count_def)
qed

lemma sample_pool_run: "(pool_step sample_jar)\<^sup>*\<^sup>* (pool_new session_pool_options_default 7) sample_pool"
proof -
  have "pool_step sample_jar sample_new sample_pool"
    unfolding sample_pool_def by (rule pool_step.checkout [OF prod.collapse [symmetric]])
  then show ?thesis unfolding sample_new_def by blast
qed

theorem pool_limits_witness:
  "(pool_step sample_jar)\<^sup>*\<^sup>* (pool_new session_pool_options_default 7) sample_pool
   \<and> session_count sample_pool \<le> max_pool_size (sp_options sample_pool)"
  using sample_pool_run pool_limits [OF sample_pool_run] by blast

text \<open>The handle of a retired session stays retired, whatever happens to the pool.\<close>

inductive pool_or_restore :: "'c jar_ops \<Rightarrow> ('c, 'j) session_pool \<Rightarrow> ('c, 'j) session_pool \<Rightarrow> bool" for J where
  step: "pool_step J p p' \<Longrightarrow> pool_or_restore J p p'"
| restore: "pool_restore J failure p = (res, p') \<Longrightarrow> pool_or_restore J p p'"

definition retired_at :: "nat \<Rightarrow> ('c, 'j) session_pool \<Rightarrow> bool" where
  "retired_at a p \<longleftrightarrow> a < length (sp_store p) \<and> sess_retired (sp_store p ! a)"

lemma retired_at_on_session:
  "retired_at a p \<Longrightarrow> (\<And>s. sess_retired s \<Longrightarrow> sess_retired (f s)) \<Longrightarrow> retired_at a (on_session f b p)"
  by (cases "a = b") (auto simp: retired_at_def)

lemma pool_inv_on_session: "pool_inv p \<Longrightarrow> pool_inv (on_session f a p)"
  by (simp add: pool_inv_def)

lemma pool_step_retired:
  assumes "pool_step J p p'" and "pool_inv p"
  shows "pool_inv p' \<and> (retired_at a p \<longrightarrow> retired_at a p')"
  using assms
proof (induction rule: pool_step.induct)
  case (checkout now sticky p b p')
  then show ?case using pool_session_cases [OF checkout.prems checkout.hyps] pool_session_inv [OF checkout.prems checkout.hyps]
    by (auto simp: served_old_def served_new_def retired_at_def is_usable_def nth_append)
      (cases "a = b"; simp)
next
  case (retire_id p i)
  then show ?case
    by (auto simp: retire_session_def retire_def intro: pool_inv_on_session retired_at_on_session split: option.splits)
next
  case (persist failure p res p')
  then show ?case
    by (auto simp: pool_persist_def retired_at_def pool_inv_def split: option.splits sum.splits)
next
  case (attach p kvs)
  then show ?case by (auto simp: attach_persistence_def retired_at_def pool_inv_def)
qed (simp_all add: mark_good_def mark_bad_def retire_def pool_inv_on_session retired_at_on_session)

lemma pool_restore_retired:
  assumes "pool_restore J failure p = (res, p')" and "pool_inv p"
  shows "pool_inv p' \<and> (retired_at a p \<longrightarrow> retired_at a p')"
  using assms
  by (auto simp: pool_restore_def pool_inv_def retired_at_def Let_def nth_append split: option.splits)



section \<open>Persisting and restoring\<close>

text \<open>What is persisted of a session: everything but its user data and its limits.\<close>

definition same_identity :: "('c, 'j) session \<Rightarrow> ('c, 'j) session \<Rightarrow> bool" where
  "same_identity s s' \<longleftrightarrow> sess_id s = sess_id s' \<and> sess_cookies s = sess_cookies s'
     \<and> sess_error_score_scaled s = sess_error_score_scaled s' \<and> sess_usage_count s = sess_usage_count s'
     \<and> sess_retired s = sess_retired s' \<and> sess_expires_at s = sess_expires_at s'"

lemma collect_results_Inr: "collect_results rs = Inr xs \<longleftrightarrow> rs = map Inr xs"
proof (induction rs arbitrary: xs)
  case (Cons r rs)
  show ?case
  proof (cases "collect_results rs")
    case (Inl e)
    then have "rs \<noteq> map Inr ys" for ys using Cons.IH [of ys] by simp
    then show ?thesis using Inl by (auto split: sum.splits)
  next
    case (Inr ys)
    then show ?thesis using Cons.IH [of ys] by (auto split: sum.splits)
  qed
qed auto

lemma restored_persisted:
  assumes "\<And>c. \<exists>t. jar_to_json J c = Inr t \<and> jar_from_json J t = Inr c"
    and "map (persist_one J) ss = map Inr ps"
  shows "list_all2 same_identity ss (restored_sessions J cfg ps)"
  using assms(2)
proof (induction ss arbitrary: ps)
  case (Cons s ss)
  then obtain v ps' where ps: "ps = v # ps'" and v: "persist_one J s = Inr v"
    and rest: "map (persist_one J) ss = map Inr ps'" by auto
  obtain t where "jar_to_json J (sess_cookies s) = Inr t" "jar_from_json J t = Inr (sess_cookies s)"
    using assms(1) by blast
  then show ?case using v Cons.IH [OF rest]
    by (auto simp: ps persist_one_def session_restored_def restored_sessions_def List.map_filter_simps same_identity_def)
qed (simp add: restored_sessions_def List.map_filter_simps)

text \<open>
  Persist then restore keeps every session: given that the cookie jar can be read back from
  its JSON, a pool that was persisted and then restored (with the same options, in this process or
  in a later one that starts from any other pool) retains the same sessions in the same order, with
  the same identifiers, cookies, scores, usage, retirement and, in particular, the original expiry.
\<close>

theorem persist_restore_roundtrip:
  fixes p p' :: "('a, 'b) session_pool"
  assumes "\<And>c. \<exists>t. jar_to_json J c = Inr t \<and> jar_from_json J t = Inr c"
    and "sp_kvs p = Some kvs" and "sp_options p' = sp_options p"
  shows "\<exists>p1 kvs1 p2. pool_persist J None p = (Inr (), p1) \<and> sp_kvs p1 = Some kvs1
    \<and> pool_restore J None (p'\<lparr>sp_kvs := Some kvs1\<rparr>) = (Inr (), p2)
    \<and> list_all2 same_identity (map ((!) (sp_store p)) (sp_sessions p)) (map ((!) (sp_store p2)) (sp_sessions p2))"
proof -
  let ?ss = "map ((!) (sp_store p)) (sp_sessions p)"
  have "\<exists>v. persist_one J s = Inr v" for s :: "('a, 'b) session" using assms(1) [of "sess_cookies s"] by (auto simp: persist_one_def)
  then obtain f where "\<And>s :: ('a, 'b) session. persist_one J s = Inr (f s)" by metis
  then have m: "map (persist_one J) ?ss = map Inr (map f ?ss)" by simp
  then have c: "collect_results (map (\<lambda>a. persist_one J (sp_store p ! a)) (sp_sessions p)) = Inr (map f ?ss)"
    by (simp add: collect_results_Inr comp_def)
  let ?kvs = "AList.update (persist_state_key (sp_options p)) (map f ?ss) kvs"
  let ?r = "restored_sessions J (session_config (sp_options p)) (map f ?ss) :: ('a, 'b) session list"
  let ?p2 = "p'\<lparr>sp_kvs := Some ?kvs, sp_store := sp_store p' @ ?r,
    sp_sessions := [length (sp_store p') ..< length (sp_store p') + length ?r]\<rparr>"
  have "pool_restore J None (p'\<lparr>sp_kvs := Some ?kvs\<rparr>) = (Inr (), ?p2)"
    using assms(3) by (simp add: pool_restore_def Let_def)
  moreover have "map ((!) (sp_store ?p2)) (sp_sessions ?p2) = ?r"
    by (rule nth_equalityI) (simp_all add: nth_append)
  moreover have "pool_persist J None p = (Inr (), p\<lparr>sp_kvs := Some ?kvs\<rparr>)"
    using assms(2) c by (simp add: pool_persist_def)
  ultimately show ?thesis using restored_persisted [OF assms(1) m] by fastforce
qed

theorem persist_restore_roundtrip_witness:
  "\<exists>p1 kvs1 p2. pool_persist sample_jar None (attach_persistence [] sample_pool) = (Inr (), p1)
    \<and> sp_kvs p1 = Some kvs1
    \<and> pool_restore sample_jar None (sample_new\<lparr>sp_kvs := Some kvs1\<rparr>) = (Inr (), p2)
    \<and> list_all2 same_identity (map ((!) (sp_store sample_pool)) (sp_sessions sample_pool))
        (map ((!) (sp_store p2)) (sp_sessions p2))"
proof -
  have j: "\<And>c. \<exists>t. jar_to_json sample_jar c = Inr t \<and> jar_from_json sample_jar t = Inr c"
    by (simp add: sample_jar_def)
  have "pool_inv sample_new" by (simp add: sample_new_def)
  then have o: "sp_options sample_new = sp_options (attach_persistence [] sample_pool)"
    using pool_session_cases [of sample_new sample_jar 5 None _ sample_pool]
    by (cases "pool_session sample_jar 5 None sample_new") (auto simp: sample_pool_def attach_persistence_def)
  have k: "sp_kvs (attach_persistence [] sample_pool) = Some []" by (simp add: attach_persistence_def)
  show ?thesis using persist_restore_roundtrip [OF j k o] by (simp add: attach_persistence_def)
qed

text \<open>
  Restoring does not apply \<open>max_pool_size\<close>: a pool configured for one session that restores a
  state with two holds two.
\<close>

theorem restore_ignores_max_pool_size:
  "\<exists>p :: (string, string) session_pool. \<exists>p'. max_pool_size (sp_options p) = 1
     \<and> pool_restore sample_jar None p = (Inr (), p') \<and> session_count p' = 2"
proof -
  let ?v = "\<lambda>i. \<lparr>ps_id = i, ps_cookies = [], ps_error_score_scaled = 0, ps_usage_count = 0,
     ps_retired = False, ps_expires_at = 0\<rparr>"
  let ?p = "\<lparr>sp_store = [], sp_sessions = [],
     sp_options = \<lparr>max_pool_size = 1, session_config = session_config_default, persist_state_key = ''k''\<rparr>,
     sp_kvs = Some [(''k'', [?v ''a'', ?v ''b''])], sp_rng = 0\<rparr> :: (string, string) session_pool"
  show ?thesis
    by (rule exI [of _ ?p])
      (simp add: pool_restore_def restored_sessions_def session_restored_def sample_jar_def
        List.map_filter_simps session_count_def Let_def)
qed

end
