(* ===== verification/Proxy.thy ===== *)
theory Proxy
  imports Session_Pool
begin

text \<open>
  Proxy selection (\<open>millipede-core/src/proxy.rs\<close>): static lists in rotation, a custom resolver
  (a parameter) and tiers per domain with recovery probes. A \<open>None\<close> slot means a direct request.
  The random state is the process-wide one of \<open>Session_Pool\<close>. An index that would be out of
  range is a panic of the code and an error value here.
\<close>

section \<open>Model\<close>

datatype rotation_strategy = RoundRobin | Random

record ('u, 'j) resolve_context =
  rx_request :: "('u, 'j) request option"
  rx_session_id :: "string option"
  rx_attempt :: u32

record 'u proxy_info =
  pi_url :: 'u
  pi_hostname :: string
  pi_port :: u16
  pi_username :: "string option"
  pi_password :: "string option"
  pi_tier :: "u8 option"
  pi_session_id :: "string option"

definition proxy_info_from_url :: "('u, 'j) externals \<Rightarrow> 'u \<Rightarrow> 'u proxy_info" where
  "proxy_info_from_url X u = \<lparr>pi_url = u,
     pi_hostname = (case url_host_str X u of Some h \<Rightarrow> h | None \<Rightarrow> []),
     pi_port = (case url_port_or_known_default X u of Some p \<Rightarrow> p | None \<Rightarrow> 80),
     pi_username = (if url_username X u \<noteq> [] then Some (url_username X u) else None),
     pi_password = url_password X u, pi_tier = None, pi_session_id = None\<rparr>"

record domain_tier =
  dt_tier :: nat
  dt_requests :: u32
  dt_probing :: "nat option"

definition domain_tier_default :: domain_tier where
  "domain_tier_default = \<lparr>dt_tier = 0, dt_requests = 0, dt_probing = None\<rparr>"

record 'u tiered_state =
  ts_tiers :: "'u option list list"
  ts_probe_interval :: u32
  ts_domains :: "(string \<times> domain_tier) list"

datatype ('u, 'j) proxy_configuration =
  Static "'u list" rotation_strategy u64
| Custom "('u, 'j) resolve_context \<Rightarrow> crawl_error + 'u option"
| Tiered "'u tiered_state"

definition round_robin :: "'u list \<Rightarrow> ('u, 'j) proxy_configuration" where
  "round_robin urls = Static urls RoundRobin 0"

definition rotating :: "'u list \<Rightarrow> rotation_strategy \<Rightarrow> ('u, 'j) proxy_configuration" where
  "rotating urls rotation = Static urls rotation 0"

definition tiered_with_probe_interval :: "'u option list list \<Rightarrow> u32 \<Rightarrow> ('u, 'j) proxy_configuration" where
  "tiered_with_probe_interval tiers probe_interval =
     Tiered \<lparr>ts_tiers = tiers, ts_probe_interval = max probe_interval 1, ts_domains = []\<rparr>"

definition tiered :: "'u option list list \<Rightarrow> ('u, 'j) proxy_configuration" where
  "tiered tiers = tiered_with_probe_interval tiers 20"

text \<open>\<open>entry(key).or_default()\<close>.\<close>

definition domain_entry :: "string \<Rightarrow> 'u tiered_state \<Rightarrow> domain_tier" where
  "domain_entry key st = (case map_of (ts_domains st) key of Some d \<Rightarrow> d | None \<Rightarrow> domain_tier_default)"

definition set_domain :: "string \<Rightarrow> domain_tier \<Rightarrow> 'u tiered_state \<Rightarrow> 'u tiered_state" where
  "set_domain key d st = st\<lparr>ts_domains := AList.update key d (ts_domains st)\<rparr>"

definition url_key :: "('u, 'j) externals \<Rightarrow> 'u \<Rightarrow> string" where
  "url_key X u = (case url_host_str X u of Some h \<Rightarrow> h | None \<Rightarrow> [])"

definition context_key :: "('u, 'j) externals \<Rightarrow> ('u, 'j) resolve_context \<Rightarrow> string" where
  "context_key X ctx = (case rx_request ctx of Some r \<Rightarrow> url_key X (req_url r) | None \<Rightarrow> [])"

text \<open>The tier to serve and the updated entry of the domain.\<close>

definition serve_tier :: "u32 \<Rightarrow> nat \<Rightarrow> domain_tier \<Rightarrow> nat \<times> domain_tier" where
  "serve_tier probe_interval n d =
     (let d1 = d\<lparr>dt_tier := min (dt_tier d) (n - 1), dt_requests := sat_add (dt_requests d) 1\<rparr> in
      if dt_tier d1 > 0 \<and> dt_requests d1 mod probe_interval = 0
      then (dt_tier d1 - 1, d1\<lparr>dt_probing := Some (dt_tier d1 - 1)\<rparr>)
      else (dt_tier d1, d1))"

definition tiered_url ::
  "('u, 'j) externals \<Rightarrow> ('u, 'j) resolve_context \<Rightarrow> 'u tiered_state
     \<Rightarrow> ('u option \<times> u8 option) \<times> 'u tiered_state" where
  "tiered_url X ctx st =
     (if ts_tiers st = [] then ((None, None), st)
      else
        let key = context_key X ctx;
            (serving, d) = serve_tier (ts_probe_interval st) (length (ts_tiers st)) (domain_entry key st);
            tier = ts_tiers st ! serving;
            st' = set_domain key d st
        in if tier = [] then ((None, Some (word_of_nat serving)), st')
           else ((tier ! (unat (dt_requests d) mod length tier), Some (word_of_nat serving)), st'))"

definition resolve ::
  "('u, 'j) externals \<Rightarrow> ('u, 'j) resolve_context \<Rightarrow> ('u, 'j) proxy_configuration \<Rightarrow> u64
     \<Rightarrow> (crawl_error + ('u option \<times> u8 option)) \<times> ('u, 'j) proxy_configuration \<times> u64" where
  "resolve X ctx config rng =
     (case config of
        Static urls rotation cursor \<Rightarrow>
          if urls = [] then (Inr (None, None), config, rng)
          else (case rotation of
            RoundRobin \<Rightarrow>
              (Inr (Some (urls ! (unat cursor mod length urls)), None), Static urls rotation (cursor + 1), rng)
          | Random \<Rightarrow>
              let (v, rng') = rand_u64 rng in
              (Inr (Some (urls ! (unat v mod length urls)), None), config, rng'))
      | Custom resolver \<Rightarrow> (map_sum id (\<lambda>u. (u, None)) (resolver ctx), config, rng)
      | Tiered st \<Rightarrow> (let (r, st') = tiered_url X ctx st in (Inr r, Tiered st', rng)))"

definition new_url ::
  "('u, 'j) externals \<Rightarrow> ('u, 'j) resolve_context \<Rightarrow> ('u, 'j) proxy_configuration \<Rightarrow> u64
     \<Rightarrow> (crawl_error + 'u option) \<times> ('u, 'j) proxy_configuration \<times> u64" where
  "new_url X ctx config rng = (let (r, c) = resolve X ctx config rng in (map_sum id fst r, c))"

definition new_proxy_info ::
  "('u, 'j) externals \<Rightarrow> ('u, 'j) resolve_context \<Rightarrow> ('u, 'j) proxy_configuration \<Rightarrow> u64
     \<Rightarrow> (crawl_error + 'u proxy_info option) \<times> ('u, 'j) proxy_configuration \<times> u64" where
  "new_proxy_info X ctx config rng =
     (let (r, c) = resolve X ctx config rng in
      (map_sum id (\<lambda>(url, tier). map_option (\<lambda>u. (proxy_info_from_url X u)
          \<lparr>pi_tier := tier, pi_session_id := rx_session_id ctx\<rparr>) url) r, c))"

definition block_domain :: "nat \<Rightarrow> domain_tier \<Rightarrow> domain_tier" where
  "block_domain n d =
     (if dt_probing d = None
      then d\<lparr>dt_tier := min (dt_tier d + 1) (n - 1), dt_requests := 0\<rparr>
      else d\<lparr>dt_probing := None\<rparr>)"

definition report_blocked ::
  "('u, 'j) externals \<Rightarrow> 'u \<Rightarrow> ('u, 'j) proxy_configuration \<Rightarrow> ('u, 'j) proxy_configuration" where
  "report_blocked X target config =
     (case config of
        Tiered st \<Rightarrow>
          if ts_tiers st = [] then config
          else let key = url_key X target in
            Tiered (set_domain key (block_domain (length (ts_tiers st)) (domain_entry key st)) st)
      | _ \<Rightarrow> config)"

definition success_domain :: "domain_tier \<Rightarrow> domain_tier" where
  "success_domain d =
     (case dt_probing d of
        Some probe \<Rightarrow> d\<lparr>dt_probing := None, dt_tier := probe, dt_requests := 0\<rparr>
      | None \<Rightarrow> d)"

definition report_success ::
  "('u, 'j) externals \<Rightarrow> 'u \<Rightarrow> ('u, 'j) proxy_configuration \<Rightarrow> ('u, 'j) proxy_configuration" where
  "report_success X target config =
     (case config of
        Tiered st \<Rightarrow>
          let key = url_key X target in
          Tiered (set_domain key (success_domain (domain_entry key st)) st)
      | _ \<Rightarrow> config)"

section \<open>Tiers\<close>

definition domain_ok :: "nat \<Rightarrow> domain_tier \<Rightarrow> bool" where
  "domain_ok n d \<longleftrightarrow> dt_tier d < n \<and> (\<forall>k. dt_probing d = Some k \<longrightarrow> dt_tier d = Suc k)"

definition tiers_ok :: "'u tiered_state \<Rightarrow> bool" where
  "tiers_ok st \<longleftrightarrow> ts_probe_interval st \<noteq> 0
     \<and> (ts_tiers st \<noteq> [] \<longrightarrow> (\<forall>k d. map_of (ts_domains st) k = Some d \<longrightarrow> domain_ok (length (ts_tiers st)) d))"

definition config_ok :: "('u, 'j) proxy_configuration \<Rightarrow> bool" where
  "config_ok config \<longleftrightarrow> (\<forall>st. config = Tiered st \<longrightarrow> tiers_ok st)"

lemma domain_entry_ok: "tiers_ok st \<Longrightarrow> ts_tiers st \<noteq> [] \<Longrightarrow> domain_ok (length (ts_tiers st)) (domain_entry k st)"
  by (auto simp: tiers_ok_def domain_entry_def domain_tier_default_def domain_ok_def split: option.splits)

lemma set_domain_ok:
  "tiers_ok st \<Longrightarrow> (ts_tiers st \<noteq> [] \<Longrightarrow> domain_ok (length (ts_tiers st)) d) \<Longrightarrow> tiers_ok (set_domain k d st)"
  by (auto simp: tiers_ok_def set_domain_def AList.update_conv' split: if_splits)

lemma serve_tier_ok:
  assumes "domain_ok n d" and "serve_tier I n d = (s, d')"
  shows "domain_ok n d' \<and> s < n \<and> dt_tier d' = dt_tier d \<and> (s = dt_tier d \<or> Suc s = dt_tier d \<and> dt_probing d' = Some s)"
  using assms by (auto simp: serve_tier_def domain_ok_def Let_def min_def split: if_splits)

lemma block_domain_ok: "domain_ok n d \<Longrightarrow> domain_ok n (block_domain n d)"
  by (auto simp: block_domain_def domain_ok_def min_def split: if_splits)

lemma success_domain_ok: "domain_ok n d \<Longrightarrow> domain_ok n (success_domain d)"
  by (auto simp: success_domain_def domain_ok_def split: option.splits)

lemma tiered_url_ok:
  assumes "tiers_ok st" and "ts_tiers st \<noteq> []" and "tiered_url X ctx st = ((u, t), st')"
  shows "\<exists>s. t = Some (word_of_nat s) \<and> s < length (ts_tiers st)
    \<and> (if ts_tiers st ! s = [] then u = None else u \<in> set (ts_tiers st ! s))
    \<and> (s = dt_tier (domain_entry (context_key X ctx) st) \<or> Suc s = dt_tier (domain_entry (context_key X ctx) st))
    \<and> tiers_ok st'"
proof -
  let ?d = "domain_entry (context_key X ctx) st" and ?n = "length (ts_tiers st)"
  obtain s d' where s: "serve_tier (ts_probe_interval st) ?n ?d = (s, d')"
    by (cases "serve_tier (ts_probe_interval st) ?n ?d")
  note ok = serve_tier_ok [OF domain_entry_ok [OF assms(1,2)] s]
  have st': "st' = set_domain (context_key X ctx) d' st" "t = Some (word_of_nat s)"
    "u = (if ts_tiers st ! s = [] then None else ts_tiers st ! s ! (unat (dt_requests d') mod length (ts_tiers st ! s)))"
  proof -
    have "tiered_url X ctx st = ((if ts_tiers st ! s = [] then None
        else ts_tiers st ! s ! (unat (dt_requests d') mod length (ts_tiers st ! s)), Some (word_of_nat s)),
        set_domain (context_key X ctx) d' st)"
      using assms(2) s by (simp add: tiered_url_def Let_def)
    then show "st' = set_domain (context_key X ctx) d' st" "t = Some (word_of_nat s)"
      "u = (if ts_tiers st ! s = [] then None else ts_tiers st ! s ! (unat (dt_requests d') mod length (ts_tiers st ! s)))"
      using assms(3) by simp_all
  qed
  have "tiers_ok st'" unfolding st'(1) using assms(1) ok by (intro set_domain_ok) simp_all
  moreover have "u \<in> set (ts_tiers st ! s)" if "ts_tiers st ! s \<noteq> []"
    using that unfolding st'(3) by (simp add: nth_mem)
  moreover have "u = None" if "ts_tiers st ! s = []" using that unfolding st'(3) by simp
  ultimately show ?thesis using ok st'(2) by (intro exI [of _ s]) (simp, blast)
qed

text \<open>
  Tier selection is total and in range: whatever was reported before, resolving through tiers
  never indexes a tier or a slot that does not exist, serves a slot of the domain's tier or of the
  tier just below it, and keeps the invariant; so do both reports.
\<close>

theorem tiers_in_range:
  assumes "config_ok config" and "resolve X ctx config rng = (r, config', rng')"
  shows "config_ok config' \<and> config_ok (report_blocked X target config') \<and> config_ok (report_success X target config')
    \<and> (\<forall>st. config = Tiered st \<longrightarrow> ts_tiers st \<noteq> [] \<longrightarrow>
         (\<exists>u s. r = Inr (u, Some (word_of_nat s)) \<and> s < length (ts_tiers st)
           \<and> (if ts_tiers st ! s = [] then u = None else u \<in> set (ts_tiers st ! s))
           \<and> (s = dt_tier (domain_entry (context_key X ctx) st)
              \<or> Suc s = dt_tier (domain_entry (context_key X ctx) st))))"
proof -
  have blocked: "config_ok (report_blocked X target c)" "config_ok (report_success X target c)"
    if "config_ok c" for c
    using that by (auto simp: config_ok_def report_blocked_def report_success_def Let_def
        intro!: set_domain_ok block_domain_ok success_domain_ok domain_entry_ok split: proxy_configuration.splits)
  have "config_ok config'" and
    "\<forall>st. config = Tiered st \<longrightarrow> ts_tiers st \<noteq> [] \<longrightarrow>
         (\<exists>u s. r = Inr (u, Some (word_of_nat s)) \<and> s < length (ts_tiers st)
           \<and> (if ts_tiers st ! s = [] then u = None else u \<in> set (ts_tiers st ! s))
           \<and> (s = dt_tier (domain_entry (context_key X ctx) st)
              \<or> Suc s = dt_tier (domain_entry (context_key X ctx) st)))"
  proof (atomize (full), cases config)
    case (Tiered st)
    obtain u t st' where t: "tiered_url X ctx st = ((u, t), st')" by (cases "tiered_url X ctx st") auto
    then have e: "r = Inr (u, t)" "config' = Tiered st'" using assms(2) Tiered by (auto simp: resolve_def)
    show "config_ok config' \<and> (\<forall>st. config = Tiered st \<longrightarrow> ts_tiers st \<noteq> [] \<longrightarrow>
         (\<exists>u s. r = Inr (u, Some (word_of_nat s)) \<and> s < length (ts_tiers st)
           \<and> (if ts_tiers st ! s = [] then u = None else u \<in> set (ts_tiers st ! s))
           \<and> (s = dt_tier (domain_entry (context_key X ctx) st)
              \<or> Suc s = dt_tier (domain_entry (context_key X ctx) st))))"
    proof (cases "ts_tiers st = []")
      case True
      then show ?thesis using t e assms(1) Tiered by (auto simp: tiered_url_def config_ok_def)
    next
      case False
      have "tiers_ok st" using assms(1) Tiered by (simp add: config_ok_def)
      from tiered_url_ok [OF this False t] show ?thesis using e Tiered by (auto simp: config_ok_def)
    qed
  qed (use assms(2) in \<open>auto simp: resolve_def config_ok_def split: if_splits rotation_strategy.splits prod.splits\<close>)
  then show ?thesis using blocked [of config'] by (intro conjI)
qed

lemma config_ok_tiered: "config_ok (tiered_with_probe_interval tiers n)"
proof -
  have "max n 1 \<noteq> (0 :: u32)" by (metis max.cobounded2 word_le_0_iff zero_neq_one)
  then show ?thesis by (simp add: config_ok_def tiered_with_probe_interval_def tiers_ok_def)
qed

definition sample_ctx :: "(string, string) resolve_context" where
  "sample_ctx = \<lparr>rx_request = Some (sample_request ''https://a/1'' ''k''), rx_session_id = None, rx_attempt = 0\<rparr>"

definition sample_tiers :: "(string, string) proxy_configuration" where
  "sample_tiers = tiered [[None], [Some ''http://p1'', Some ''http://p2'']]"

theorem tiers_in_range_witness:
  "config_ok sample_tiers \<and> config_ok (fst (snd (resolve sample_externals sample_ctx sample_tiers 3)))"
proof -
  have "config_ok sample_tiers" by (simp add: sample_tiers_def tiered_def config_ok_tiered)
  moreover obtain r c g where "resolve sample_externals sample_ctx sample_tiers 3 = (r, c, g)"
    by (cases "resolve sample_externals sample_ctx sample_tiers 3") auto
  ultimately show ?thesis
    using tiers_in_range [of sample_tiers sample_externals sample_ctx 3 r c g "''https://a/1''"] by simp
qed

text \<open>Several requests of one domain in a row, with no report between them.\<close>

fun serve_run :: "u32 \<Rightarrow> nat \<Rightarrow> nat \<Rightarrow> domain_tier \<Rightarrow> nat list \<times> domain_tier" where
  "serve_run I n 0 d = ([], d)"
| "serve_run I n (Suc k) d =
     (let (ss, d1) = serve_run I n k d; (s, d2) = serve_tier I n d1 in (ss @ [s], d2))"

lemma serve_run_before_probe:
  assumes "dt_tier d < n" and "dt_requests d = 0" and "k < unat I"
  shows "serve_run I n k d = (replicate k (dt_tier d), d\<lparr>dt_requests := word_of_nat k\<rparr>)"
  using assms(3)
proof (induction k)
  case 0
  then show ?case using assms(2) by simp
next
  case (Suc k)
  have m: "min (dt_tier d) (n - 1) = dt_tier d" using assms(1) by simp
  have I: "unat I < 2 ^ 32" using unsigned_less [where 'a = nat, of I] by simp
  have k: "unat (word_of_nat k :: u32) = k" "unat (word_of_nat (Suc k) :: u32) = Suc k"
    using Suc.prems I by (simp_all add: unat_of_nat_small del: of_nat_Suc)
  have s: "sat_add (word_of_nat k) 1 = (word_of_nat (Suc k) :: u32)"
    using Suc.prems I by (intro sat_add_Suc) simp
  have "unat ((word_of_nat (Suc k) :: u32) mod I) = Suc k mod unat I" using k by (simp add: unat_mod_distrib)
  also have "\<dots> \<noteq> 0" using Suc.prems by simp
  finally have "(word_of_nat (Suc k) :: u32) mod I \<noteq> 0" by (metis unsigned_0)
  then show ?case
    using Suc.IH Suc.prems s m by (simp add: serve_tier_def Let_def replicate_append_same)
qed

text \<open>
  C36. Recovery probing: a domain that was escalated to tier \<open>t > 0\<close> is served from tier \<open>t\<close> for
  \<open>probe_interval - 1\<close> requests, then once from tier \<open>t - 1\<close>. If that probe succeeds the domain
  recovers to tier \<open>t - 1\<close> and counts from zero; if it is blocked the domain stays at tier \<open>t\<close>,
  and the next block without a probe escalates it by one tier, never past the last one.
\<close>

theorem recovery_probe:
  assumes "0 < dt_tier d" and "dt_tier d < n" and "dt_requests d = 0" and "dt_probing d = None" and "I \<noteq> 0"
  shows "\<exists>d'. serve_run I n (unat I) d = (replicate (unat I - 1) (dt_tier d) @ [dt_tier d - 1], d')
    \<and> success_domain d' = \<lparr>dt_tier = dt_tier d - 1, dt_requests = 0, dt_probing = None\<rparr>
    \<and> dt_tier (block_domain n d') = dt_tier d
    \<and> dt_tier (block_domain n (block_domain n d')) = min (Suc (dt_tier d)) (n - 1)"
proof -
  have m: "min (dt_tier d) (n - 1) = dt_tier d" using assms(2) by simp
  have I0: "0 < unat I" using assms(5) by (simp add: unat_gt_0)
  then obtain k where k: "unat I = Suc k" by (cases "unat I") auto
  have I: "unat I < 2 ^ 32" using unsigned_less [where 'a = nat, of I] by simp
  have "sat_add (word_of_nat k) 1 = (word_of_nat (Suc k) :: u32)" using I k by (intro sat_add_Suc) simp
  also have "\<dots> = I" by (simp flip: k)
  finally have s: "sat_add (word_of_nat k) 1 = I" .
  have "serve_run I n k d = (replicate k (dt_tier d), d\<lparr>dt_requests := word_of_nat k\<rparr>)"
    using assms k by (intro serve_run_before_probe) simp_all
  then have "serve_run I n (unat I) d = (replicate k (dt_tier d) @ [dt_tier d - 1],
      d\<lparr>dt_requests := I, dt_probing := Some (dt_tier d - 1)\<rparr>)"
    using assms k s m by (simp add: serve_tier_def Let_def)
  then show ?thesis using assms k by (cases d) (simp add: success_domain_def block_domain_def)
qed

theorem recovery_probe_witness:
  "\<exists>d'. serve_run 20 3 (unat (20 :: u32)) \<lparr>dt_tier = 2, dt_requests = 0, dt_probing = None\<rparr>
      = (replicate (unat (20 :: u32) - 1) 2 @ [1], d')
    \<and> success_domain d' = \<lparr>dt_tier = 1, dt_requests = 0, dt_probing = None\<rparr>"
  using recovery_probe [of "\<lparr>dt_tier = 2, dt_requests = 0, dt_probing = None\<rparr>" 3 20] by auto

section \<open>Rotation\<close>

fun resolve_many ::
  "('u, 'j) externals \<Rightarrow> ('u, 'j) resolve_context \<Rightarrow> nat \<Rightarrow> ('u, 'j) proxy_configuration \<Rightarrow> u64
     \<Rightarrow> (crawl_error + ('u option \<times> u8 option)) list \<times> ('u, 'j) proxy_configuration" where
  "resolve_many X ctx 0 config rng = ([], config)"
| "resolve_many X ctx (Suc k) config rng =
     (let (r, config1, rng1) = resolve X ctx config rng;
          (rs, config2) = resolve_many X ctx k config1 rng1
      in (r # rs, config2))"

lemma resolve_many_round_robin:
  assumes "urls \<noteq> []" and "unat c + k < 2 ^ 64"
  shows "resolve_many X ctx k (Static urls RoundRobin c) rng =
    (map (\<lambda>i. Inr (Some (urls ! ((unat c + i) mod length urls)), None)) [0..<k],
     Static urls RoundRobin (c + word_of_nat k))"
  using assms(2)
proof (induction k arbitrary: c rng)
  case (Suc k)
  have c: "unat (c + 1) = Suc (unat c)" using Suc.prems by (intro unat_inc) simp
  then have "resolve_many X ctx k (Static urls RoundRobin (c + 1)) rng =
    (map (\<lambda>i. Inr (Some (urls ! ((unat (c + 1) + i) mod length urls)), None)) [0..<k],
     Static urls RoundRobin (c + 1 + word_of_nat k))" for rng
    using Suc.prems by (intro Suc.IH) simp
  then show ?case using assms(1) c
    by (simp add: resolve_def Let_def upt_conv_Cons map_Suc_upt [symmetric] comp_def add.assoc del: upt_Suc)
qed simp

text \<open>
  Round robin is fair: as long as the cursor does not wrap, as many consecutive resolutions as
  there are proxies use every one of them once, in cyclic order from where the cursor stands.
\<close>

theorem round_robin_fair:
  assumes "urls \<noteq> []" and "unat c + length urls < 2 ^ 64"
  shows "fst (resolve_many X ctx (length urls) (Static urls RoundRobin c) rng)
    = map (\<lambda>u. Inr (Some u, None)) (rotate (unat c) urls)"
  unfolding resolve_many_round_robin [OF assms] fst_conv
  by (rule nth_equalityI) (simp_all add: nth_rotate)

theorem round_robin_fair_witness:
  "fst (resolve_many sample_externals sample_ctx (length [''p1'', ''p2'', ''p3'']) (Static [''p1'', ''p2'', ''p3''] RoundRobin 4) 0)
    = [Inr (Some ''p2'', None), Inr (Some ''p3'', None), Inr (Some ''p1'', None)]"
proof -
  have "rotate 4 [''p1'', ''p2'', ''p3''] = [''p2'', ''p3'', ''p1'']" by (simp add: rotate_def eval_nat_numeral)
  then show ?thesis
    using round_robin_fair [of "[''p1'', ''p2'', ''p3'']" 4 sample_externals sample_ctx 0] by simp
qed

end
