(* ===== verification/Float_Model.thy ===== *)
theory Float_Model
  imports Prelude Complex_Main "HOL-Library.Log_Nat"
begin

text \<open>
  An executable model of Rust's \<open>f32\<close> and \<open>f64\<close>: a value is not-a-number, an infinity, or a
  rational; every operation rounds the exact result to the nearest representable number, ties to
  even, with gradual underflow. Zero has no sign (none of the code below distinguishes the two
  zeros). The lemmas bound a rounded result by integers and keep it non-negative.
\<close>

section \<open>Rounding\<close>

definition round_half_even :: "rat \<Rightarrow> int" where
  "round_half_even x =
     (let f = \<lfloor>x\<rfloor>; d = x - of_int f in
      if d < 1 / 2 then f else if 1 / 2 < d then f + 1 else if even f then f else f + 1)"

definition round_half_away :: "rat \<Rightarrow> int" where
  "round_half_away x = (if 0 \<le> x then \<lfloor>x + 1 / 2\<rfloor> else \<lceil>x - 1 / 2\<rceil>)"

definition pow2 :: "int \<Rightarrow> rat" where
  "pow2 e = 2 powi e"

text \<open>The exponent \<open>e\<close> with \<open>2\<^sup>e \<le> q < 2\<^sup>e\<^sup>+\<^sup>1\<close> of a positive rational.\<close>

definition exponent_of :: "rat \<Rightarrow> int" where
  "exponent_of q =
     (case quotient_of q of (a, b) \<Rightarrow>
      let k = int (floorlog 2 (nat a)) - int (floorlog 2 (nat b)) in
      if pow2 k \<le> q then k else k - 1)"

record format =
  fm_precision :: int
  fm_min_exp :: int
  fm_max_exp :: int

definition f32 :: format where
  "f32 = \<lparr>fm_precision = 24, fm_min_exp = -149, fm_max_exp = 128\<rparr>"

definition f64 :: format where
  "f64 = \<lparr>fm_precision = 53, fm_min_exp = -1074, fm_max_exp = 1024\<rparr>"

datatype fl = NaN | PosInf | NegInf | Fin rat

definition ulp_exp :: "format \<Rightarrow> rat \<Rightarrow> int" where
  "ulp_exp F q = (if q = 0 then fm_min_exp F
     else max (exponent_of \<bar>q\<bar> - fm_precision F + 1) (fm_min_exp F))"

definition rounded :: "format \<Rightarrow> rat \<Rightarrow> rat" where
  "rounded F q = of_int (round_half_even (q / pow2 (ulp_exp F q))) * pow2 (ulp_exp F q)"

definition rnd :: "format \<Rightarrow> rat \<Rightarrow> fl" where
  "rnd F q =
     (let r = rounded F q in
      if pow2 (fm_max_exp F) \<le> r then PosInf
      else if r \<le> - pow2 (fm_max_exp F) then NegInf
      else Fin r)"

section \<open>Operations\<close>

fun fl_neg :: "fl \<Rightarrow> fl" where
  "fl_neg NaN = NaN" | "fl_neg PosInf = NegInf" | "fl_neg NegInf = PosInf" | "fl_neg (Fin q) = Fin (- q)"

fun fl_add :: "format \<Rightarrow> fl \<Rightarrow> fl \<Rightarrow> fl" where
  "fl_add F (Fin a) (Fin b) = rnd F (a + b)"
| "fl_add F NaN _ = NaN"
| "fl_add F _ NaN = NaN"
| "fl_add F PosInf NegInf = NaN"
| "fl_add F NegInf PosInf = NaN"
| "fl_add F PosInf _ = PosInf"
| "fl_add F _ PosInf = PosInf"
| "fl_add F NegInf _ = NegInf"
| "fl_add F _ NegInf = NegInf"

definition fl_sub :: "format \<Rightarrow> fl \<Rightarrow> fl \<Rightarrow> fl" where
  "fl_sub F a b = fl_add F a (fl_neg b)"

definition inf_of_sign :: "rat \<Rightarrow> fl" where
  "inf_of_sign q = (if q = 0 then NaN else if 0 < q then PosInf else NegInf)"

fun fl_mul :: "format \<Rightarrow> fl \<Rightarrow> fl \<Rightarrow> fl" where
  "fl_mul F (Fin a) (Fin b) = rnd F (a * b)"
| "fl_mul F NaN _ = NaN"
| "fl_mul F _ NaN = NaN"
| "fl_mul F PosInf (Fin q) = inf_of_sign q"
| "fl_mul F (Fin q) PosInf = inf_of_sign q"
| "fl_mul F NegInf (Fin q) = inf_of_sign (- q)"
| "fl_mul F (Fin q) NegInf = inf_of_sign (- q)"
| "fl_mul F PosInf PosInf = PosInf"
| "fl_mul F NegInf NegInf = PosInf"
| "fl_mul F _ _ = NegInf"

fun fl_div :: "format \<Rightarrow> fl \<Rightarrow> fl \<Rightarrow> fl" where
  "fl_div F (Fin a) (Fin b) = (if b = 0 then inf_of_sign a else rnd F (a / b))"
| "fl_div F NaN _ = NaN"
| "fl_div F _ NaN = NaN"
| "fl_div F (Fin q) _ = Fin 0"
| "fl_div F PosInf (Fin q) = (if q < 0 then NegInf else PosInf)"
| "fl_div F NegInf (Fin q) = (if q < 0 then PosInf else NegInf)"
| "fl_div F _ _ = NaN"

fun fl_le :: "fl \<Rightarrow> fl \<Rightarrow> bool" where
  "fl_le NaN _ = False" | "fl_le _ NaN = False"
| "fl_le (Fin a) (Fin b) = (a \<le> b)"
| "fl_le NegInf _ = True" | "fl_le _ PosInf = True"
| "fl_le _ _ = False"

definition fl_lt :: "fl \<Rightarrow> fl \<Rightarrow> bool" where
  "fl_lt a b = (fl_le a b \<and> \<not> fl_le b a)"

text \<open>Rust's \<open>f64::min\<close> ignores a not-a-number.\<close>

definition fl_min :: "fl \<Rightarrow> fl \<Rightarrow> fl" where
  "fl_min a b = (if a = NaN then b else if b = NaN then a else if fl_le a b then a else b)"

definition of_nat_fl :: "format \<Rightarrow> nat \<Rightarrow> fl" where
  "of_nat_fl F n = rnd F (rat_of_nat n)"

fun fl_ceil :: "fl \<Rightarrow> fl" where
  "fl_ceil (Fin q) = Fin (of_int \<lceil>q\<rceil>)" | "fl_ceil x = x"

fun fl_round :: "fl \<Rightarrow> fl" where
  "fl_round (Fin q) = Fin (of_int (round_half_away q))" | "fl_round x = x"

text \<open>The cast \<open>as usize\<close> truncates and saturates; not-a-number becomes 0.\<close>

fun fl_as_usize :: "fl \<Rightarrow> nat" where
  "fl_as_usize NaN = 0"
| "fl_as_usize NegInf = 0"
| "fl_as_usize PosInf = usize_max"
| "fl_as_usize (Fin q) = (if q \<le> 0 then 0 else min usize_max (nat \<lfloor>q\<rfloor>))"

section \<open>Bounds\<close>

lemma pow2_pos [simp]: "0 < pow2 e"
  by (simp add: pow2_def)

lemma round_half_even_le: "x \<le> of_int m \<Longrightarrow> round_half_even x \<le> m"
proof -
  assume x: "x \<le> of_int m"
  show ?thesis
  proof (cases "x = of_int m")
    case True
    then show ?thesis by (simp add: round_half_even_def)
  next
    case False
    with x have "\<lfloor>x\<rfloor> < m" by (simp add: floor_less_iff)
    then show ?thesis by (auto simp: round_half_even_def Let_def)
  qed
qed

lemma round_half_even_ge: "of_int m \<le> x \<Longrightarrow> m \<le> round_half_even x"
proof -
  assume "of_int m \<le> x"
  then have "m \<le> \<lfloor>x\<rfloor>" by (simp add: le_floor_iff)
  then show ?thesis by (auto simp: round_half_even_def Let_def)
qed

lemma rounded_le:
  assumes "q \<le> of_int m * pow2 (ulp_exp F q)"
  shows "rounded F q \<le> of_int m * pow2 (ulp_exp F q)"
proof -
  have "q / pow2 (ulp_exp F q) \<le> of_int m" using assms by (simp add: divide_le_eq)
  from round_half_even_le [OF this] show ?thesis by (simp add: rounded_def)
qed

lemma rounded_ge:
  assumes "of_int m * pow2 (ulp_exp F q) \<le> q"
  shows "of_int m * pow2 (ulp_exp F q) \<le> rounded F q"
proof -
  have "of_int m \<le> q / pow2 (ulp_exp F q)" using assms by (simp add: le_divide_eq)
  from round_half_even_ge [OF this] show ?thesis by (simp add: rounded_def)
qed

lemma rounded_nonneg: "0 \<le> q \<Longrightarrow> 0 \<le> rounded F q"
  using rounded_ge [of 0 F q] by simp

lemma pow2_less_iff: "pow2 a < pow2 b \<longleftrightarrow> a < b"
proof
  show "pow2 a < pow2 b \<Longrightarrow> a < b"
    unfolding pow2_def using power_int_increasing [of b a "2 :: rat"] by (cases "a < b") simp_all
  show "a < b \<Longrightarrow> pow2 a < pow2 b"
    unfolding pow2_def by (rule power_int_strict_increasing) simp_all
qed

lemma pow2_nonpos: "e \<le> 0 \<Longrightarrow> \<exists>m :: int. of_nat n = of_int m * pow2 e"
proof (rule exI [of _ "int n * 2 ^ nat (- e)"])
  assume "e \<le> 0"
  then have "pow2 e = inverse (2 ^ nat (- e))" by (auto simp: pow2_def power_int_def power_one_over inverse_eq_divide)
  then show "of_nat n = rat_of_int (int n * 2 ^ nat (- e)) * pow2 e" by simp
qed

lemma exponent_of_le:
  assumes "0 < q"
  shows "pow2 (exponent_of q) \<le> q"
proof -
  obtain a b where ab: "quotient_of q = (a, b)" by (cases "quotient_of q")
  have b: "0 < b" and q: "q = of_int a / of_int b"
    using quotient_of_denom_pos [OF ab] quotient_of_div [OF ab] by simp_all
  have a: "0 < a" using assms b unfolding q by (simp add: zero_less_divide_iff)
  let ?la = "floorlog 2 (nat a)" and ?lb = "floorlog 2 (nat b)"
  have la: "2 ^ (?la - 1) \<le> nat a" "0 < ?la" using a floorlog_bounds [where b = 2 and x = "nat a"]
      floorlog_eq_zero_iff [of 2 "nat a"] by auto
  have lb: "nat b < 2 ^ ?lb" using b floorlog_bounds [where b = 2 and x = "nat b"] by simp
  have "pow2 (int ?la - int ?lb - 1) = 2 ^ (?la - 1) / 2 ^ ?lb"
  proof -
    have e: "int ?la - int ?lb - 1 = int (?la - 1) - int ?lb" using la(2) by simp
    show ?thesis unfolding pow2_def e by (subst power_int_diff) simp_all
  qed
  also have "\<dots> \<le> of_int a / of_int b"
  proof (rule frac_le)
    have "(2 :: int) ^ (?la - 1) \<le> a" using la(1) a by (metis nat_less_iff not_less of_nat_numeral of_nat_power order_less_imp_le int_nat_eq zle_int)
    then have "rat_of_int (2 ^ (?la - 1)) \<le> of_int a" by (simp only: of_int_le_iff)
    then show "(2 :: rat) ^ (?la - 1) \<le> of_int a" by simp
    have "b < (2 :: int) ^ ?lb" using lb b by (metis int_nat_eq less_imp_le of_nat_less_iff of_nat_numeral of_nat_power)
    then have "rat_of_int b < of_int (2 ^ ?lb)" by (simp only: of_int_less_iff)
    then show "rat_of_int b \<le> 2 ^ ?lb" by simp
  qed (use a b in simp_all)
  finally have "pow2 (int ?la - int ?lb - 1) \<le> q" unfolding q .
  then show ?thesis by (simp add: exponent_of_def ab Let_def)
qed

text \<open>
  An integer below \<open>2\<^sup>p\<close> is a grid point of every number below it, so rounding does not cross it.
\<close>

lemma ulp_exp_small:
  assumes "0 \<le> q" and "q < pow2 (fm_precision F)" and "fm_min_exp F \<le> 0"
  shows "ulp_exp F q \<le> 0"
proof (cases "q = 0")
  case True
  then show ?thesis using assms(3) by (simp add: ulp_exp_def)
next
  case False
  with assms(1) have "0 < q" by simp
  from exponent_of_le [OF this] assms(2) have "pow2 (exponent_of q) < pow2 (fm_precision F)" by linarith
  then have "exponent_of q < fm_precision F" by (simp add: pow2_less_iff)
  then show ?thesis using assms(1,3) False by (simp add: ulp_exp_def)
qed

lemma rounded_le_nat:
  assumes "0 \<le> q" and "q \<le> of_nat n" and "of_nat n < pow2 (fm_precision F)" and "fm_min_exp F \<le> 0"
  shows "rounded F q \<le> of_nat n"
proof -
  have "ulp_exp F q \<le> 0" using assms by (intro ulp_exp_small) auto
  from pow2_nonpos [OF this, of n] obtain m where "of_nat n = of_int m * pow2 (ulp_exp F q)" by blast
  then show ?thesis using rounded_le [of q m F] assms(2) by simp
qed

lemma rounded_ge_nat:
  assumes "of_nat n \<le> q" and "q < pow2 (fm_precision F)" and "fm_min_exp F \<le> 0"
  shows "of_nat n \<le> rounded F q"
proof -
  have "0 \<le> q" using assms(1) by (rule order_trans [rotated]) simp
  then have "ulp_exp F q \<le> 0" using assms by (intro ulp_exp_small)
  from pow2_nonpos [OF this, of n] obtain m where "of_nat n = of_int m * pow2 (ulp_exp F q)" by blast
  then show ?thesis using rounded_ge [of m F q] assms(1) by simp
qed

lemma rounded_nat:
  assumes "of_nat n < pow2 (fm_precision F)" and "fm_min_exp F \<le> 0"
  shows "rounded F (of_nat n) = of_nat n"
  using rounded_le_nat [of "of_nat n" n F] rounded_ge_nat [of n "of_nat n" F] assms by simp

lemma formats [simp]:
  "fm_precision f32 = 24" "fm_min_exp f32 = -149" "fm_max_exp f32 = 128"
  "fm_precision f64 = 53" "fm_min_exp f64 = -1074" "fm_max_exp f64 = 1024"
  by (simp_all add: f32_def f64_def)

lemma of_nat_less_pow2: "n < 2 ^ k \<Longrightarrow> rat_of_nat n < pow2 (int k)"
proof -
  assume "n < 2 ^ k"
  then have "rat_of_nat n < rat_of_nat (2 ^ k)" by (simp only: of_nat_less_iff)
  then show ?thesis by (simp add: pow2_def)
qed

definition wide :: "format \<Rightarrow> nat \<Rightarrow> bool" where
  "wide F n \<longleftrightarrow> of_nat n < pow2 (fm_precision F) \<and> fm_min_exp F \<le> 0 \<and> fm_precision F \<le> fm_max_exp F"

lemma wide_f32: "n < 2 ^ 24 \<Longrightarrow> wide f32 n"
  using of_nat_less_pow2 [of n 24] by (simp add: wide_def)

lemma wide_f64: "n < 2 ^ 53 \<Longrightarrow> wide f64 n"
  using of_nat_less_pow2 [of n 53] by (simp add: wide_def)

lemma rnd_le_nat:
  assumes "0 \<le> q" and "q \<le> of_nat n" and "wide F n"
  shows "\<exists>r. rnd F q = Fin r \<and> r = rounded F q \<and> 0 \<le> r \<and> r \<le> of_nat n"
proof -
  have p: "of_nat n < pow2 (fm_precision F)" "fm_precision F \<le> fm_max_exp F" "fm_min_exp F \<le> 0"
    using assms(3) by (simp_all add: wide_def)
  have r: "rounded F q \<le> of_nat n" using assms p by (intro rounded_le_nat)
  have "pow2 (fm_precision F) \<le> pow2 (fm_max_exp F)"
    using p(2) pow2_less_iff [of "fm_precision F" "fm_max_exp F"] by (cases "fm_precision F = fm_max_exp F") auto
  then have "rounded F q < pow2 (fm_max_exp F)" using r p(1) by linarith
  moreover have "0 \<le> rounded F q" using assms(1) by (rule rounded_nonneg)
  moreover have "- pow2 (fm_max_exp F) < 0" by simp
  ultimately show ?thesis using r by (auto simp: rnd_def Let_def)
qed

lemma rnd_nat: "wide F n \<Longrightarrow> rnd F (of_nat n) = Fin (of_nat n)"
  using rnd_le_nat [of "of_nat n" n F] rounded_nat [of n F] by (simp add: wide_def)

lemma of_nat_fl_wide: "wide F n \<Longrightarrow> of_nat_fl F n = Fin (of_nat n)"
  by (simp add: of_nat_fl_def rnd_nat)

lemma wide_mono: "wide F n \<Longrightarrow> m \<le> n \<Longrightarrow> wide F m"
  by (auto simp: wide_def intro: le_less_trans [of "rat_of_nat m" "rat_of_nat n"])

end
