(* ===== verification/Rate_Limit.thy ===== *)
theory Rate_Limit
  imports Float_Model Errors
begin

text \<open>
  The politeness limiters (\<open>millipede-core/src/autoscale/rate_limit.rs\<close>): a token bucket for task
  starts in \<open>f64\<close> arithmetic, and one schedule per host with exponential back-off on 429 responses,
  \<open>Retry-After\<close> and a delay floor. Adding a \<open>Duration\<close> to an \<open>Instant\<close> is unbounded here (the
  process would have to run for centuries).
\<close>

section \<open>The task limiter\<close>

definition as_secs_f64 :: "duration \<Rightarrow> fl" where
  "as_secs_f64 d = fl_add f64 (of_nat_fl f64 (d div 1000000000))
     (fl_div f64 (of_nat_fl f64 (d mod 1000000000)) (Fin 1000000000))"

text \<open>\<open>Duration::from_secs_f64\<close> panics (\<open>None\<close>) on a negative, non-finite or too large argument.\<close>

fun from_secs_f64 :: "fl \<Rightarrow> duration option" where
  "from_secs_f64 (Fin q) =
     (if q < 0 then None
      else let n = nat (round_half_even (q * 1000000000)) in
        if duration_max < n then None else Some n)"
| "from_secs_f64 _ = None"

record task_rate_limiter =
  tr_capacity :: fl
  tr_refill_per_sec :: fl
  tr_tokens :: fl
  tr_last_refill :: instant

definition task_rate_limiter_new :: "u32 \<Rightarrow> instant \<Rightarrow> task_rate_limiter" where
  "task_rate_limiter_new max_tasks_per_minute now =
     (let capacity = of_nat_fl f64 (unat (max max_tasks_per_minute 1)) in
      \<lparr>tr_capacity = capacity, tr_refill_per_sec = fl_div f64 capacity (Fin 60),
       tr_tokens = Fin 1, tr_last_refill = now\<rparr>)"

datatype acquire = Acquired | Wait duration | WaitPanic

definition try_acquire :: "instant \<Rightarrow> task_rate_limiter \<Rightarrow> acquire \<times> task_rate_limiter" where
  "try_acquire now l =
     (let elapsed = now - tr_last_refill l;
          tokens = fl_min (fl_add f64 (tr_tokens l) (fl_mul f64 (as_secs_f64 elapsed) (tr_refill_per_sec l)))
                     (tr_capacity l);
          l1 = l\<lparr>tr_tokens := tokens, tr_last_refill := now\<rparr>
      in if fl_le (Fin 1) tokens then (Acquired, l1\<lparr>tr_tokens := fl_sub f64 tokens (Fin 1)\<rparr>)
         else (case from_secs_f64 (fl_div f64 (fl_sub f64 (Fin 1) tokens) (tr_refill_per_sec l)) of
             Some wait \<Rightarrow> (Wait wait, l1)
           | None \<Rightarrow> (WaitPanic, l1)))"

section \<open>The domain limiter\<close>

record domain_state =
  ds_next_allowed :: "instant option"
  ds_last_reserved :: "instant option"
  ds_consecutive_429s :: u32
  ds_penalty :: duration
  ds_floor :: duration

definition domain_state_default :: domain_state where
  "domain_state_default = \<lparr>ds_next_allowed = None, ds_last_reserved = None, ds_consecutive_429s = 0,
     ds_penalty = 0, ds_floor = 0\<rparr>"

record domain_limiter =
  dl_same_domain_delay :: duration
  dl_state :: "(string \<times> domain_state) list"

definition domain_limiter_new :: "duration \<Rightarrow> domain_limiter" where
  "domain_limiter_new same_domain_delay = \<lparr>dl_same_domain_delay = same_domain_delay, dl_state = []\<rparr>"

definition host_state :: "string \<Rightarrow> domain_limiter \<Rightarrow> domain_state" where
  "host_state host l = (case map_of (dl_state l) host of Some s \<Rightarrow> s | None \<Rightarrow> domain_state_default)"

definition set_host :: "string \<Rightarrow> domain_state \<Rightarrow> domain_limiter \<Rightarrow> domain_limiter" where
  "set_host host s l = l\<lparr>dl_state := AList.update host s (dl_state l)\<rparr>"

definition reserve_state :: "duration \<Rightarrow> instant \<Rightarrow> domain_state \<Rightarrow> duration \<times> domain_state" where
  "reserve_state same_domain_delay now s =
     (let delay = dur_sat_add (max same_domain_delay (ds_floor s)) (ds_penalty s);
          slot = max (case ds_next_allowed s of Some n \<Rightarrow> n | None \<Rightarrow> now) now;
          wait = slot - now
      in (wait, s\<lparr>ds_next_allowed := Some (slot + delay), ds_last_reserved := Some slot\<rparr>))"

definition reserve_slot :: "string \<Rightarrow> instant \<Rightarrow> domain_limiter \<Rightarrow> duration \<times> domain_limiter" where
  "reserve_slot host now l =
     (let (wait, s) = reserve_state (dl_same_domain_delay l) now (host_state host l)
      in (wait, set_host host s l))"

definition raise_next_allowed :: "instant \<Rightarrow> domain_state \<Rightarrow> domain_state" where
  "raise_next_allowed candidate s = s\<lparr>ds_next_allowed :=
     Some (case ds_next_allowed s of Some current \<Rightarrow> max current candidate | None \<Rightarrow> candidate)\<rparr>"

definition penalty_for :: "duration \<Rightarrow> u32 \<Rightarrow> duration" where
  "penalty_for same_domain_delay consecutive_429s =
     (let exponent = min (sat_sub consecutive_429s 1) 31;
          multiplier = push_bit (unat exponent) (1 :: u32);
          base = max same_domain_delay (secs 1);
          product = base * unat multiplier
      in min (if duration_max < product then duration_max else product) (secs (5 * 60)))"

definition note_state ::
  "duration \<Rightarrow> u16 option \<Rightarrow> duration option \<Rightarrow> instant \<Rightarrow> domain_state \<Rightarrow> domain_state" where
  "note_state same_domain_delay status after now s =
     (let s1 =
        (if status = Some 429 then
           let n = sat_add (ds_consecutive_429s s) 1;
               penalty = penalty_for same_domain_delay n;
               baseline = max (case ds_last_reserved s of
                   Some prev \<Rightarrow> prev + max same_domain_delay (ds_floor s)
                 | None \<Rightarrow> (case ds_next_allowed s of Some a \<Rightarrow> a | None \<Rightarrow> now)) now
           in s\<lparr>ds_consecutive_429s := n, ds_penalty := penalty, ds_next_allowed := Some (baseline + penalty)\<rparr>
         else if status \<noteq> None then
           s\<lparr>ds_consecutive_429s := 0, ds_penalty := 0,
             ds_next_allowed := map_option (\<lambda>prev. prev + max same_domain_delay (ds_floor s)) (ds_last_reserved s)\<rparr>
         else s)
      in (case after of Some ra \<Rightarrow> raise_next_allowed (now + ra) s1 | None \<Rightarrow> s1))"

definition note_response ::
  "string \<Rightarrow> u16 option \<Rightarrow> duration option \<Rightarrow> instant \<Rightarrow> domain_limiter \<Rightarrow> domain_limiter" where
  "note_response host status after now l =
     set_host host (note_state (dl_same_domain_delay l) status after now (host_state host l)) l"

definition floor_state :: "duration \<Rightarrow> duration \<Rightarrow> domain_state \<Rightarrow> domain_state" where
  "floor_state same_domain_delay f s =
     (let s1 = s\<lparr>ds_floor := f\<rparr> in
      case ds_last_reserved s1 of
        Some prev \<Rightarrow> raise_next_allowed
          (prev + dur_sat_add (max same_domain_delay (ds_floor s1)) (ds_penalty s1)) s1
      | None \<Rightarrow> s1)"

definition set_delay_floor :: "string \<Rightarrow> duration \<Rightarrow> domain_limiter \<Rightarrow> domain_limiter" where
  "set_delay_floor host f l = set_host host (floor_state (dl_same_domain_delay l) f (host_state host l)) l"

section \<open>Politeness\<close>

text \<open>The next slot of a host is at least the configured delay after the last reserved one.\<close>

definition host_ok :: "duration \<Rightarrow> domain_state \<Rightarrow> bool" where
  "host_ok d s \<longleftrightarrow> ds_floor s \<le> duration_max
     \<and> (\<forall>prev. ds_last_reserved s = Some prev \<longrightarrow>
          (\<exists>n. ds_next_allowed s = Some n \<and> prev + max d (ds_floor s) \<le> n))"

definition limiter_ok :: "domain_limiter \<Rightarrow> bool" where
  "limiter_ok l \<longleftrightarrow> dl_same_domain_delay l \<le> duration_max \<and> (\<forall>h. host_ok (dl_same_domain_delay l) (host_state h l))"

lemma host_state_set: "host_state h (set_host h' s l) = (if h = h' then s else host_state h l)"
  by (simp add: host_state_def set_host_def AList.update_conv')

lemma limiter_ok_set:
  "limiter_ok l \<Longrightarrow> host_ok (dl_same_domain_delay l) s \<Longrightarrow> limiter_ok (set_host h s l)"
  by (simp add: limiter_ok_def host_state_set) (simp add: set_host_def)

lemma limiter_ok_new [simp]: "d \<le> duration_max \<Longrightarrow> limiter_ok (domain_limiter_new d)"
  by (simp add: limiter_ok_def domain_limiter_new_def host_state_def domain_state_default_def host_ok_def)

lemma dur_sat_add_ge: "a \<le> duration_max \<Longrightarrow> a \<le> dur_sat_add a b"
  by (simp add: dur_sat_add_def)

lemma reserve_state_ok:
  assumes "host_ok d s" and "d \<le> duration_max" and "reserve_state d now s = (wait, s')"
  shows "host_ok d s' \<and> ds_last_reserved s' = Some (now + wait)
    \<and> (\<forall>prev. ds_last_reserved s = Some prev \<longrightarrow> prev + max d (ds_floor s) \<le> now + wait)"
proof -
  have "max d (ds_floor s) \<le> dur_sat_add (max d (ds_floor s)) (ds_penalty s)"
    using assms(1,2) by (intro dur_sat_add_ge) (simp add: host_ok_def)
  then show ?thesis using assms by (auto simp: reserve_state_def host_ok_def Let_def max_def split: option.splits if_splits)
qed

lemma raise_next_allowed_ok:
  "host_ok d s \<Longrightarrow> host_ok d (raise_next_allowed c s)"
  by (auto simp: host_ok_def raise_next_allowed_def max_def split: option.splits if_splits)

lemma note_state_ok: "host_ok d s \<Longrightarrow> host_ok d (note_state d st ra now s)"
proof -
  assume s: "host_ok d s"
  let ?s1 = "note_state d st None now s"
  have "host_ok d ?s1" using s by (auto simp: note_state_def host_ok_def Let_def max_def)
  moreover have "note_state d st ra now s = (case ra of Some r \<Rightarrow> raise_next_allowed (now + r) ?s1 | None \<Rightarrow> ?s1)"
    by (simp add: note_state_def split: option.splits)
  ultimately show ?thesis by (auto intro: raise_next_allowed_ok split: option.splits)
qed

lemma floor_state_ok:
  assumes "host_ok d s" and "d \<le> duration_max" and "f \<le> duration_max"
  shows "host_ok d (floor_state d f s)"
proof -
  have "max d f \<le> dur_sat_add (max d f) (ds_penalty s)" using assms by (intro dur_sat_add_ge) simp
  then show ?thesis using assms
    by (auto simp: floor_state_def host_ok_def raise_next_allowed_def Let_def split: option.splits)
qed

text \<open>Any sequence of operations on the limiter; a floor is a duration.\<close>

datatype limiter_event =
  Reserve string instant
| Note string "u16 option" "duration option" instant
| Floor string duration

fun limiter_step :: "limiter_event \<Rightarrow> domain_limiter \<Rightarrow> domain_limiter" where
  "limiter_step (Reserve h now) l = snd (reserve_slot h now l)"
| "limiter_step (Note h st ra now) l = note_response h st ra now l"
| "limiter_step (Floor h f) l = set_delay_floor h f l"

fun event_ok :: "limiter_event \<Rightarrow> bool" where
  "event_ok (Floor h f) = (f \<le> duration_max)"
| "event_ok _ = True"

fun event_host :: "limiter_event \<Rightarrow> string" where
  "event_host (Reserve h _) = h" | "event_host (Note h _ _ _) = h" | "event_host (Floor h _) = h"

lemma dl_delay_step [simp]: "dl_same_domain_delay (limiter_step e l) = dl_same_domain_delay l"
  by (cases e) (auto simp: reserve_slot_def note_response_def set_delay_floor_def set_host_def Let_def split: prod.splits)

lemma limiter_step_ok: "limiter_ok l \<Longrightarrow> event_ok e \<Longrightarrow> limiter_ok (limiter_step e l)"
proof (cases e)
  case (Reserve h now)
  assume l: "limiter_ok l"
  obtain w s where r: "reserve_state (dl_same_domain_delay l) now (host_state h l) = (w, s)"
    by (cases "reserve_state (dl_same_domain_delay l) now (host_state h l)")
  have "host_ok (dl_same_domain_delay l) s" using l reserve_state_ok [OF _ _ r] by (simp add: limiter_ok_def)
  then show ?thesis using l Reserve r by (simp add: reserve_slot_def limiter_ok_set)
next
  case (Note h st ra now)
  assume l: "limiter_ok l"
  then have "host_ok (dl_same_domain_delay l) (host_state h l)" by (simp add: limiter_ok_def)
  with l show ?thesis unfolding Note by (simp add: note_response_def limiter_ok_set note_state_ok)
next
  case (Floor h f)
  assume l: "limiter_ok l" and "event_ok e"
  then have "host_ok (dl_same_domain_delay l) (floor_state (dl_same_domain_delay l) f (host_state h l))"
    using Floor by (intro floor_state_ok) (simp_all add: limiter_ok_def)
  with l show ?thesis unfolding Floor by (simp add: set_delay_floor_def limiter_ok_set)
qed

lemma limiter_run_ok: "limiter_ok l \<Longrightarrow> list_all event_ok es \<Longrightarrow> limiter_ok (fold limiter_step es l)"
  by (induction es arbitrary: l) (auto simp: limiter_step_ok)

lemma limiter_run_delay: "dl_same_domain_delay (fold limiter_step es l) = dl_same_domain_delay l"
  by (induction es arbitrary: l) simp_all

lemma limiter_step_other: "h \<noteq> event_host e \<Longrightarrow> host_state h (limiter_step e l) = host_state h l"
  by (cases e) (auto simp: reserve_slot_def note_response_def set_delay_floor_def host_state_set Let_def split: prod.splits)

text \<open>Between two reservations of a host its last reserved slot does not change.\<close>

fun reserves :: "string \<Rightarrow> limiter_event \<Rightarrow> bool" where
  "reserves h (Reserve h' _) = (h = h')" | "reserves h _ = False"

lemma last_reserved_step:
  "\<not> reserves h e \<Longrightarrow> ds_last_reserved (host_state h (limiter_step e l)) = ds_last_reserved (host_state h l)"
  by (cases e) (auto simp: reserve_slot_def note_response_def set_delay_floor_def host_state_set Let_def
      note_state_def floor_state_def raise_next_allowed_def split: prod.splits option.splits)

lemma last_reserved_run:
  "\<forall>e \<in> set es. \<not> reserves h e \<Longrightarrow>
     ds_last_reserved (host_state h (fold limiter_step es l)) = ds_last_reserved (host_state h l)"
  by (induction es arbitrary: l) (auto simp: last_reserved_step)

text \<open>
  C34. Politeness: take two consecutive reservations of a host with anything in between (responses
  of every status, \<open>Retry-After\<close> values, new floors, other hosts). The slot of the second one is at
  least the same-domain delay, and at least the host's current delay floor, after the slot of the
  first, whatever the clock readings are.
\<close>

theorem same_host_spacing:
  assumes "limiter_ok l" and "reserve_slot h t1 l = (w1, l1)" and "list_all event_ok es"
    and "\<forall>e \<in> set es. \<not> reserves h e" and "reserve_slot h t2 (fold limiter_step es l1) = (w2, l2)"
  shows "t1 + w1 + max (dl_same_domain_delay l) (ds_floor (host_state h (fold limiter_step es l1))) \<le> t2 + w2
    \<and> limiter_ok l2"
proof -
  have l1: "l1 = limiter_step (Reserve h t1) l" using assms(2) by simp
  have d: "dl_same_domain_delay l1 = dl_same_domain_delay l" unfolding l1 by (rule dl_delay_step)
  have ok1: "limiter_ok l1" unfolding l1 using assms(1) by (intro limiter_step_ok) simp_all
  let ?m = "fold limiter_step es l1"
  have ok2: "limiter_ok ?m" using ok1 assms(3) by (rule limiter_run_ok)
  obtain s1 where s1: "reserve_state (dl_same_domain_delay l) t1 (host_state h l) = (w1, s1)" "l1 = set_host h s1 l"
    using assms(2) by (auto simp: reserve_slot_def split: prod.splits)
  have "ds_last_reserved s1 = Some (t1 + w1)"
    using assms(1) reserve_state_ok [OF _ _ s1(1)] by (simp add: limiter_ok_def)
  then have last: "ds_last_reserved (host_state h ?m) = Some (t1 + w1)"
    using last_reserved_run [OF assms(4)] by (simp add: s1(2) host_state_set)
  have dm: "dl_same_domain_delay ?m = dl_same_domain_delay l" using limiter_run_delay d by simp
  obtain s2 where s2: "reserve_state (dl_same_domain_delay l) t2 (host_state h ?m) = (w2, s2)"
    using assms(5) dm by (auto simp: reserve_slot_def split: prod.splits)
  have "host_ok (dl_same_domain_delay l) (host_state h ?m)" "dl_same_domain_delay l \<le> duration_max"
    using ok2 dm by (auto simp: limiter_ok_def)
  from reserve_state_ok [OF this s2] last have
    "t1 + w1 + max (dl_same_domain_delay l) (ds_floor (host_state h ?m)) \<le> t2 + w2" by simp
  moreover have "l2 = limiter_step (Reserve h t2) ?m" using assms(5) by simp
  then have "limiter_ok l2" using limiter_step_ok [OF ok2, of "Reserve h t2"] by (simp only: event_ok.simps)
  ultimately show ?thesis by blast
qed

theorem same_host_spacing_witness:
  "\<exists>w1 l1 w2 l2. reserve_slot ''a'' 0 (domain_limiter_new (millis 200)) = (w1, l1)
    \<and> reserve_slot ''a'' 5 (fold limiter_step [Note ''a'' (Some 200) None 3] l1) = (w2, l2)
    \<and> 0 + w1 + millis 200 \<le> 5 + w2"
proof -
  obtain w1 l1 where r1: "reserve_slot ''a'' 0 (domain_limiter_new (millis 200)) = (w1, l1)"
    by (cases "reserve_slot ''a'' 0 (domain_limiter_new (millis 200))")
  obtain w2 l2 where r2: "reserve_slot ''a'' 5 (fold limiter_step [Note ''a'' (Some 200) None 3] l1) = (w2, l2)"
    by (cases "reserve_slot ''a'' 5 (fold limiter_step [Note ''a'' (Some 200) None 3] l1)")
  have "limiter_ok (domain_limiter_new (millis 200))"
    by (intro limiter_ok_new) (simp add: millis_def duration_max_def secs_def)
  from same_host_spacing [OF this r1 _ _ r2] have "0 + w1 + millis 200 \<le> 5 + w2"
    by (simp add: domain_limiter_new_def max_def split: if_splits)
  then show ?thesis using r1 r2 by blast
qed

section \<open>Back-off\<close>

lemma penalty_for_closed:
  assumes "d \<le> duration_max"
  shows "penalty_for d n = min (max d (secs 1) * 2 ^ min (unat n - 1) 31) (secs 300)"
proof -
  let ?e = "min (sat_sub n 1) (31 :: u32)"
  have e: "unat ?e = min (unat n - 1) 31"
    by (simp add: min_def word_le_nat_alt unat_sat_sub)
  have "unat (push_bit (unat ?e) (1 :: u32)) = 2 ^ unat ?e"
  proof -
    have "2 ^ unat ?e < (2 :: nat) ^ 32" using e by (intro power_strict_increasing) simp_all
    then have "unat (word_of_nat (2 ^ unat ?e) :: u32) = 2 ^ unat ?e" by (intro unat_of_nat_small) simp
    then show ?thesis by (simp add: push_bit_eq_mult)
  qed
  moreover have "secs 300 \<le> duration_max" by (simp add: secs_def duration_max_def)
  ultimately show ?thesis unfolding penalty_for_def Let_def e [symmetric] by (simp add: min_def)
qed

lemma retry_after_honoured: "ra \<le> fst (reserve_slot h t (note_response h st (Some ra) t l))"
proof -
  let ?s = "note_state (dl_same_domain_delay l) st (Some ra) t (host_state h l)"
  obtain s1 where s1: "?s = raise_next_allowed (t + ra) s1" by (simp add: note_state_def Let_def)
  obtain a where a: "ds_next_allowed ?s = Some a" "t + ra \<le> a"
    unfolding s1 raise_next_allowed_def by (cases "ds_next_allowed s1") simp_all
  have "host_state h (note_response h st (Some ra) t l) = ?s"
    by (simp add: note_response_def host_state_set)
  then show ?thesis using a by (simp add: reserve_slot_def reserve_state_def Let_def case_prod_unfold)
qed

text \<open>
  Exponential back-off with a cap and a reset: after \<open>n > 0\<close> consecutive 429 responses the host's
  penalty is the base delay (at least one second) doubled \<open>n - 1\<close> times, never more than five
  minutes; the host is not contacted before the last of them plus that penalty; any other response
  clears the penalty; other hosts are not affected; and a \<open>Retry-After\<close> is honoured by the next
  reservation.
\<close>

theorem backoff_closed_form:
  assumes "dl_same_domain_delay l \<le> duration_max" and "0 < n" and "n < 2 ^ 32"
    and "ds_consecutive_429s (host_state h l) = 0" and "length ts = n"
  defines "l' \<equiv> fold (\<lambda>t l. note_response h (Some 429) None t l) ts l"
  shows "ds_penalty (host_state h l')
      = min (max (dl_same_domain_delay l) (secs 1) * 2 ^ min (n - 1) 31) (secs 300)
    \<and> (\<exists>a. ds_next_allowed (host_state h l') = Some a \<and> List.last ts + ds_penalty (host_state h l') \<le> a)
    \<and> ds_penalty (host_state h (note_response h (Some 200) None t l')) = 0
    \<and> (h' \<noteq> h \<longrightarrow> host_state h' l' = host_state h' l)
    \<and> ra \<le> fst (reserve_slot h t (note_response h st (Some ra) t l'))"
proof -
  define run where "run = (\<lambda>ts. fold (\<lambda>t l. note_response h (Some 429) None t l) ts l)"
  have run: "dl_same_domain_delay (run us) = dl_same_domain_delay l
      \<and> ds_consecutive_429s (host_state h (run us)) = word_of_nat (length us)
      \<and> (h' \<noteq> h \<longrightarrow> host_state h' (run us) = host_state h' l)" if "length us < 2 ^ 32" for us
    using that
  proof (induction us rule: rev_induct)
    case Nil
    then show ?case using assms(4) by (simp add: run_def)
  next
    case (snoc u us)
    have "sat_add (word_of_nat (length us)) 1 = (word_of_nat (Suc (length us)) :: u32)"
      using snoc.prems by (intro sat_add_Suc) simp
    then show ?case using snoc
      by (simp add: run_def note_response_def host_state_set note_state_def Let_def) (simp add: set_host_def)
  qed
  obtain us u where ts: "ts = us @ [u]" using assms(2,5) by (cases ts rule: rev_cases) auto
  have us: "length us < 2 ^ 32" "Suc (length us) = n" using assms(3,5) ts by simp_all
  have inc: "sat_add (word_of_nat (length us)) 1 = (word_of_nat n :: u32)"
    using us assms(3) sat_add_Suc [where 'a = 32, of "length us"] by simp
  have un: "unat (word_of_nat n :: u32) = n" using assms(3) by (intro unat_of_nat_small) simp
  have l': "l' = note_response h (Some 429) None u (run us)" by (simp add: l'_def run_def ts)
  have p: "ds_penalty (host_state h l')
      = min (max (dl_same_domain_delay l) (secs 1) * 2 ^ min (n - 1) 31) (secs 300)"
    using run [OF us(1)] inc un penalty_for_closed [OF assms(1)]
    by (simp add: l' note_response_def host_state_set note_state_def Let_def)
  moreover have "\<exists>a. ds_next_allowed (host_state h l') = Some a \<and> u + ds_penalty (host_state h l') \<le> a"
    by (simp add: l' note_response_def host_state_set note_state_def Let_def)
  moreover have "h' \<noteq> h \<longrightarrow> host_state h' l' = host_state h' l"
    using run [of ts] assms(3,5) by (simp add: l'_def run_def)
  moreover have "ds_penalty (host_state h (note_response h (Some 200) None t l')) = 0"
    by (simp add: note_response_def host_state_set note_state_def)
  moreover have "ra \<le> fst (reserve_slot h t (note_response h st (Some ra) t l'))"
    by (rule retry_after_honoured)
  ultimately show ?thesis by (simp add: ts)
qed

theorem backoff_closed_form_witness:
  "ds_penalty (host_state ''a'' (fold (\<lambda>t l. note_response ''a'' (Some 429) None t l) [1, 2, 3] (domain_limiter_new 0))) = secs 4"
proof -
  have "host_state ''a'' (domain_limiter_new 0) = domain_state_default"
    by (simp add: domain_limiter_new_def host_state_def)
  then show ?thesis
    using backoff_closed_form [of "domain_limiter_new 0" 3 "''a''" "[1, 2, 3]" 0 "''b''" 0 None]
    by (simp add: domain_limiter_new_def domain_state_default_def secs_def)
qed

section \<open>The task limiter never panics\<close>

fun nonneg :: "fl \<Rightarrow> bool" where
  "nonneg PosInf = True" | "nonneg (Fin q) = (0 \<le> q)" | "nonneg _ = False"

lemma rnd_nonneg: "0 \<le> q \<Longrightarrow> nonneg (rnd F q)"
  using rounded_nonneg [of q F] pow2_pos [of "fm_max_exp F"] by (auto simp: rnd_def Let_def)

lemma nonneg_mul: "nonneg x \<Longrightarrow> 0 < q \<Longrightarrow> nonneg (fl_mul F x (Fin q))"
  by (cases x) (auto simp: inf_of_sign_def intro: rnd_nonneg)

lemma nonneg_add: "nonneg x \<Longrightarrow> nonneg y \<Longrightarrow> nonneg (fl_add F x y)"
  by (cases x; cases y) (auto intro: rnd_nonneg)

lemma nonneg_div: "nonneg x \<Longrightarrow> 0 < q \<Longrightarrow> nonneg (fl_div F x (Fin q))"
  by (cases x) (auto intro: rnd_nonneg)

lemma nonneg_secs: "nonneg (as_secs_f64 d)"
proof -
  have "nonneg (of_nat_fl f64 n)" for n unfolding of_nat_fl_def by (rule rnd_nonneg) simp
  then show ?thesis unfolding as_secs_f64_def by (intro nonneg_add nonneg_div) simp_all
qed

lemma fl_min_range: "nonneg x \<Longrightarrow> 0 \<le> c \<Longrightarrow> \<exists>u. fl_min x (Fin c) = Fin u \<and> 0 \<le> u \<and> u \<le> c"
  by (cases x) (auto simp: fl_min_def)

text \<open>A small non-negative number rounds to one that is not larger than an integer above it.\<close>

lemma rnd_f64_le_nat:
  assumes "0 \<le> q" and "q \<le> of_nat n" and "n < 2 ^ 53"
  shows "\<exists>r. rnd f64 q = Fin r \<and> 0 \<le> r \<and> r \<le> of_nat n"
  using rnd_le_nat [OF assms(1,2) wide_f64 [OF assms(3)]] by blast

lemma rnd_f64_ge_64th:
  assumes "1 / 64 \<le> q" and "q \<le> of_nat n" and "n < 2 ^ 40"
  shows "\<exists>r. rnd f64 q = Fin r \<and> 1 / 64 \<le> r"
proof -
  have q: "0 < q" using assms(1) by (rule less_le_trans [rotated]) simp
  have "of_nat n < pow2 40" using of_nat_less_pow2 [OF assms(3)] by simp
  then have "pow2 (exponent_of q) < pow2 40" using exponent_of_le [OF q] assms(2) by linarith
  then have "exponent_of q < 40" by (simp add: pow2_less_iff)
  then have e: "ulp_exp f64 q \<le> -6" using q by (simp add: ulp_exp_def)
  define m :: int where "m = 2 ^ nat (- 6 - ulp_exp f64 q)"
  have "of_int m = pow2 (int (nat (- 6 - ulp_exp f64 q)))" unfolding m_def pow2_def power_int_of_nat by simp
  then have "of_int m * pow2 (ulp_exp f64 q) = pow2 (int (nat (- 6 - ulp_exp f64 q)) + ulp_exp f64 q)"
    unfolding pow2_def by (subst power_int_add) simp_all
  also have "\<dots> = 1 / 64" using e by (simp add: pow2_def power_int_def power_one_over)
  finally have "1 / 64 \<le> rounded f64 q" using rounded_ge [of m f64 q] assms(1) by simp
  moreover obtain r where "rnd f64 q = Fin r" using rnd_f64_le_nat [of q n] q assms(2,3) by fastforce
  ultimately show ?thesis by (auto simp: rnd_def Let_def split: if_splits)
qed

definition task_limiter_ok :: "task_rate_limiter \<Rightarrow> bool" where
  "task_limiter_ok l \<longleftrightarrow> (\<exists>c t r. tr_capacity l = Fin (of_nat c) \<and> tr_tokens l = Fin t \<and> tr_refill_per_sec l = Fin r
     \<and> 1 \<le> c \<and> c < 2 ^ 32 \<and> 0 \<le> t \<and> t \<le> of_nat c \<and> 1 / 64 \<le> r)"

lemma task_limiter_ok_new: "task_limiter_ok (task_rate_limiter_new n now)"
proof -
  define m where "m = unat (max n (1 :: u32))"
  have "unat (1 :: u32) \<le> m" unfolding m_def word_le_nat_alt [symmetric] by (rule max.cobounded2)
  then have m: "1 \<le> m" by simp
  have m32: "m < 2 ^ 32" unfolding m_def using unsigned_less [where 'a = nat, of "max n (1 :: u32)"] by simp
  have c: "of_nat_fl f64 m = Fin (of_nat m)" using m32 by (intro of_nat_fl_wide wide_f64) simp
  have "1 \<le> rat_of_nat m" using m by simp
  then have "1 / 64 \<le> rat_of_nat m / 60" "rat_of_nat m / 60 \<le> of_nat m" by simp_all
  moreover have "m < 2 ^ 40" using m32 by simp
  ultimately obtain q where q: "rnd f64 (of_nat m / 60) = Fin q" "1 / 64 \<le> q"
    using rnd_f64_ge_64th [of "of_nat m / 60" m] by blast
  have "task_rate_limiter_new n now = \<lparr>tr_capacity = Fin (of_nat m), tr_refill_per_sec = Fin q,
      tr_tokens = Fin 1, tr_last_refill = now\<rparr>"
    using c q(1) by (simp add: task_rate_limiter_new_def Let_def flip: m_def)
  then show ?thesis using m m32 q(2) by (simp add: task_limiter_ok_def)
qed

lemma wait_bounded:
  assumes "0 \<le> u" and "u < 1" and "1 / 64 \<le> f"
  shows "\<exists>w. from_secs_f64 (fl_div f64 (fl_sub f64 (Fin 1) (Fin u)) (Fin f)) = Some w \<and> w \<le> secs 64"
proof -
  have f: "0 < f" using assms(3) by (rule less_le_trans [rotated]) simp
  obtain d where d: "rnd f64 (1 - u) = Fin d" "0 \<le> d" "d \<le> 1"
    using rnd_f64_le_nat [of "1 - u" 1] assms by auto
  have "d / f \<le> 1 / (1 / 64)" using d assms(3) by (intro frac_le) simp_all
  then obtain q where q: "rnd f64 (d / f) = Fin q" "0 \<le> q" "q \<le> 64"
    using rnd_f64_le_nat [of "d / f" 64] d f by auto
  have "q * 1000000000 \<le> of_int 64000000000" using q(3) by simp
  then have "round_half_even (q * 1000000000) \<le> 64000000000" by (rule round_half_even_le)
  then have "nat (round_half_even (q * 1000000000)) \<le> secs 64" by (simp add: secs_def)
  moreover have "secs 64 \<le> duration_max" by (simp add: secs_def duration_max_def)
  ultimately show ?thesis using d q f by (simp add: fl_sub_def Let_def)
qed

text \<open>
  The task limiter is safe: from any limiter the constructor makes and over any clock readings,
  the number of tokens stays between zero and the capacity, a start is granted only with a whole
  token, and otherwise the wait is a duration of at most 64 seconds; the conversion of the wait to
  a \<open>Duration\<close> never panics.
\<close>

lemma try_acquire_safe:
  assumes "task_limiter_ok l" and "try_acquire now l = (r, l')"
  shows "task_limiter_ok (task_rate_limiter_new n t0) \<and> task_limiter_ok l'
    \<and> r \<noteq> WaitPanic \<and> (\<forall>w. r = Wait w \<longrightarrow> w \<le> secs 64)"
proof -
  obtain c t f where l: "tr_capacity l = Fin (of_nat c)" "tr_tokens l = Fin t" "tr_refill_per_sec l = Fin f"
    "1 \<le> c" "c < 2 ^ 32" "0 \<le> t" "t \<le> of_nat c" "1 / 64 \<le> f" using assms(1) by (auto simp: task_limiter_ok_def)
  have f: "0 < f" using l(8) by (rule less_le_trans [rotated]) simp
  define k where "k = fl_min (fl_add f64 (Fin t) (fl_mul f64 (as_secs_f64 (now - tr_last_refill l)) (Fin f))) (Fin (of_nat c))"
  have "nonneg (fl_add f64 (Fin t) (fl_mul f64 (as_secs_f64 (now - tr_last_refill l)) (Fin f)))"
    using nonneg_mul [OF nonneg_secs f] l(6) by (intro nonneg_add) simp_all
  then obtain u where k: "k = Fin u" "0 \<le> u" "u \<le> of_nat c" unfolding k_def
    using fl_min_range [of _ "rat_of_nat c"] by (metis of_nat_0_le_iff)
  have step: "try_acquire now l = (if 1 \<le> u
      then (Acquired, l\<lparr>tr_tokens := rnd f64 (u - 1), tr_last_refill := now\<rparr>)
      else (case from_secs_f64 (fl_div f64 (fl_sub f64 (Fin 1) (Fin u)) (Fin f)) of
          Some wait \<Rightarrow> (Wait wait, l\<lparr>tr_tokens := Fin u, tr_last_refill := now\<rparr>)
        | None \<Rightarrow> (WaitPanic, l\<lparr>tr_tokens := Fin u, tr_last_refill := now\<rparr>)))"
    unfolding try_acquire_def l k_def [symmetric] k(1) Let_def by (simp add: fl_sub_def)
  show ?thesis
  proof (cases "1 \<le> u")
    case True
    have "u - 1 \<le> of_nat c" using k(3) by linarith
    then obtain v where "rnd f64 (u - 1) = Fin v" "0 \<le> v" "v \<le> of_nat c"
      using rnd_f64_le_nat [of "u - 1" c] True l(5) by auto
    then show ?thesis using assms(2) step True l task_limiter_ok_new by (auto simp: task_limiter_ok_def)
  next
    case False
    then obtain w where "from_secs_f64 (fl_div f64 (fl_sub f64 (Fin 1) (Fin u)) (Fin f)) = Some w" "w \<le> secs 64"
      using wait_bounded [of u f] k(2) l(8) by auto
    then show ?thesis using assms(2) step False l k task_limiter_ok_new by (auto simp: task_limiter_ok_def)
  qed
qed

end
