(* ===== verification/Autoscale.thy ===== *)
theory Autoscale
  imports Rate_Limit
begin

text \<open>
  Concurrency control (\<open>millipede-core/src/autoscale/\<close>): the AIMD controller, load-signal histories
  and their evaluation, proportional scaling and the pool that the dispatcher consults. The atomic
  fields of the code are updated under a spin lock or by one atomic update, so every operation is
  one step here. A load signal is its list of observations; the sources of the observations (CPU,
  memory, timer lag, client counters) are inputs.
\<close>

section \<open>AIMD\<close>

record aimd_controller =
  ac_min :: nat
  ac_max :: nat
  ac_increase_after_successes :: nat
  ac_decrease_factor :: fl
  ac_desired :: nat
  ac_success_streak :: nat

definition clamp :: "nat \<Rightarrow> nat \<Rightarrow> nat \<Rightarrow> nat" where
  "clamp x lo hi = (if x < lo then lo else if hi < x then hi else x)"

definition aimd_new :: "nat \<Rightarrow> nat \<Rightarrow> nat \<Rightarrow> nat \<Rightarrow> fl \<Rightarrow> aimd_controller" where
  "aimd_new min_concurrency max_concurrency initial_concurrency increase_after_successes decrease_factor =
     (let mn = max min_concurrency 1; mx = max max_concurrency mn in
      \<lparr>ac_min = mn, ac_max = mx, ac_increase_after_successes = max increase_after_successes 1,
       ac_decrease_factor =
         (if fl_lt (Fin 0) decrease_factor \<and> fl_le decrease_factor (Fin 1) then decrease_factor else Fin (1 / 2)),
       ac_desired = clamp initial_concurrency mn mx, ac_success_streak = 0\<rparr>)"

definition record_success :: "aimd_controller \<Rightarrow> aimd_controller" where
  "record_success c =
     (let previous = ac_success_streak c;
          next_streak = usize_sat_add previous 1;
          c1 = c\<lparr>ac_success_streak :=
            (if ac_increase_after_successes c \<le> next_streak
             then next_streak - ac_increase_after_successes c else next_streak)\<rparr>
      in if ac_increase_after_successes c - 1 \<le> previous
         then c1\<lparr>ac_desired := min (usize_sat_add (ac_desired c) 1) (ac_max c)\<rparr>
         else c1)"

definition record_setback :: "aimd_controller \<Rightarrow> aimd_controller" where
  "record_setback c = c\<lparr>ac_success_streak := 0,
     ac_desired := clamp (fl_as_usize (fl_round
       (fl_mul f32 (of_nat_fl f32 (ac_desired c)) (ac_decrease_factor c)))) (ac_min c) (ac_max c)\<rparr>"

section \<open>Load signals\<close>

record load_snapshot =
  ls_at :: instant
  ls_overloaded :: bool

definition HISTORY_MAX_AGE :: duration where
  "HISTORY_MAX_AGE = secs 300"

definition HISTORY_MAX_LEN :: nat where
  "HISTORY_MAX_LEN = 4096"

text \<open>
  \<open>checked_sub\<close> on an \<open>Instant\<close> is \<open>None\<close> below the origin of the clock. The two loops of \<open>push\<close>
  drop entries from the front.
\<close>

definition checked_sub :: "instant \<Rightarrow> duration \<Rightarrow> instant option" where
  "checked_sub t d = (if d \<le> t then Some (t - d) else None)"

definition history_push :: "load_snapshot \<Rightarrow> load_snapshot list \<Rightarrow> load_snapshot list" where
  "history_push s h =
     (let h1 = h @ [s];
          h2 = (case checked_sub (ls_at s) HISTORY_MAX_AGE of
                  Some cutoff \<Rightarrow> dropWhile (\<lambda>e. ls_at e < cutoff) h1
                | None \<Rightarrow> h1)
      in drop (length h2 - HISTORY_MAX_LEN) h2)"

definition history_sample :: "instant \<Rightarrow> duration \<Rightarrow> load_snapshot list \<Rightarrow> load_snapshot list" where
  "history_sample now window h =
     (case checked_sub now window of
        None \<Rightarrow> h
      | Some cutoff \<Rightarrow> filter (\<lambda>s. cutoff \<le> ls_at s) h)"

text \<open>The overload tests of the CPU, memory and timer-lag signals.\<close>

definition cpu_overloaded :: "fl \<Rightarrow> fl \<Rightarrow> bool" where
  "cpu_overloaded usage threshold = fl_lt threshold usage"

definition memory_overloaded :: "nat \<Rightarrow> nat \<Rightarrow> fl \<Rightarrow> bool" where
  "memory_overloaded used budget threshold =
     (budget \<noteq> 0 \<and> fl_lt threshold (fl_div f64 (of_nat_fl f64 used) (of_nat_fl f64 budget)))"

definition lag_overloaded :: "duration \<Rightarrow> duration \<Rightarrow> bool" where
  "lag_overloaded lag max_lag = (max_lag < lag)"

section \<open>Evaluation\<close>

datatype scale_decision = ScaleUp | ScaleDown | Hold

text \<open>\<open>Iterator::max_by_key\<close> returns the last of several greatest elements.\<close>

fun max_by_at :: "load_snapshot list \<Rightarrow> load_snapshot option" where
  "max_by_at [] = None"
| "max_by_at (s # ss) =
     (case max_by_at ss of
        None \<Rightarrow> Some s
      | Some m \<Rightarrow> if ls_at s \<le> ls_at m then Some m else Some s)"

definition latest_overloaded :: "load_snapshot list \<Rightarrow> bool" where
  "latest_overloaded samples = (case max_by_at samples of Some s \<Rightarrow> ls_overloaded s | None \<Rightarrow> False)"

definition healthy_ratio :: "load_snapshot list \<Rightarrow> fl" where
  "healthy_ratio samples = fl_div f32 (of_nat_fl f32 (length (filter (\<lambda>s. \<not> ls_overloaded s) samples)))
     (of_nat_fl f32 (length samples))"

text \<open>The loop over the signals: \<open>None\<close> is its early return.\<close>

fun collect_ratios :: "nat \<Rightarrow> load_snapshot list list \<Rightarrow> fl list option" where
  "collect_ratios min_samples [] = Some []"
| "collect_ratios min_samples (samples # rest) =
     (if latest_overloaded samples then None
      else map_option (\<lambda>rs. if min_samples \<le> length samples then healthy_ratio samples # rs else rs)
             (collect_ratios min_samples rest))"

definition evaluate :: "nat \<Rightarrow> load_snapshot list list \<Rightarrow> fl \<Rightarrow> scale_decision" where
  "evaluate min_samples signals desired_utilization_ratio =
     (case collect_ratios (max min_samples 1) signals of
        None \<Rightarrow> ScaleDown
      | Some ratios \<Rightarrow>
          if ratios = [] then Hold
          else
            let mean = fl_div f32 (foldl (fl_add f32) (Fin 0) ratios) (of_nat_fl f32 (length ratios)) in
            if fl_le desired_utilization_ratio mean then ScaleUp else Hold)"

definition apply_scale_decision :: "nat \<Rightarrow> scale_decision \<Rightarrow> nat \<Rightarrow> nat \<Rightarrow> fl \<Rightarrow> fl \<Rightarrow> nat" where
  "apply_scale_decision current decision mn mx up_ratio down_ratio =
     (case decision of
        Hold \<Rightarrow> current
      | ScaleUp \<Rightarrow> min (usize_sat_add current
          (max (fl_as_usize (fl_ceil (fl_mul f32 (of_nat_fl f32 current) up_ratio))) 1)) (max mx mn)
      | ScaleDown \<Rightarrow> max (current
          - max (fl_as_usize (fl_ceil (fl_mul f32 (of_nat_fl f32 current) down_ratio))) 1) mn)"

section \<open>The pool\<close>

datatype autoscale_mode = AimdMode nat fl | LoadSignalsMode

datatype attempt_outcome_kind = Success | Setback

datatype pool_mode = Fixed nat | AimdPool aimd_controller | LoadSignalsPool nat

record autoscaled_pool_options =
  ao_fixed_concurrency :: "nat option"
  ao_min_concurrency :: nat
  ao_max_concurrency :: nat
  ao_desired_concurrency :: "nat option"
  ao_scale_up_step_ratio :: fl
  ao_scale_down_step_ratio :: fl
  ao_desired_utilization_ratio :: fl
  ao_max_tasks_per_minute :: "u32 option"
  ao_same_domain_delay :: duration
  ao_mode :: autoscale_mode
  ao_signal_count :: nat
  ao_min_samples :: nat

record autoscaled_pool =
  ap_mode :: pool_mode
  ap_min :: nat
  ap_max :: nat
  ap_scale_up_step_ratio :: fl
  ap_scale_down_step_ratio :: fl
  ap_desired_utilization_ratio :: fl
  ap_min_samples :: nat
  ap_task_rate_limiter :: "task_rate_limiter option"
  ap_domain_limiter :: domain_limiter

definition pool_of_options :: "autoscaled_pool_options \<Rightarrow> instant \<Rightarrow> autoscaled_pool" where
  "pool_of_options opts now =
     (let mn = max (ao_min_concurrency opts) 1;
          mx = max (ao_max_concurrency opts) mn;
          initial = (case ao_desired_concurrency opts of Some d \<Rightarrow> d | None \<Rightarrow> mn);
          mode = (case ao_fixed_concurrency opts of
              Some fixed \<Rightarrow> Fixed (max fixed 1)
            | None \<Rightarrow> (case ao_mode opts of
                AimdMode increase decrease \<Rightarrow> AimdPool (aimd_new mn mx initial increase decrease)
              | LoadSignalsMode \<Rightarrow>
                  if ao_signal_count opts = 0 then AimdPool (aimd_new mn mx initial 10 (Fin (1 / 2)))
                  else LoadSignalsPool (clamp initial mn mx)))
      in \<lparr>ap_mode = mode, ap_min = mn, ap_max = mx,
          ap_scale_up_step_ratio = ao_scale_up_step_ratio opts,
          ap_scale_down_step_ratio = ao_scale_down_step_ratio opts,
          ap_desired_utilization_ratio = ao_desired_utilization_ratio opts,
          ap_min_samples = ao_min_samples opts,
          ap_task_rate_limiter = map_option (\<lambda>n. task_rate_limiter_new n now) (ao_max_tasks_per_minute opts),
          ap_domain_limiter = domain_limiter_new (ao_same_domain_delay opts)\<rparr>)"

definition desired_concurrency :: "autoscaled_pool \<Rightarrow> nat" where
  "desired_concurrency p = (case ap_mode p of Fixed v \<Rightarrow> v | AimdPool c \<Rightarrow> ac_desired c | LoadSignalsPool d \<Rightarrow> d)"

definition min_concurrency :: "autoscaled_pool \<Rightarrow> nat" where
  "min_concurrency p = (case ap_mode p of Fixed v \<Rightarrow> v | _ \<Rightarrow> ap_min p)"

definition max_concurrency :: "autoscaled_pool \<Rightarrow> nat" where
  "max_concurrency p = (case ap_mode p of Fixed v \<Rightarrow> v | _ \<Rightarrow> ap_max p)"

definition set_domain_delay_floor :: "string \<Rightarrow> duration \<Rightarrow> autoscaled_pool \<Rightarrow> autoscaled_pool" where
  "set_domain_delay_floor host f p = p\<lparr>ap_domain_limiter := set_delay_floor host f (ap_domain_limiter p)\<rparr>"

definition record_outcome :: "attempt_outcome_kind \<Rightarrow> autoscaled_pool \<Rightarrow> autoscaled_pool" where
  "record_outcome outcome p =
     (case ap_mode p of
        AimdPool c \<Rightarrow> p\<lparr>ap_mode := AimdPool (case outcome of Success \<Rightarrow> record_success c | Setback \<Rightarrow> record_setback c)\<rparr>
      | _ \<Rightarrow> p)"

definition task_token_wait :: "instant \<Rightarrow> autoscaled_pool \<Rightarrow> acquire option \<times> autoscaled_pool" where
  "task_token_wait now p =
     (case ap_task_rate_limiter p of
        None \<Rightarrow> (None, p)
      | Some l \<Rightarrow>
          let (r, l') = try_acquire now l; p' = p\<lparr>ap_task_rate_limiter := Some l'\<rparr> in
          if r = Acquired then (None, p') else (Some r, p'))"

definition domain_slot_wait :: "string \<Rightarrow> instant \<Rightarrow> autoscaled_pool \<Rightarrow> duration \<times> autoscaled_pool" where
  "domain_slot_wait host now p =
     (let (w, l) = reserve_slot host now (ap_domain_limiter p) in (w, p\<lparr>ap_domain_limiter := l\<rparr>))"

definition pool_note_response ::
  "string \<Rightarrow> u16 option \<Rightarrow> duration option \<Rightarrow> instant \<Rightarrow> autoscaled_pool \<Rightarrow> autoscaled_pool" where
  "pool_note_response host status after now p =
     p\<lparr>ap_domain_limiter := note_response host status after now (ap_domain_limiter p)\<rparr>"

text \<open>One tick of the background task; the second component says whether \<open>on_scale_change\<close> is called.\<close>

definition background_tick :: "load_snapshot list list \<Rightarrow> autoscaled_pool \<Rightarrow> autoscaled_pool \<times> bool" where
  "background_tick signals p =
     (case ap_mode p of
        LoadSignalsPool current \<Rightarrow>
          let decision = evaluate (ap_min_samples p) signals (ap_desired_utilization_ratio p);
              updated = apply_scale_decision current decision (ap_min p) (ap_max p)
                (ap_scale_up_step_ratio p) (ap_scale_down_step_ratio p)
          in (p\<lparr>ap_mode := LoadSignalsPool updated\<rparr>, updated \<noteq> current)
      | _ \<Rightarrow> (p, False))"

section \<open>Bounds\<close>

definition aimd_ok :: "aimd_controller \<Rightarrow> bool" where
  "aimd_ok c \<longleftrightarrow> 1 \<le> ac_min c \<and> ac_min c \<le> ac_desired c \<and> ac_desired c \<le> ac_max c
     \<and> 1 \<le> ac_increase_after_successes c \<and> ac_success_streak c < ac_increase_after_successes c
     \<and> fl_lt (Fin 0) (ac_decrease_factor c) \<and> fl_le (ac_decrease_factor c) (Fin 1)"

definition pool_ok :: "autoscaled_pool \<Rightarrow> bool" where
  "pool_ok p \<longleftrightarrow> 1 \<le> min_concurrency p \<and> min_concurrency p \<le> desired_concurrency p
     \<and> desired_concurrency p \<le> max_concurrency p
     \<and> (\<forall>c. ap_mode p = AimdPool c \<longrightarrow> aimd_ok c \<and> ac_min c = ap_min p \<and> ac_max c = ap_max p)"

lemma clamp_range: "lo \<le> hi \<Longrightarrow> lo \<le> clamp x lo hi \<and> clamp x lo hi \<le> hi"
  by (simp add: clamp_def)

lemma aimd_new_ok: "aimd_ok (aimd_new mn mx initial k f)"
  using clamp_range [of "max mn 1" "max mx (max mn 1)" initial]
  by (auto simp: aimd_ok_def aimd_new_def Let_def fl_lt_def less_max_iff_disj)

lemma record_success_ok:
  assumes "aimd_ok c" and "ac_max c \<le> usize_max"
  shows "aimd_ok (record_success c)"
  using assms by (auto simp: aimd_ok_def record_success_def usize_sat_add_def Let_def min_def)

lemma record_setback_ok: "aimd_ok c \<Longrightarrow> aimd_ok (record_setback c)"
  using clamp_range [of "ac_min c" "ac_max c"] by (auto simp: aimd_ok_def record_setback_def)

lemma apply_scale_bounds:
  assumes "mn \<le> current" and "current \<le> mx" and "mx \<le> usize_max"
  shows "mn \<le> apply_scale_decision current d mn mx up down"
    and "apply_scale_decision current d mn mx up down \<le> mx"
    and "d = ScaleUp \<Longrightarrow> current < mx \<Longrightarrow> current < apply_scale_decision current d mn mx up down"
    and "d = ScaleDown \<Longrightarrow> mn < current \<Longrightarrow> apply_scale_decision current d mn mx up down < current"
    and "d = ScaleUp \<Longrightarrow> current \<le> apply_scale_decision current d mn mx up down"
    and "d = ScaleDown \<Longrightarrow> apply_scale_decision current d mn mx up down \<le> current"
  using assms by (cases d; auto simp: apply_scale_decision_def usize_sat_add_def)+

lemma pool_ok_limiter [simp]: "pool_ok (p\<lparr>ap_domain_limiter := l\<rparr>) = pool_ok p"
  "pool_ok (p\<lparr>ap_task_rate_limiter := t\<rparr>) = pool_ok p"
  by (simp_all add: pool_ok_def min_concurrency_def max_concurrency_def desired_concurrency_def split: pool_mode.splits)

lemma record_bounds [simp]:
  "ac_min (record_success c) = ac_min c" "ac_max (record_success c) = ac_max c"
  "ac_min (record_setback c) = ac_min c" "ac_max (record_setback c) = ac_max c"
  by (simp_all add: record_success_def record_setback_def Let_def)

lemma pool_ok_aimd:
  "ap_mode p = AimdPool c \<Longrightarrow> pool_ok p \<longleftrightarrow> aimd_ok c \<and> ac_min c = ap_min p \<and> ac_max c = ap_max p"
  by (auto simp: pool_ok_def min_concurrency_def max_concurrency_def desired_concurrency_def aimd_ok_def)

lemma pool_ops_bounds:
  assumes "pool_ok p" and "max_concurrency p \<le> usize_max"
  shows "pool_ok (pool_of_options opts now) \<and> pool_ok (record_outcome k p) \<and> pool_ok (fst (background_tick signals p))
    \<and> pool_ok (snd (task_token_wait t p)) \<and> pool_ok (snd (domain_slot_wait h t p))
    \<and> pool_ok (pool_note_response h st after t p) \<and> pool_ok (set_domain_delay_floor h f p)
    \<and> max_concurrency (record_outcome k p) = max_concurrency p
    \<and> max_concurrency (fst (background_tick signals p)) = max_concurrency p"
proof (intro conjI)
  note d = pool_ok_def min_concurrency_def max_concurrency_def desired_concurrency_def
  let ?mn = "max (ao_min_concurrency opts) 1"
  let ?mx = "max (ao_max_concurrency opts) ?mn"
  have aimd: "aimd_ok (aimd_new ?mn ?mx i k f)" "ac_min (aimd_new ?mn ?mx i k f) = ?mn"
    "ac_max (aimd_new ?mn ?mx i k f) = ?mx" for i k f
    using aimd_new_ok by (simp_all add: aimd_new_def Let_def)
  then have aimd_d: "?mn \<le> ac_desired (aimd_new ?mn ?mx i k f) \<and> ac_desired (aimd_new ?mn ?mx i k f) \<le> ?mx" for i k f
    using aimd_new_ok [of ?mn ?mx i k f] by (simp add: aimd_ok_def)
  have cl: "?mn \<le> clamp i ?mn ?mx \<and> clamp i ?mn ?mx \<le> ?mx" for i by (rule clamp_range) simp
  show "pool_ok (pool_of_options opts now)"
    using aimd aimd_d cl
    by (auto simp: pool_of_options_def d Let_def simp del: max.bounded_iff split: option.splits autoscale_mode.splits)
  show "pool_ok (record_outcome k p)"
  proof (cases "ap_mode p")
    case (AimdPool c)
    then have "aimd_ok c" "ac_min c = ap_min p" "ac_max c = ap_max p" using assms(1) pool_ok_aimd by blast+
    moreover have "ac_max c \<le> usize_max" using AimdPool assms(2) calculation(3) by (simp add: max_concurrency_def)
    ultimately show ?thesis using AimdPool record_success_ok record_setback_ok
      by (cases k) (simp_all add: record_outcome_def pool_ok_aimd)
  qed (use assms(1) in \<open>simp_all add: record_outcome_def\<close>)
  show "pool_ok (fst (background_tick signals p))"
    using assms apply_scale_bounds(1,2) [of "ap_min p" _ "ap_max p"]
    by (cases "ap_mode p") (auto simp: d background_tick_def Let_def)
  show "pool_ok (snd (task_token_wait t p))" "pool_ok (snd (domain_slot_wait h t p))"
    using assms(1) by (auto simp: task_token_wait_def domain_slot_wait_def Let_def split: option.splits prod.splits)
  show "pool_ok (pool_note_response h st after t p)" "pool_ok (set_domain_delay_floor h f p)"
    using assms(1) by (simp_all add: pool_note_response_def set_domain_delay_floor_def)
  show "max_concurrency (record_outcome k p) = max_concurrency p"
    "max_concurrency (fst (background_tick signals p)) = max_concurrency p"
    by (auto simp: max_concurrency_def record_outcome_def background_tick_def Let_def split: pool_mode.splits)
qed

definition sample_options :: autoscaled_pool_options where
  "sample_options = \<lparr>ao_fixed_concurrency = None, ao_min_concurrency = 1, ao_max_concurrency = 200,
     ao_desired_concurrency = Some 8, ao_scale_up_step_ratio = Fin (1 / 20), ao_scale_down_step_ratio = Fin (1 / 20),
     ao_desired_utilization_ratio = Fin (9 / 10), ao_max_tasks_per_minute = None, ao_same_domain_delay = 0,
     ao_mode = AimdMode 10 (Fin (1 / 2)), ao_signal_count = 0, ao_min_samples = 0\<rparr>"

definition sample_scaling :: autoscaled_pool where
  "sample_scaling = pool_of_options sample_options 0"

lemma sample_scaling_ok: "pool_ok sample_scaling" "max_concurrency sample_scaling \<le> usize_max"
proof -
  have m: "sample_scaling = sample_scaling\<lparr>ap_mode := AimdPool (aimd_new 1 200 8 10 (Fin (1 / 2)))\<rparr>"
    "ap_min sample_scaling = 1" "ap_max sample_scaling = 200"
    by (simp_all add: sample_scaling_def pool_of_options_def sample_options_def Let_def)
  then have "ap_mode sample_scaling = AimdPool (aimd_new 1 200 8 10 (Fin (1 / 2)))"
    by (metis autoscaled_pool.select_convs(1) autoscaled_pool.surjective autoscaled_pool.update_convs(1))
  then show "pool_ok sample_scaling" "max_concurrency sample_scaling \<le> usize_max"
    using m(2,3) aimd_new_ok [of 1 200 8 10 "Fin (1 / 2)"]
    by (simp_all add: pool_ok_aimd aimd_new_def Let_def max_concurrency_def usize_max_def)
qed

lemma pool_of_options_ok: "pool_ok (pool_of_options opts now)"
  using pool_ops_bounds [OF sample_scaling_ok] by blast

text \<open>A pool that is in bounds and whose task limiter never panics.\<close>

definition pool_safe :: "autoscaled_pool \<Rightarrow> bool" where
  "pool_safe p \<longleftrightarrow> pool_ok p \<and> max_concurrency p \<le> usize_max
     \<and> (\<forall>l. ap_task_rate_limiter p = Some l \<longrightarrow> task_limiter_ok l)"

lemma pool_of_options_safe:
  "max_concurrency (pool_of_options opts now) \<le> usize_max \<Longrightarrow> pool_safe (pool_of_options opts now)"
  using pool_of_options_ok task_limiter_ok_new by (auto simp: pool_safe_def pool_of_options_def Let_def)

lemma task_limiter_fields [simp]:
  "ap_task_rate_limiter (record_outcome k p) = ap_task_rate_limiter p"
  "ap_task_rate_limiter (fst (background_tick signals p)) = ap_task_rate_limiter p"
  "ap_task_rate_limiter (snd (domain_slot_wait h t p)) = ap_task_rate_limiter p"
  "ap_task_rate_limiter (pool_note_response h st after t p) = ap_task_rate_limiter p"
  "ap_task_rate_limiter (set_domain_delay_floor h f p) = ap_task_rate_limiter p"
  by (simp_all add: record_outcome_def background_tick_def domain_slot_wait_def pool_note_response_def
      set_domain_delay_floor_def Let_def split: pool_mode.splits prod.splits)

lemma max_concurrency_fields [simp]:
  "max_concurrency (record_outcome k p) = max_concurrency p"
  "max_concurrency (fst (background_tick signals p)) = max_concurrency p"
  "max_concurrency (snd (task_token_wait t p)) = max_concurrency p"
  "max_concurrency (snd (domain_slot_wait h t p)) = max_concurrency p"
  "max_concurrency (pool_note_response h st after t p) = max_concurrency p"
  "max_concurrency (set_domain_delay_floor h f p) = max_concurrency p"
  by (auto simp: max_concurrency_def record_outcome_def background_tick_def task_token_wait_def domain_slot_wait_def
      pool_note_response_def set_domain_delay_floor_def Let_def split: pool_mode.splits option.splits prod.splits)

lemma token_wait_safe:
  assumes "pool_safe p"
  shows "pool_safe (snd (task_token_wait t p)) \<and> fst (task_token_wait t p) \<noteq> Some WaitPanic
    \<and> fst (task_token_wait t p) \<noteq> Some Acquired"
proof (cases "ap_task_rate_limiter p")
  case None
  then show ?thesis using assms by (simp add: task_token_wait_def)
next
  case (Some l)
  obtain r l' where a: "try_acquire t l = (r, l')" by fastforce
  have "task_limiter_ok l" using assms Some by (simp add: pool_safe_def)
  then have "task_limiter_ok l'" "r \<noteq> WaitPanic" using try_acquire_safe a by blast+
  moreover have "max_concurrency (p\<lparr>ap_task_rate_limiter := Some l'\<rparr>) = max_concurrency p"
    by (simp add: max_concurrency_def split: pool_mode.split)
  ultimately show ?thesis using assms Some a by (auto simp: task_token_wait_def Let_def pool_safe_def)
qed

lemma pool_safe_ops:
  assumes "pool_safe p"
  shows "pool_safe (record_outcome k p)" "pool_safe (fst (background_tick signals p))"
    "pool_safe (snd (domain_slot_wait h t p))" "pool_safe (pool_note_response h st after t p)"
    "pool_safe (set_domain_delay_floor h f p)"
  using assms pool_ops_bounds [of p] by (simp_all add: pool_safe_def)

datatype pool_op =
    Outcome attempt_outcome_kind
  | Background "load_snapshot list list"
  | TaskToken instant
  | DomainSlot string instant
  | Response string "u16 option" "duration option" instant
  | DelayFloorOp string duration

fun pool_step :: "pool_op \<Rightarrow> autoscaled_pool \<Rightarrow> autoscaled_pool" where
  "pool_step (Outcome k) p = record_outcome k p"
| "pool_step (Background signals) p = fst (background_tick signals p)"
| "pool_step (TaskToken t) p = snd (task_token_wait t p)"
| "pool_step (DomainSlot h t) p = snd (domain_slot_wait h t p)"
| "pool_step (Response h st after t) p = pool_note_response h st after t p"
| "pool_step (DelayFloorOp h f) p = set_domain_delay_floor h f p"

lemma pool_run_safe:
  "pool_safe p \<Longrightarrow> pool_safe (fold pool_step ops p) \<and> max_concurrency (fold pool_step ops p) = max_concurrency p"
proof (induction ops arbitrary: p)
  case (Cons op ops)
  have "pool_safe (pool_step op p) \<and> max_concurrency (pool_step op p) = max_concurrency p"
    using Cons.prems token_wait_safe pool_safe_ops by (cases op) simp_all
  then show ?case using Cons.IH by simp
qed simp

text \<open>
  C35. Concurrency stays in bounds: whatever sequence of outcomes, background ticks under any load,
  limiter calls and robots delays a constructed pool goes through, in each of its three modes, it wants
  at least one, at least \<open>min\<close> and at most \<open>max\<close> concurrent attempts, the maximum never changes, and
  the conversion of a task token's wait to a \<open>Duration\<close> never panics.
\<close>

theorem desired_in_bounds:
  assumes "max_concurrency (pool_of_options opts now) \<le> usize_max"
  shows "let p = fold pool_step ops (pool_of_options opts now) in
    1 \<le> min_concurrency p \<and> min_concurrency p \<le> desired_concurrency p \<and> desired_concurrency p \<le> max_concurrency p
    \<and> max_concurrency p = max_concurrency (pool_of_options opts now)
    \<and> fst (task_token_wait t p) \<noteq> Some WaitPanic"
proof -
  define p where "p = fold pool_step ops (pool_of_options opts now)"
  have p: "pool_safe p" "max_concurrency p = max_concurrency (pool_of_options opts now)"
    using pool_run_safe [OF pool_of_options_safe [OF assms], of ops] by (simp_all add: p_def)
  have "fst (task_token_wait t p) \<noteq> Some WaitPanic" using token_wait_safe [OF p(1)] by blast
  then show ?thesis using p unfolding p_def [symmetric] Let_def pool_safe_def pool_ok_def by blast
qed

theorem desired_in_bounds_witness:
  "desired_concurrency (fold pool_step [Outcome Setback, TaskToken 3, Outcome Success] (pool_of_options sample_options 0)) \<le> 200"
proof -
  have m: "max_concurrency (pool_of_options sample_options 0) = 200"
    by (simp add: max_concurrency_def pool_of_options_def sample_options_def Let_def)
  then have "max_concurrency (pool_of_options sample_options 0) \<le> usize_max" by (simp add: usize_max_def)
  from desired_in_bounds [OF this, of "[Outcome Setback, TaskToken 3, Outcome Success]" 0] show ?thesis
    unfolding Let_def m by linarith
qed

section \<open>Additive increase, multiplicative decrease\<close>

lemma success_run:
  assumes "aimd_ok c" and "ac_success_streak c = 0" and "ac_increase_after_successes c \<le> usize_max"
    and "j < ac_increase_after_successes c"
  shows "(record_success ^^ j) c = c\<lparr>ac_success_streak := j\<rparr>"
  using assms(4)
proof (induction j)
  case 0
  then show ?case using assms(2) by simp
next
  case (Suc j)
  then show ?case using assms(1,3) by (auto simp: record_success_def usize_sat_add_def Let_def aimd_ok_def)
qed

lemma success_round:
  assumes "aimd_ok c" and "ac_success_streak c = 0" and "ac_increase_after_successes c \<le> usize_max"
    and "ac_max c \<le> usize_max"
  shows "(record_success ^^ ac_increase_after_successes c) c = c\<lparr>ac_desired := min (Suc (ac_desired c)) (ac_max c)\<rparr>"
proof -
  obtain k where k: "ac_increase_after_successes c = Suc k"
    using assms(1) by (cases "ac_increase_after_successes c") (auto simp: aimd_ok_def)
  have "(record_success ^^ k) c = c\<lparr>ac_success_streak := k\<rparr>"
    using assms(1-3) k by (intro success_run) simp_all
  then have "(record_success ^^ Suc k) c = record_success (c\<lparr>ac_success_streak := k\<rparr>)" by simp
  also have "\<dots> = c\<lparr>ac_success_streak := 0, ac_desired := min (usize_sat_add (ac_desired c) 1) (ac_max c)\<rparr>"
    using k assms(3) by (simp add: record_success_def usize_sat_add_def Let_def)
  also have "\<dots> = c\<lparr>ac_desired := min (Suc (ac_desired c)) (ac_max c)\<rparr>"
    using assms(2,4) by (cases c) (auto simp: usize_sat_add_def)
  finally show ?thesis using k by simp
qed

text \<open>
  AIMD follows its contract: a run of \<open>m\<close> times \<open>increase_after_successes\<close> successes raises the
  desired concurrency by exactly \<open>m\<close>, up to the maximum, and no shorter run raises it; one setback
  clears the streak and (below \<open>2\<^sup>2\<^sup>4\<close>, where \<open>f32\<close> is exact) never raises it nor goes below the minimum.
\<close>

theorem aimd_contract:
  assumes "aimd_ok c" and "ac_success_streak c = 0" and "ac_increase_after_successes c \<le> usize_max"
    and "ac_max c \<le> usize_max"
  shows "ac_desired ((record_success ^^ (m * ac_increase_after_successes c)) c) = min (ac_desired c + m) (ac_max c)
    \<and> (j < ac_increase_after_successes c \<longrightarrow> ac_desired ((record_success ^^ j) c) = ac_desired c)
    \<and> ac_success_streak (record_setback c) = 0
    \<and> (ac_desired c < 2 ^ 24 \<longrightarrow> ac_min c \<le> ac_desired (record_setback c) \<and> ac_desired (record_setback c) \<le> ac_desired c)"
proof (intro conjI impI)
  let ?k = "ac_increase_after_successes c"
  have "(record_success ^^ (m * ?k)) c = c\<lparr>ac_desired := min (ac_desired c + m) (ac_max c)\<rparr>"
  proof (induction m)
    case 0
    then show ?case using assms(1) by (simp add: aimd_ok_def)
  next
    case (Suc m)
    let ?c = "c\<lparr>ac_desired := min (ac_desired c + m) (ac_max c)\<rparr>"
    have "(record_success ^^ (Suc m * ?k)) c = (record_success ^^ ?k) ((record_success ^^ (m * ?k)) c)"
      by (simp add: funpow_add)
    also have "\<dots> = (record_success ^^ ac_increase_after_successes ?c) ?c" by (simp add: Suc.IH)
    also have "\<dots> = ?c\<lparr>ac_desired := min (Suc (ac_desired ?c)) (ac_max ?c)\<rparr>"
      using assms by (intro success_round) (auto simp: aimd_ok_def)
    finally show ?case by (simp add: min_def)
  qed
  then show "ac_desired ((record_success ^^ (m * ?k)) c) = min (ac_desired c + m) (ac_max c)" by simp
  show "ac_desired ((record_success ^^ j) c) = ac_desired c" if "j < ?k"
    using success_run [OF assms(1-3) that] by simp
  show "ac_success_streak (record_setback c) = 0" by (simp add: record_setback_def)
  assume d: "ac_desired c < 2 ^ 24"
  obtain f where f: "ac_decrease_factor c = Fin f" "0 < f" "f \<le> 1"
    using assms(1) by (cases "ac_decrease_factor c") (auto simp: aimd_ok_def fl_lt_def)
  have "of_nat (ac_desired c) * f \<le> of_nat (ac_desired c)" using f by (simp add: mult_left_le)
  then obtain r where r: "rnd f32 (of_nat (ac_desired c) * f) = Fin r" "0 \<le> r" "r \<le> of_nat (ac_desired c)"
    using rnd_le_nat [of "of_nat (ac_desired c) * f" "ac_desired c" f32] f wide_f32 [OF d] by auto
  have "\<lfloor>r + 1 / 2\<rfloor> < int (ac_desired c) + 1" using r(3) by (subst floor_less_iff) simp
  then have "fl_as_usize (fl_round (Fin r)) \<le> ac_desired c"
    using r(2) by (auto simp: round_half_away_def)
  then show "ac_min c \<le> ac_desired (record_setback c)" "ac_desired (record_setback c) \<le> ac_desired c"
    using assms(1) r(1) f(1) of_nat_fl_wide [OF wide_f32 [OF d]]
    by (auto simp: record_setback_def clamp_def aimd_ok_def)
qed

theorem aimd_contract_witness:
  "ac_desired ((record_success ^^ (3 * 10)) (aimd_new 1 200 8 10 (Fin (1 / 2)))) = 11"
  using aimd_contract [OF aimd_new_ok [of 1 200 8 10 "Fin (1 / 2)"], of 3 0]
  by (simp add: aimd_new_def Let_def clamp_def usize_max_def)

section \<open>Load evaluation\<close>

lemma collect_ratios_None: "collect_ratios n sigs = None \<longleftrightarrow> (\<exists>s \<in> set sigs. latest_overloaded s)"
  by (induction sigs) auto

lemma collect_ratios_Some:
  "\<forall>s \<in> set sigs. \<not> latest_overloaded s \<Longrightarrow>
     collect_ratios n sigs = Some (map healthy_ratio (filter (\<lambda>s. n \<le> length s) sigs))"
  by (induction sigs) auto

lemma all_healthy_ratio:
  assumes "\<forall>x \<in> set s. \<not> ls_overloaded x" and "s \<noteq> []" and "length s < 2 ^ 24"
  shows "healthy_ratio s = Fin 1"
proof -
  have "filter (\<lambda>s. \<not> ls_overloaded s) s = s" using assms(1) by simp
  then show ?thesis using assms(2) of_nat_fl_wide [OF wide_f32 [OF assms(3)]] rnd_nat [OF wide_f32, of 1]
    by (simp add: healthy_ratio_def)
qed

lemma sum_ones: "k + n < 2 ^ 24 \<Longrightarrow> foldl (fl_add f32) (Fin (of_nat k)) (replicate n (Fin 1)) = Fin (of_nat (k + n))"
proof (induction n arbitrary: k)
  case (Suc n)
  have "rnd f32 (of_nat (Suc k)) = Fin (of_nat (Suc k))" using Suc.prems by (intro rnd_nat wide_f32) simp
  then show ?case using Suc.IH [of "Suc k"] Suc.prems by (simp add: add.commute)
qed simp

lemma max_by_at_mem: "max_by_at s = Some x \<Longrightarrow> x \<in> set s"
  by (induction s arbitrary: x) (auto split: option.splits if_splits)

text \<open>
  Load evaluation: the decision is to scale down exactly if the latest observation of some
  signal is an overload; with no such signal and too few observations everywhere it is to hold; and
  when every signal has enough observations and none of them is an overload it is to scale up,
  for every utilisation target of at most one. Scaling then moves by at least one unless the bound
  is reached.
\<close>

theorem evaluate_decision:
  assumes "0 < length sigs" and "length sigs < 2 ^ 24" and "mn \<le> current" and "current \<le> mx" and "mx \<le> usize_max"
  shows "(evaluate n sigs target = ScaleDown \<longleftrightarrow> (\<exists>s \<in> set sigs. latest_overloaded s))
    \<and> ((\<forall>s \<in> set sigs. \<not> latest_overloaded s \<and> length s < max n 1) \<longrightarrow> evaluate n sigs target = Hold)
    \<and> ((\<forall>s \<in> set sigs. max n 1 \<le> length s \<and> length s < 2 ^ 24 \<and> (\<forall>x \<in> set s. \<not> ls_overloaded x))
         \<longrightarrow> fl_le target (Fin 1) \<longrightarrow> evaluate n sigs target = ScaleUp)
    \<and> (current < mx \<longrightarrow> current < apply_scale_decision current ScaleUp mn mx up down)
    \<and> (mn < current \<longrightarrow> apply_scale_decision current ScaleDown mn mx up down < current)"
proof (intro conjI impI)
  show "evaluate n sigs target = ScaleDown \<longleftrightarrow> (\<exists>s \<in> set sigs. latest_overloaded s)"
    using collect_ratios_None [of "max n 1" sigs]
    by (cases "collect_ratios (max n 1) sigs") (simp_all add: evaluate_def Let_def)
  show "evaluate n sigs target = Hold" if "\<forall>s \<in> set sigs. \<not> latest_overloaded s \<and> length s < max n 1"
  proof -
    have "filter (\<lambda>s. max n 1 \<le> length s) sigs = []" using that by (auto simp: filter_empty_conv not_le simp del: max.bounded_iff)
    then show ?thesis using collect_ratios_Some [of sigs "max n 1"] that by (simp add: evaluate_def)
  qed
  assume h: "\<forall>s \<in> set sigs. max n 1 \<le> length s \<and> length s < 2 ^ 24 \<and> (\<forall>x \<in> set s. \<not> ls_overloaded x)"
    and t: "fl_le target (Fin 1)"
  have "\<forall>s \<in> set sigs. \<not> latest_overloaded s"
    using h max_by_at_mem by (auto simp: latest_overloaded_def split: option.splits)
  moreover have "filter (\<lambda>s. max n 1 \<le> length s) sigs = sigs" using h by (simp add: filter_id_conv)
  ultimately have "collect_ratios (max n 1) sigs = Some (map healthy_ratio sigs)"
    using collect_ratios_Some [of sigs "max n 1"] by simp
  moreover have "map healthy_ratio sigs = replicate (length sigs) (Fin 1)"
    using h all_healthy_ratio by (intro replicate_eqI) fastforce+
  moreover have "foldl (fl_add f32) (Fin 0) (replicate (length sigs) (Fin 1)) = Fin (of_nat (length sigs))"
    using sum_ones [of 0 "length sigs"] assms(2) by simp
  moreover have "of_nat_fl f32 (length sigs) = Fin (of_nat (length sigs))"
    using assms(2) by (intro of_nat_fl_wide wide_f32)
  moreover have "rnd f32 1 = Fin 1" using rnd_nat [OF wide_f32, of 1] by simp
  ultimately show "evaluate n sigs target = ScaleUp" using assms(1) t by (simp add: evaluate_def Let_def)
next
  show "current < apply_scale_decision current ScaleUp mn mx up down" if "current < mx"
    using apply_scale_bounds(3) [OF assms(3-5) refl that] .
  show "apply_scale_decision current ScaleDown mn mx up down < current" if "mn < current"
    using apply_scale_bounds(4) [OF assms(3-5) refl that] .
qed

theorem evaluate_decision_witness:
  "evaluate 0 [[\<lparr>ls_at = 1, ls_overloaded = False\<rparr>], [\<lparr>ls_at = 2, ls_overloaded = True\<rparr>]] (Fin (9 / 10)) = ScaleDown
   \<and> evaluate 0 [[\<lparr>ls_at = 1, ls_overloaded = False\<rparr>]] (Fin (9 / 10)) = ScaleUp"
  using evaluate_decision [of "[[\<lparr>ls_at = 1, ls_overloaded = False\<rparr>], [\<lparr>ls_at = 2, ls_overloaded = True\<rparr>]]" 1 1 2 0 "Fin (9 / 10)"]
    evaluate_decision [of "[[\<lparr>ls_at = 1, ls_overloaded = False\<rparr>]]" 1 1 2 0 "Fin (9 / 10)"]
  by (simp add: latest_overloaded_def usize_max_def)

end
