(* ===== verification/Statistics.thy ===== *)
theory Statistics
  imports Rate_Limit
begin

text \<open>
  Crawl statistics (\<open>millipede-core/src/statistics.rs\<close>): counters, durations, histograms, the sliding
  window and its rates, subscribers (bounded channels of capacity 16), persistence, and the
  normalisation of error messages to keys. The periodic emission to subscribers is a timer and is
  not part of the model.
\<close>

section \<open>Error keys\<close>

text \<open>\<open>char::is_whitespace\<close> at the head of a UTF-8 string: the number of bytes of the character.\<close>

definition whitespace_len :: "string \<Rightarrow> nat" where
  "whitespace_len s =
     (case map (of_char :: char \<Rightarrow> nat) (take 3 s) of
        [] \<Rightarrow> 0
      | a # rest \<Rightarrow>
          if 9 \<le> a \<and> a \<le> 13 \<or> a = 32 then 1
          else if a = 194 \<and> (take 1 rest = [133] \<or> take 1 rest = [160]) then 2
          else if a = 225 \<and> rest = [154, 128] then 3
          else if a = 226 \<and> length rest = 2 \<and> rest ! 0 = 128
            \<and> (128 \<le> rest ! 1 \<and> rest ! 1 \<le> 138 \<or> rest ! 1 \<in> {168, 169, 175}) then 3
          else if a = 226 \<and> rest = [129, 159] then 3
          else if a = 227 \<and> rest = [128, 128] then 3
          else 0)"

text \<open>\<open>split_whitespace\<close>: \<open>cur\<close> is the current token, reversed.\<close>

function split_ws :: "string \<Rightarrow> string \<Rightarrow> string list" where
  "split_ws cur [] = (if cur = [] then [] else [rev cur])"
| "split_ws cur (c # cs) =
     (let n = whitespace_len (c # cs) in
      if n = 0 then split_ws (c # cur) cs
      else if cur = [] then split_ws [] (drop (n - 1) cs)
      else rev cur # split_ws [] (drop (n - 1) cs))"
  by pat_completeness auto
termination by (relation "measure (\<lambda>(_, s). length s)") auto

text \<open>\<open>str::lines().next()\<close>.\<close>

definition first_line :: "string \<Rightarrow> string" where
  "first_line s =
     (let l = takeWhile (\<lambda>c. c \<noteq> CHR 0x0A) s in
      if length l < length s \<and> l \<noteq> [] \<and> last l = CHR 0x0D then butlast l else l)"

definition starts_with :: "string \<Rightarrow> string \<Rightarrow> bool" where
  "starts_with p s = (take (length p) s = p)"

fun split_on :: "char \<Rightarrow> string \<Rightarrow> string list" where
  "split_on d [] = [[]]"
| "split_on d (c # cs) =
     (if c = d then [] # split_on d cs
      else (case split_on d cs of [] \<Rightarrow> [[c]] | p # ps \<Rightarrow> (c # p) # ps))"

definition is_uuid_token :: "string \<Rightarrow> bool" where
  "is_uuid_token token =
     (let parts = split_on (CHR ''-'') token in
      map length parts = [8, 4, 4, 4, 12] \<and> list_all (list_all is_hexdigit) parts)"

fun mask_digits :: "bool \<Rightarrow> string \<Rightarrow> string" where
  "mask_digits previous_was_digit [] = []"
| "mask_digits previous_was_digit (c # cs) =
     (if is_digit c then (if previous_was_digit then mask_digits True cs else CHR ''#'' # mask_digits True cs)
      else c # mask_digits False cs)"

definition normalize_token :: "string \<Rightarrow> string" where
  "normalize_token token =
     (if starts_with ''http://'' token \<or> starts_with ''https://'' token then ''<url>''
      else if is_uuid_token token then ''<uuid>''
      else mask_digits False token)"

definition push_token :: "string \<Rightarrow> string \<Rightarrow> string" where
  "push_token normalized token =
     (if normalized = [] then normalize_token token else normalized @ '' '' @ normalize_token token)"

definition normalize_error_key :: "string \<Rightarrow> string" where
  "normalize_error_key error_key =
     chars_take 200 (foldl push_token [] (split_ws [] (first_line error_key)))"

section \<open>State\<close>

record statistics_snapshot =
  sn_requests_finished :: u64
  sn_requests_failed :: u64
  sn_requests_retries :: u64
  sn_requests_finished_per_minute :: fl
  sn_requests_failed_per_minute :: fl
  sn_request_avg_duration :: duration
  sn_request_min_duration :: duration
  sn_request_max_duration :: duration
  sn_status_codes :: "(u16 \<times> u64) list"
  sn_crawler_runtime :: duration
  sn_retry_histogram :: "u64 list"
  sn_errors :: "(string \<times> u64) list"
  sn_retry_errors :: "(string \<times> u64) list"

text \<open>A subscriber: the snapshots in its channel, and whether the receiver is gone.\<close>

type_synonym subscriber = "statistics_snapshot list \<times> bool"

record stats_state =
  st_requests_finished :: u64
  st_requests_failed :: u64
  st_requests_retries :: u64
  st_request_duration_sum :: duration
  st_request_min_duration :: duration
  st_request_max_duration :: duration
  st_status_codes :: "(u16 \<times> u64) list"
  st_retry_histogram :: "u64 list"
  st_errors :: "(string \<times> u64) list"
  st_retry_errors :: "(string \<times> u64) list"
  st_accumulated_runtime :: duration
  st_started_at :: "instant option"
  st_recent_events :: "(instant \<times> bool) list"
  st_subscribers :: "subscriber list"
  st_window :: duration

definition stats_with_window :: "duration \<Rightarrow> stats_state" where
  "stats_with_window window = \<lparr>st_requests_finished = 0, st_requests_failed = 0, st_requests_retries = 0,
     st_request_duration_sum = 0, st_request_min_duration = 0, st_request_max_duration = 0,
     st_status_codes = [], st_retry_histogram = [], st_errors = [], st_retry_errors = [],
     st_accumulated_runtime = 0, st_started_at = None, st_recent_events = [], st_subscribers = [],
     st_window = window\<rparr>"

definition stats_new :: stats_state where
  "stats_new = stats_with_window (secs 60)"

section \<open>Operations\<close>

definition bump :: "'k \<Rightarrow> ('k \<times> u64) list \<Rightarrow> ('k \<times> u64) list" where
  "bump k m = AList.update k ((case map_of m k of Some n \<Rightarrow> n | None \<Rightarrow> 0) + 1) m"

definition record_duration :: "duration \<Rightarrow> stats_state \<Rightarrow> stats_state" where
  "record_duration d s =
     (let first = (st_requests_finished s + st_requests_failed s = 1) in
      s\<lparr>st_request_duration_sum := st_request_duration_sum s + d,
        st_request_min_duration := (if first \<or> d < st_request_min_duration s then d else st_request_min_duration s),
        st_request_max_duration := (if first \<or> st_request_max_duration s < d then d else st_request_max_duration s)\<rparr>)"

definition record_terminal_retry_count :: "u32 \<Rightarrow> stats_state \<Rightarrow> stats_state" where
  "record_terminal_retry_count retry_count s =
     (let index = unat retry_count; h = st_retry_histogram s;
          h1 = (if length h \<le> index then h @ replicate (index + 1 - length h) 0 else h)
      in s\<lparr>st_retry_histogram := h1[index := h1 ! index + 1]\<rparr>)"

definition prune_window :: "instant \<Rightarrow> stats_state \<Rightarrow> stats_state" where
  "prune_window now s = s\<lparr>st_recent_events :=
     dropWhile (\<lambda>(recorded_at, _). st_window s < now - recorded_at) (st_recent_events s)\<rparr>"

definition duration_average :: "duration \<Rightarrow> u64 \<Rightarrow> duration" where
  "duration_average tot cnt =
     (let as_secs = tot div 1000000000; subsec_nanos = tot mod 1000000000;
          seconds = as_secs div unat cnt; remaining_seconds = as_secs mod unat cnt;
          remaining_nanos = remaining_seconds * 1000000000 + subsec_nanos
      in secs seconds + unat (word_of_nat (remaining_nanos div unat cnt) :: u32))"

definition stats_runtime :: "instant \<Rightarrow> stats_state \<Rightarrow> duration" where
  "stats_runtime now s = st_accumulated_runtime s
     + (case st_started_at s of None \<Rightarrow> 0 | Some start \<Rightarrow> now - start)"

definition stats_snapshot :: "instant \<Rightarrow> stats_state \<Rightarrow> statistics_snapshot \<times> stats_state" where
  "stats_snapshot now s0 =
     (let s = prune_window now s0;
          finished = length (filter snd (st_recent_events s));
          failed = length (filter (\<lambda>e. \<not> snd e) (st_recent_events s));
          rate_factor = (if st_window s = 0 then Fin 0 else fl_div f64 (Fin 60) (as_secs_f64 (st_window s)));
          completed = st_requests_finished s + st_requests_failed s
      in (\<lparr>sn_requests_finished = st_requests_finished s, sn_requests_failed = st_requests_failed s,
           sn_requests_retries = st_requests_retries s,
           sn_requests_finished_per_minute = fl_mul f64 (of_nat_fl f64 finished) rate_factor,
           sn_requests_failed_per_minute = fl_mul f64 (of_nat_fl f64 failed) rate_factor,
           sn_request_avg_duration = (if completed = 0 then 0 else duration_average (st_request_duration_sum s) completed),
           sn_request_min_duration = st_request_min_duration s, sn_request_max_duration = st_request_max_duration s,
           sn_status_codes = st_status_codes s, sn_crawler_runtime = stats_runtime now s,
           sn_retry_histogram = st_retry_histogram s, sn_errors = st_errors s,
           sn_retry_errors = st_retry_errors s\<rparr>, s))"

text \<open>\<open>try_send\<close> drops the snapshot when the channel is full; a closed receiver is removed.\<close>

definition emit_snapshot :: "instant \<Rightarrow> stats_state \<Rightarrow> stats_state" where
  "emit_snapshot now s0 =
     (let (snapshot, s) = stats_snapshot now s0 in
      s\<lparr>st_subscribers := map (\<lambda>(q, c). (if length q < 16 then q @ [snapshot] else q, c))
          (filter (\<lambda>(q, closed). \<not> closed) (st_subscribers s))\<rparr>)"

definition record_finished :: "instant \<Rightarrow> duration \<Rightarrow> u16 option \<Rightarrow> u32 \<Rightarrow> stats_state \<Rightarrow> stats_state" where
  "record_finished now d status_code retry_count s =
     (let s1 = s\<lparr>st_requests_finished := st_requests_finished s + 1\<rparr>;
          s2 = record_terminal_retry_count retry_count (record_duration d s1);
          s3 = (case status_code of Some code \<Rightarrow> s2\<lparr>st_status_codes := bump code (st_status_codes s2)\<rparr> | None \<Rightarrow> s2);
          s4 = s3\<lparr>st_recent_events := st_recent_events s3 @ [(now, True)]\<rparr>
      in emit_snapshot now (prune_window now s4))"

definition record_failed :: "instant \<Rightarrow> duration \<Rightarrow> string \<Rightarrow> u32 \<Rightarrow> stats_state \<Rightarrow> stats_state" where
  "record_failed now d error_key retry_count s =
     (let s1 = s\<lparr>st_requests_failed := st_requests_failed s + 1\<rparr>;
          s2 = record_terminal_retry_count retry_count (record_duration d s1);
          s3 = s2\<lparr>st_errors := bump (normalize_error_key error_key) (st_errors s2)\<rparr>;
          s4 = s3\<lparr>st_recent_events := st_recent_events s3 @ [(now, False)]\<rparr>
      in emit_snapshot now (prune_window now s4))"

definition record_retry :: "instant \<Rightarrow> string \<Rightarrow> stats_state \<Rightarrow> stats_state" where
  "record_retry now error_key s =
     (let s1 = s\<lparr>st_requests_retries := st_requests_retries s + 1,
            st_retry_errors := bump (normalize_error_key error_key) (st_retry_errors s)\<rparr>
      in emit_snapshot now (prune_window now s1))"

definition mark_run_started :: "instant \<Rightarrow> stats_state \<Rightarrow> stats_state" where
  "mark_run_started now s = (if st_started_at s = None then s\<lparr>st_started_at := Some now\<rparr> else s)"

definition mark_run_stopped :: "instant \<Rightarrow> stats_state \<Rightarrow> stats_state" where
  "mark_run_stopped now s =
     (case st_started_at s of
        Some start \<Rightarrow> s\<lparr>st_started_at := None, st_accumulated_runtime := st_accumulated_runtime s + (now - start)\<rparr>
      | None \<Rightarrow> s)"

definition stats_subscribe :: "stats_state \<Rightarrow> stats_state" where
  "stats_subscribe s = s\<lparr>st_subscribers := st_subscribers s @ [([], False)]\<rparr>"

text \<open>\<open>FinalStatistics\<close> has the fields of a snapshot.\<close>

definition stats_finalize :: "instant \<Rightarrow> stats_state \<Rightarrow> statistics_snapshot" where
  "stats_finalize now s = fst (stats_snapshot now s)"

section \<open>Persistence\<close>

record persisted_statistics =
  pt_requests_finished :: u64
  pt_requests_failed :: u64
  pt_requests_retries :: u64
  pt_request_duration_sum :: duration
  pt_request_min_duration :: duration
  pt_request_max_duration :: duration
  pt_status_codes :: "(u16 \<times> u64) list"
  pt_retry_histogram :: "u64 list"
  pt_errors :: "(string \<times> u64) list"
  pt_retry_errors :: "(string \<times> u64) list"
  pt_accumulated_runtime :: duration

definition stats_persist :: "instant \<Rightarrow> stats_state \<Rightarrow> persisted_statistics" where
  "stats_persist now s = \<lparr>pt_requests_finished = st_requests_finished s, pt_requests_failed = st_requests_failed s,
     pt_requests_retries = st_requests_retries s, pt_request_duration_sum = st_request_duration_sum s,
     pt_request_min_duration = st_request_min_duration s, pt_request_max_duration = st_request_max_duration s,
     pt_status_codes = st_status_codes s, pt_retry_histogram = st_retry_histogram s, pt_errors = st_errors s,
     pt_retry_errors = st_retry_errors s, pt_accumulated_runtime = stats_runtime now s\<rparr>"

text \<open>\<open>stored\<close> is what the key-value store returns for the key.\<close>

definition stats_restore ::
  "storage_error + persisted_statistics option \<Rightarrow> stats_state \<Rightarrow> (storage_error + bool) \<times> stats_state" where
  "stats_restore stored s =
     (case stored of
        Inl e \<Rightarrow> (Inl e, s)
      | Inr None \<Rightarrow> (Inr False, s)
      | Inr (Some p) \<Rightarrow> (Inr True,
          s\<lparr>st_requests_finished := pt_requests_finished p, st_requests_failed := pt_requests_failed p,
            st_requests_retries := pt_requests_retries p, st_request_duration_sum := pt_request_duration_sum p,
            st_request_min_duration := pt_request_min_duration p, st_request_max_duration := pt_request_max_duration p,
            st_status_codes := pt_status_codes p, st_retry_histogram := pt_retry_histogram p,
            st_errors := pt_errors p, st_retry_errors := pt_retry_errors p,
            st_accumulated_runtime := pt_accumulated_runtime p, st_started_at := None, st_recent_events := []\<rparr>))"

section \<open>The average\<close>

text \<open>
  The overflow-free average of durations is the exact integer average: splitting into seconds and
  nanoseconds loses nothing, and the cast of the nanosecond part to \<open>u32\<close> never truncates.
\<close>

lemma duration_average_div:
  assumes "0 < cnt"
  shows "duration_average d cnt = d div unat cnt"
proof -
  define n where "n = unat cnt"
  have n: "0 < n" using assms by (simp add: n_def word_gt_0_no unat_gt_0)
  define s where "s = d div 1000000000"
  define r where "r = d mod 1000000000"
  have d: "d = s * 1000000000 + r" by (simp add: s_def r_def)
  let ?m = "s mod n * 1000000000 + r"
  have "s mod n \<le> n - 1" using n by (simp add: Suc_leI less_Suc_eq_le [symmetric])
  then have "?m \<le> (n - 1) * 1000000000 + 999999999" unfolding r_def by (intro add_mono mult_right_mono) simp_all
  then have "?m < n * 1000000000" using n by (cases n) simp_all
  then have "?m div n < 1000000000" by (simp add: div_less_iff_less_mult n mult.commute)
  then have cast: "unat (word_of_nat (?m div n) :: u32) = ?m div n" by (intro unat_of_nat_small) simp
  have "d = (s div n * n + s mod n) * 1000000000 + r" unfolding d by simp
  also have "\<dots> = ?m + n * (s div n * 1000000000)" by (simp only: add_mult_distrib ac_simps)
  finally have "d div n = (?m + n * (s div n * 1000000000)) div n" by simp
  also have "\<dots> = s div n * 1000000000 + ?m div n" using n by (simp only: div_mult_self2)
  finally have "d div n = s div n * 1000000000 + ?m div n" .
  then show ?thesis
    unfolding duration_average_def Let_def s_def [symmetric] r_def [symmetric] n_def [symmetric] cast
    by (simp add: secs_def)
qed

section \<open>Error keys group messages\<close>

definition digit_renaming :: "(char \<Rightarrow> char) \<Rightarrow> bool" where
  "digit_renaming f \<longleftrightarrow> (\<forall>c. if is_digit c then is_digit (f c) else f c = c)"

lemma digit_renaming_iff: "digit_renaming f \<Longrightarrow> \<not> is_digit d \<Longrightarrow> f c = d \<longleftrightarrow> c = d"
  unfolding digit_renaming_def by metis

lemma is_digit_ren: "digit_renaming f \<Longrightarrow> is_digit (f c) = is_digit c"
  unfolding digit_renaming_def by metis

lemma is_hexdigit_ren: "digit_renaming f \<Longrightarrow> is_hexdigit (f c) = is_hexdigit c"
proof -
  assume f: "digit_renaming f"
  have "is_digit x \<Longrightarrow> is_hexdigit x" for x by (simp add: is_digit_def is_hexdigit_def Let_def)
  then show ?thesis using f unfolding digit_renaming_def by metis
qed

lemma take_ren:
  assumes "digit_renaming f" and "\<forall>c \<in> set p. \<not> is_digit c"
  shows "map f s = p \<longleftrightarrow> s = p"
  using assms(2)
proof (induction s arbitrary: p)
  case (Cons c s)
  then show ?case using digit_renaming_iff [OF assms(1)] by (cases p) auto
qed auto

lemma starts_with_ren:
  "digit_renaming f \<Longrightarrow> \<forall>c \<in> set p. \<not> is_digit c \<Longrightarrow> starts_with p (map f s) = starts_with p s"
  using take_ren [of f p "take (length p) s"] by (simp add: starts_with_def take_map)

lemma split_on_ren:
  assumes "digit_renaming f" and "\<not> is_digit d"
  shows "split_on d (map f s) = map (map f) (split_on d s)"
proof (induction s)
  case (Cons c s)
  have "split_on d s \<noteq> []" by (cases s) (auto split: list.splits)
  then show ?case using Cons digit_renaming_iff [OF assms] by (auto split: list.splits)
qed simp

lemma is_uuid_ren: "digit_renaming f \<Longrightarrow> is_uuid_token (map f s) = is_uuid_token s"
proof -
  assume f: "digit_renaming f"
  have "\<not> is_digit (CHR ''-'')" by (simp add: is_digit_def)
  then show ?thesis using f split_on_ren [OF f]
    by (simp add: is_uuid_token_def Let_def list_all_iff is_hexdigit_ren comp_def)
qed

lemma mask_digits_ren: "digit_renaming f \<Longrightarrow> mask_digits b (map f s) = mask_digits b s"
proof (induction b s rule: mask_digits.induct)
  case (2 b c cs)
  then show ?case by (cases "is_digit c") (auto simp: is_digit_ren digit_renaming_def)
qed simp

lemma normalize_token_ren: "digit_renaming f \<Longrightarrow> normalize_token (map f t) = normalize_token t"
proof -
  assume f: "digit_renaming f"
  have "\<forall>c \<in> set ''http://''. \<not> is_digit c" "\<forall>c \<in> set ''https://''. \<not> is_digit c"
    by (simp_all add: is_digit_def)
  then show ?thesis using f
    by (simp only: normalize_token_def starts_with_ren is_uuid_ren mask_digits_ren)
qed

text \<open>A byte of a whitespace character is no digit, so renaming digits does not move it.\<close>

lemma ren_code:
  assumes "digit_renaming f"
  shows "(of_char (f c) :: nat) = of_char c \<or> 48 \<le> (of_char c :: nat) \<and> (of_char c :: nat) \<le> 57
    \<and> 48 \<le> (of_char (f c) :: nat) \<and> (of_char (f c) :: nat) \<le> 57"
proof (cases "is_digit c")
  case True
  then have "is_digit (f c)" using is_digit_ren [OF assms] by simp
  then show ?thesis using True by (simp add: is_digit_def Let_def)
next
  case False
  then have "f c = c" using assms unfolding digit_renaming_def by metis
  then show ?thesis by simp
qed

lemma ren_code_cmp:
  assumes "digit_renaming f"
  shows "k < 48 \<or> 57 < k \<Longrightarrow> (of_char (f c) :: nat) = k \<longleftrightarrow> of_char c = k"
    and "k \<le> 48 \<or> 57 < k \<Longrightarrow> k \<le> (of_char (f c) :: nat) \<longleftrightarrow> k \<le> of_char c"
    and "k < 48 \<or> 57 \<le> k \<Longrightarrow> (of_char (f c) :: nat) \<le> k \<longleftrightarrow> of_char c \<le> k"
  using ren_code [OF assms, of c] by auto

lemma whitespace_len_ren:
  assumes "digit_renaming f"
  shows "whitespace_len (map f s) = whitespace_len s"
proof -
  note cmp = ren_code_cmp [OF assms]
  consider "s = []" | a where "s = [a]" | a b where "s = [a, b]" | a b c t where "s = a # b # c # t"
    by (metis list.exhaust)
  then show ?thesis
    by cases (simp_all add: whitespace_len_def cmp numeral_3_eq_3)
qed

lemma split_ws_ren:
  assumes "digit_renaming f"
  shows "split_ws (map f cur) (map f s) = map (map f) (split_ws cur s)"
proof (induction cur s rule: split_ws.induct)
  case (1 cur)
  then show ?case by (simp add: rev_map)
next
  case (2 cur c cs)
  have w: "whitespace_len (f c # map f cs) = whitespace_len (c # cs)"
    using whitespace_len_ren [OF assms, of "c # cs"] by simp
  show ?case using 2 w by (simp add: Let_def rev_map drop_map)
qed

lemma first_line_ren:
  assumes "digit_renaming f"
  shows "first_line (map f s) = map f (first_line s)"
proof -
  have n: "\<not> is_digit (CHR 0x0A)" "\<not> is_digit (CHR 0x0D)" by (simp_all add: is_digit_def)
  have "takeWhile (\<lambda>c. c \<noteq> CHR 0x0A) (map f s) = map f (takeWhile (\<lambda>c. c \<noteq> CHR 0x0A) s)"
    using digit_renaming_iff [OF assms n(1)] by (simp add: takeWhile_map comp_def)
  moreover have "last (map f l) = CHR 0x0D \<longleftrightarrow> last l = CHR 0x0D" if "l \<noteq> []" for l
    using that digit_renaming_iff [OF assms n(2)] by (simp add: last_map)
  ultimately show ?thesis by (auto simp: first_line_def Let_def map_butlast)
qed

lemma no_digit_mask: "c \<in> set (mask_digits b s) \<Longrightarrow> \<not> is_digit c"
  by (induction b s rule: mask_digits.induct) (auto simp: is_digit_def split: if_splits)

lemma no_digit_token: "c \<in> set (normalize_token t) \<Longrightarrow> \<not> is_digit c"
  by (auto simp: normalize_token_def is_digit_def dest: no_digit_mask split: if_splits)

lemma no_digit_tokens:
  "\<forall>c \<in> set acc. \<not> is_digit c \<Longrightarrow> c \<in> set (foldl push_token acc ts) \<Longrightarrow> \<not> is_digit c"
proof (induction ts arbitrary: acc)
  case (Cons t ts)
  have "\<forall>c \<in> set (push_token acc t). \<not> is_digit c"
    using Cons.prems(1) no_digit_token by (auto simp: push_token_def is_digit_def)
  then show ?case using Cons.IH Cons.prems(2) by simp
qed auto

text \<open>
  Error keys group: messages that differ only in the digits they contain (ports, identifiers,
  counters) have one key, whatever the digits are; a key contains no digit and has at most 200
  characters.
\<close>

theorem error_key_groups:
  assumes "digit_renaming f"
  shows "normalize_error_key (map f s) = normalize_error_key s
    \<and> (\<forall>c \<in> set (normalize_error_key s). \<not> is_digit c) \<and> chars_count (normalize_error_key s) \<le> 200"
proof -
  have "split_ws [] (first_line (map f s)) = map (map f) (split_ws [] (first_line s))"
    using split_ws_ren [OF assms, of "[]"] first_line_ren [OF assms] by simp
  moreover have "foldl push_token acc (map (map f) ts) = foldl push_token acc ts" for acc ts
    by (induction ts arbitrary: acc) (simp_all add: push_token_def normalize_token_ren [OF assms])
  ultimately have "normalize_error_key (map f s) = normalize_error_key s" by (simp add: normalize_error_key_def)
  moreover have "set (normalize_error_key s) \<subseteq> set (foldl push_token [] (split_ws [] (first_line s)))"
    unfolding normalize_error_key_def using chars_take_prefix by (metis set_append Un_upper1)
  then have "\<forall>c \<in> set (normalize_error_key s). \<not> is_digit c" using no_digit_tokens [of "[]"] by auto
  ultimately show ?thesis using chars_take_count by (simp add: normalize_error_key_def)
qed

theorem error_key_groups_witness:
  "normalize_error_key (map (\<lambda>c. if is_digit c then CHR ''7'' else c) ''timeout 12'') = normalize_error_key ''timeout 12''"
proof -
  have "digit_renaming (\<lambda>c. if is_digit c then CHR ''7'' else c)" by (simp add: digit_renaming_def is_digit_def)
  then show ?thesis using error_key_groups by blast
qed

section \<open>The counters are the counts\<close>

datatype stat_event =
    Finished instant duration "u16 option" u32
  | Failed instant duration string u32
  | Retried instant string

fun apply_event :: "stat_event \<Rightarrow> stats_state \<Rightarrow> stats_state" where
  "apply_event (Finished now d code rc) = record_finished now d code rc"
| "apply_event (Failed now d key rc) = record_failed now d key rc"
| "apply_event (Retried now key) = record_retry now key"

fun ev_durations :: "stat_event \<Rightarrow> duration list" where
  "ev_durations (Finished _ d _ _) = [d]" | "ev_durations (Failed _ d _ _) = [d]" | "ev_durations (Retried _ _) = []"

fun ev_counts :: "stat_event \<Rightarrow> nat list" where
  "ev_counts (Finished _ _ _ rc) = [unat rc]" | "ev_counts (Failed _ _ _ rc) = [unat rc]" | "ev_counts (Retried _ _) = []"

fun ev_codes :: "stat_event \<Rightarrow> u16 list" where
  "ev_codes (Finished _ _ (Some c) _) = [c]" | "ev_codes _ = []"

fun ev_failures :: "stat_event \<Rightarrow> string list" where
  "ev_failures (Failed _ _ key _) = [normalize_error_key key]" | "ev_failures _ = []"

fun ev_retries :: "stat_event \<Rightarrow> string list" where
  "ev_retries (Retried _ key) = [normalize_error_key key]" | "ev_retries _ = []"

fun is_finished :: "stat_event \<Rightarrow> bool" where
  "is_finished (Finished _ _ _ _) = True" | "is_finished _ = False"

definition collect :: "('e \<Rightarrow> 'a list) \<Rightarrow> 'e list \<Rightarrow> 'a list" where
  "collect f es = concat (map f es)"

lemma collect_simps [simp]: "collect f [] = []" "collect f (es @ [e]) = collect f es @ f e"
  by (simp_all add: collect_def)

lemma ev_short:
  "length (ev_durations e) \<le> 1" "length (ev_counts e) \<le> 1" "length (ev_codes e) \<le> 1"
  "length (ev_failures e) \<le> 1" "length (ev_retries e) \<le> 1"
  by (cases e rule: ev_codes.cases; simp)+

lemma collect_length: "(\<And>e. length (f e) \<le> 1) \<Longrightarrow> length (collect f es) \<le> length es"
proof (induction es)
  case (Cons e es)
  have "length (f e) + length (collect f es) \<le> 1 + length es" using Cons by (intro add_mono) simp_all
  then show ?case by (simp add: collect_def)
qed (simp add: collect_def)

lemma collect_count: "(\<And>e. length (f e) \<le> 1) \<Longrightarrow> count_list (collect f es) x \<le> length es"
  using collect_length count_le_length order_trans by metis

lemma ev_lengths: "length (collect ev_durations es) \<le> length es" "length (collect ev_retries es) \<le> length es"
  by (rule collect_length, rule ev_short)+

lemma ev_tallies:
  "count_list (collect ev_counts es) r \<le> length es" "count_list (collect ev_codes es) c \<le> length es"
  "count_list (collect ev_failures es) k \<le> length es" "count_list (collect ev_retries es) k \<le> length es"
  by (rule collect_count, rule ev_short)+

text \<open>The value an entry of a counter map stands for.\<close>

definition tally :: "('k \<times> u64) list \<Rightarrow> 'k \<Rightarrow> nat" where
  "tally m k = (case map_of m k of Some n \<Rightarrow> unat n | None \<Rightarrow> 0)"

definition bucket :: "u64 list \<Rightarrow> nat \<Rightarrow> nat" where
  "bucket h r = (if r < length h then unat (h ! r) else 0)"

lemma tally_bump:
  assumes "tally m k + 1 < 2 ^ 64"
  shows "tally (bump k m) x = tally m x + (if x = k then 1 else 0)"
  using assms by (cases "map_of m k") (auto simp: tally_def bump_def unat_inc)

lemma bucket_record:
  assumes "bucket (st_retry_histogram s) (unat rc) + 1 < 2 ^ 64"
  shows "bucket (st_retry_histogram (record_terminal_retry_count rc s)) r
    = bucket (st_retry_histogram s) r + (if r = unat rc then 1 else 0)"
  using assms
  by (auto simp: record_terminal_retry_count_def Let_def bucket_def nth_append nth_list_update unat_inc)

section \<open>Only the counters' own fields change\<close>

lemma emit_fields [simp]:
  "st_requests_finished (emit_snapshot now s) = st_requests_finished s"
  "st_requests_failed (emit_snapshot now s) = st_requests_failed s"
  "st_requests_retries (emit_snapshot now s) = st_requests_retries s"
  "st_request_duration_sum (emit_snapshot now s) = st_request_duration_sum s"
  "st_request_min_duration (emit_snapshot now s) = st_request_min_duration s"
  "st_request_max_duration (emit_snapshot now s) = st_request_max_duration s"
  "st_status_codes (emit_snapshot now s) = st_status_codes s"
  "st_retry_histogram (emit_snapshot now s) = st_retry_histogram s"
  "st_errors (emit_snapshot now s) = st_errors s"
  "st_retry_errors (emit_snapshot now s) = st_retry_errors s"
  by (simp_all add: emit_snapshot_def stats_snapshot_def prune_window_def Let_def)

lemma prune_fields [simp]:
  "st_requests_finished (prune_window now s) = st_requests_finished s"
  "st_requests_failed (prune_window now s) = st_requests_failed s"
  "st_requests_retries (prune_window now s) = st_requests_retries s"
  "st_request_duration_sum (prune_window now s) = st_request_duration_sum s"
  "st_request_min_duration (prune_window now s) = st_request_min_duration s"
  "st_request_max_duration (prune_window now s) = st_request_max_duration s"
  "st_status_codes (prune_window now s) = st_status_codes s"
  "st_retry_histogram (prune_window now s) = st_retry_histogram s"
  "st_errors (prune_window now s) = st_errors s"
  "st_retry_errors (prune_window now s) = st_retry_errors s"
  by (simp_all add: prune_window_def)

lemma terminal_fields [simp]:
  "st_requests_finished (record_terminal_retry_count rc s) = st_requests_finished s"
  "st_requests_failed (record_terminal_retry_count rc s) = st_requests_failed s"
  "st_requests_retries (record_terminal_retry_count rc s) = st_requests_retries s"
  "st_request_duration_sum (record_terminal_retry_count rc s) = st_request_duration_sum s"
  "st_request_min_duration (record_terminal_retry_count rc s) = st_request_min_duration s"
  "st_request_max_duration (record_terminal_retry_count rc s) = st_request_max_duration s"
  "st_status_codes (record_terminal_retry_count rc s) = st_status_codes s"
  "st_errors (record_terminal_retry_count rc s) = st_errors s"
  "st_retry_errors (record_terminal_retry_count rc s) = st_retry_errors s"
  by (simp_all add: record_terminal_retry_count_def Let_def)

lemma duration_fields [simp]:
  "st_requests_finished (record_duration d s) = st_requests_finished s"
  "st_requests_failed (record_duration d s) = st_requests_failed s"
  "st_requests_retries (record_duration d s) = st_requests_retries s"
  "st_status_codes (record_duration d s) = st_status_codes s"
  "st_retry_histogram (record_duration d s) = st_retry_histogram s"
  "st_errors (record_duration d s) = st_errors s"
  "st_retry_errors (record_duration d s) = st_retry_errors s"
  by (simp_all add: record_duration_def Let_def)

text \<open>What the state counts after the events \<open>es\<close>.\<close>

definition counts_of :: "stat_event list \<Rightarrow> stats_state \<Rightarrow> bool" where
  "counts_of es s \<longleftrightarrow>
     unat (st_requests_finished s) = length (filter is_finished es)
     \<and> unat (st_requests_finished s) + unat (st_requests_failed s) = length (collect ev_durations es)
     \<and> unat (st_requests_retries s) = length (collect ev_retries es)
     \<and> (\<forall>r. bucket (st_retry_histogram s) r = count_list (collect ev_counts es) r)
     \<and> (\<forall>c. tally (st_status_codes s) c = count_list (collect ev_codes es) c)
     \<and> (\<forall>k. tally (st_errors s) k = count_list (collect ev_failures es) k)
     \<and> (\<forall>k. tally (st_retry_errors s) k = count_list (collect ev_retries es) k)"

definition durations_of :: "stat_event list \<Rightarrow> stats_state \<Rightarrow> bool" where
  "durations_of es s \<longleftrightarrow>
     (let ds = collect ev_durations es in
      st_request_duration_sum s = sum_list ds
      \<and> (ds \<noteq> [] \<longrightarrow> st_request_min_duration s = Min (set ds) \<and> st_request_max_duration s = Max (set ds)))"

lemma counts_of_step:
  assumes "counts_of es s" "length es + 1 < 2 ^ 64"
  shows "counts_of (es @ [e]) (apply_event e s)"
proof -
  have n: "length (filter is_finished es) + 1 < 2 ^ 64" using assms(2) length_filter_le [of is_finished es] by linarith
  have d: "length (collect ev_durations es) + 1 < 2 ^ 64" using assms(2) ev_lengths(1) [of es] by linarith
  have r: "length (collect ev_retries es) + 1 < 2 ^ 64" using assms(2) ev_lengths(2) [of es] by linarith
  have cnt: "count_list (collect ev_counts es) x1 + 1 < 2 ^ 64" "count_list (collect ev_codes es) x2 + 1 < 2 ^ 64"
    "count_list (collect ev_failures es) x3 + 1 < 2 ^ 64" "count_list (collect ev_retries es) x4 + 1 < 2 ^ 64" for x1 x2 x3 x4
    using assms(2) ev_tallies(1) [of es x1] ev_tallies(2) [of es x2] ev_tallies(3) [of es x3] ev_tallies(4) [of es x4]
    by linarith+
  have inc: "unat (w + 1) = unat w + 1" if "unat w + 1 < 2 ^ 64" for w :: u64 using that by (simp add: unat_inc)
  note c = assms(1) [unfolded counts_of_def]
  show ?thesis
  proof (cases e)
    case (Finished now dur code rc)
    have "unat (st_requests_finished s + 1) = unat (st_requests_finished s) + 1" using c n by (simp add: inc)
    then show ?thesis using c cnt(1) cnt(2)
      by (auto simp: counts_of_def Finished record_finished_def Let_def bucket_record tally_bump split: option.split)
  next
    case (Failed now dur key rc)
    have "unat (st_requests_failed s + 1) = unat (st_requests_failed s) + 1" using c d by (simp add: inc)
    then show ?thesis using c cnt(1) cnt(3)
      by (auto simp: counts_of_def Failed record_failed_def Let_def bucket_record tally_bump)
  next
    case (Retried now key)
    have "unat (st_requests_retries s + 1) = unat (st_requests_retries s) + 1" using c r by (simp add: inc)
    then show ?thesis using c cnt(4)
      by (auto simp: counts_of_def Retried record_retry_def Let_def tally_bump)
  qed
qed

lemma min_max_if: "min d m = (if d < m then d else m)" "max d m = (if m < d then d else m)" for d m :: nat
  by simp_all

lemma record_duration_step:
  assumes "st_request_duration_sum s = sum_list ds" "ds \<noteq> [] \<Longrightarrow> st_request_min_duration s = Min (set ds)"
    "ds \<noteq> [] \<Longrightarrow> st_request_max_duration s = Max (set ds)"
    and first: "st_requests_finished s + st_requests_failed s = 1 \<longleftrightarrow> ds = []"
  shows "st_request_duration_sum (record_duration d s) = sum_list (ds @ [d])"
    "st_request_min_duration (record_duration d s) = Min (set (ds @ [d]))"
    "st_request_max_duration (record_duration d s) = Max (set (ds @ [d]))"
proof -
  show "st_request_duration_sum (record_duration d s) = sum_list (ds @ [d])"
    by (simp add: record_duration_def Let_def assms(1))
  have "Min (set (ds @ [d])) = (if ds = [] \<or> d < Min (set ds) then d else Min (set ds))"
    "Max (set (ds @ [d])) = (if ds = [] \<or> Max (set ds) < d then d else Max (set ds))"
    using min_max_if [of d "Min (set ds)"] min_max_if(2) [of d "Max (set ds)"] by (cases "ds = []"; simp)+
  then show "st_request_min_duration (record_duration d s) = Min (set (ds @ [d]))"
    "st_request_max_duration (record_duration d s) = Max (set (ds @ [d]))"
    unfolding record_duration_def Let_def first using assms(2) assms(3)
    by (cases "ds = []"; simp del: Min_gr_iff Max_less_iff Min_insert Max_insert)+
qed

lemma first_completion:
  assumes "unat (a :: u64) + unat b = n" "n + 1 < 2 ^ 64"
  shows "a + 1 + b = 1 \<longleftrightarrow> n = 0" "a + (b + 1) = 1 \<longleftrightarrow> n = 0"
proof -
  have s: "unat (a + b) = n" using assms by (simp add: unat_word_ariths)
  have "a + b = 0 \<longleftrightarrow> n = 0" using s by (metis unat_eq_zero)
  moreover have "a + 1 + b = 1 \<longleftrightarrow> a + b = 0" "a + (b + 1) = 1 \<longleftrightarrow> a + b = 0" by (simp_all add: algebra_simps)
  ultimately show "a + 1 + b = 1 \<longleftrightarrow> n = 0" "a + (b + 1) = 1 \<longleftrightarrow> n = 0" by simp_all
qed

lemma durations_of_step:
  assumes "counts_of es s" "length es + 1 < 2 ^ 64" "durations_of es s"
  shows "durations_of (es @ [e]) (apply_event e s)"
proof -
  let ?ds = "collect ev_durations es"
  have n: "length ?ds + 1 < 2 ^ 64" using assms(2) ev_lengths(1) [of es] by linarith
  have f: "unat (st_requests_finished s) + unat (st_requests_failed s) = length ?ds"
    using assms(1) by (simp add: counts_of_def)
  note first = first_completion [OF f n, simplified]
  note d = assms(3) [unfolded durations_of_def Let_def]
  show ?thesis
  proof (cases e)
    case (Finished now dur code rc)
    let ?s = "s\<lparr>st_requests_finished := st_requests_finished s + 1\<rparr>"
    note step = record_duration_step [of ?s ?ds dur, simplified]
    show ?thesis using d first
      by (simp add: durations_of_def Finished record_finished_def Let_def step split: option.split)
  next
    case (Failed now dur key rc)
    let ?s = "s\<lparr>st_requests_failed := st_requests_failed s + 1\<rparr>"
    note step = record_duration_step [of ?s ?ds dur, simplified]
    show ?thesis using d first
      by (simp add: durations_of_def Failed record_failed_def Let_def step)
  next
    case (Retried now key)
    show ?thesis using d by (simp add: durations_of_def Retried record_retry_def Let_def)
  qed
qed

lemma stats_new_counts: "counts_of [] stats_new" "durations_of [] stats_new"
  by (simp_all add: counts_of_def durations_of_def stats_new_def stats_with_window_def bucket_def tally_def)

lemma events_counted:
  "length es < 2 ^ 64 \<Longrightarrow> counts_of es (fold apply_event es stats_new) \<and> durations_of es (fold apply_event es stats_new)"
proof (induction es rule: rev_induct)
  case (snoc e es)
  then have "counts_of es (fold apply_event es stats_new)" "durations_of es (fold apply_event es stats_new)" by simp_all
  then show ?case using counts_of_step durations_of_step snoc.prems by simp
qed (simp add: stats_new_counts)

text \<open>
  C37. The statistics are the statistics of what happened: after any sequence of fewer than 2^64
  recorded events, finished, failed and retried requests are counted exactly, the retry histogram has
  at index \<open>r\<close> the number of terminal requests with \<open>r\<close> retries, the maps of status codes, errors and
  retry errors have for every (normalised) key its number of occurrences, and the snapshot's minimum,
  maximum and average are those of the recorded durations.
\<close>

theorem statistics_exact:
  assumes "length es < 2 ^ 64"
  shows "let s = fold apply_event es stats_new; ds = collect ev_durations es; sn = fst (stats_snapshot now s) in
    counts_of es s
    \<and> sn_requests_finished sn = st_requests_finished s \<and> sn_retry_histogram sn = st_retry_histogram s
    \<and> sn_errors sn = st_errors s \<and> sn_retry_errors sn = st_retry_errors s \<and> sn_status_codes sn = st_status_codes s
    \<and> (ds \<noteq> [] \<longrightarrow> sn_request_min_duration sn = Min (set ds) \<and> sn_request_max_duration sn = Max (set ds)
         \<and> sn_request_avg_duration sn = sum_list ds div length ds)
    \<and> (ds = [] \<longrightarrow> sn_request_avg_duration sn = 0)"
proof -
  define s where "s = fold apply_event es stats_new"
  let ?ds = "collect ev_durations es" and ?n = "st_requests_finished s + st_requests_failed s"
  have c: "counts_of es s" and d: "durations_of es s" using events_counted [OF assms] by (simp_all add: s_def)
  have "unat (st_requests_finished s) + unat (st_requests_failed s) = length ?ds" using c by (simp add: counts_of_def)
  moreover have "length ?ds < 2 ^ 64" using ev_lengths(1) [of es] assms by linarith
  ultimately have n: "unat ?n = length ?ds" by (simp add: unat_word_ariths)
  have avg: "duration_average (sum_list ?ds) ?n = sum_list ?ds div length ?ds" if "?ds \<noteq> []"
  proof -
    have "0 < ?n" using n that by (metis length_greater_0_conv unat_gt_0 word_neq_0_conv)
    then show ?thesis using duration_average_div n by simp
  qed
  have z: "?n = 0 \<longleftrightarrow> ?ds = []" using n by (metis length_0_conv unat_eq_zero)
  show ?thesis using c d avg z
    by (auto simp: Let_def s_def [symmetric] stats_snapshot_def durations_of_def)
qed

theorem statistics_exact_witness:
  "let es = [Finished 5 10 (Some 200) 0, Retried 6 ''timeout 3'', Failed 7 21 ''boom'' 2];
       s = fold apply_event es stats_new; ds = collect ev_durations es; sn = fst (stats_snapshot 9 s) in
    counts_of es s \<and> sn_request_avg_duration sn = 31 div 2 \<and> sn_request_max_duration sn = 21"
  using statistics_exact [of "[Finished 5 10 (Some 200) 0, Retried 6 ''timeout 3'', Failed 7 21 ''boom'' 2]" 9]
  by (auto simp: Let_def collect_def max_def numeral_2_eq_2 [symmetric])

section \<open>Stopping and resuming\<close>

text \<open>
  C38. A crawl that persists its statistics and restores them in a new process keeps every total: the
  counters, durations, histogram and error maps are those persisted, the runtime accumulated so far is
  the runtime of the earlier process up to that instant, and the time between the processes is not
  counted. What was not persisted, the sliding window and the start of the run, is reset.
\<close>

theorem statistics_resume:
  assumes "stats_restore (Inr (Some (stats_persist now s))) fresh = (r, s')" "st_started_at s = Some start" "start \<le> now"
    and "later \<le> stop"
  shows "r = Inr True \<and> stats_persist stop (mark_run_started later s') =
      (stats_persist now s)\<lparr>pt_accumulated_runtime := st_accumulated_runtime s + (now - start) + (stop - later)\<rparr>
    \<and> st_recent_events s' = [] \<and> st_window s' = st_window fresh \<and> st_subscribers s' = st_subscribers fresh
    \<and> mark_run_stopped stop (mark_run_started later s') = s'\<lparr>st_accumulated_runtime := stats_runtime now s + (stop - later)\<rparr>"
  using assms
  by (auto simp: stats_restore_def stats_persist_def mark_run_started_def mark_run_stopped_def stats_runtime_def)

theorem statistics_resume_witness:
  "let s = mark_run_started 3 (record_retry 2 ''x'' stats_new);
       s' = snd (stats_restore (Inr (Some (stats_persist 10 s))) stats_new) in
   stats_persist 200 (mark_run_started 150 s') = (stats_persist 10 s)\<lparr>pt_accumulated_runtime := 57\<rparr>"
proof -
  let ?s = "mark_run_started 3 (record_retry 2 ''x'' stats_new)"
  have a: "st_started_at ?s = Some 3" "st_accumulated_runtime ?s = 0"
    by (simp_all add: mark_run_started_def record_retry_def emit_snapshot_def stats_snapshot_def prune_window_def
        stats_new_def stats_with_window_def Let_def)
  show ?thesis
    using statistics_resume [of 10 ?s stats_new "Inr True" _ 3 150 200] a
    by (simp add: Let_def stats_restore_def)
qed

end
