(* ===== verification/Attempt.thy ===== *)
theory Attempt
  imports Proxy Autoscale Statistics
begin

text \<open>
  One attempt of a request (\<open>millipede-core/src/crawler/engine.rs\<close>, \<open>crawler/mod.rs\<close>,
  \<open>retry_strategy.rs\<close>, \<open>events.rs\<close>): the engine's options, the lifecycle of a spawned attempt with
  its deadlines and its cleanup, and the decision to retry. The callbacks of the crawler kind and
  the request handler are a record of functions that give their results and the time they take.
\<close>

section \<open>Data\<close>

record 'u attempt_observation =
  ob_status :: "u16 option"
  ob_loaded_url :: "'u option"
  ob_session_id :: "string option"
  ob_proxy_info :: "'u proxy_info option"
  ob_response_bytes :: "nat option"

definition no_observation :: "'u attempt_observation" where
  "no_observation = \<lparr>ob_status = None, ob_loaded_url = None, ob_session_id = None, ob_proxy_info = None,
     ob_response_bytes = None\<rparr>"

record ('u, 'j) attempt_outcome =
  ot_request :: "('u, 'j) request"
  ot_attempt :: u32
  ot_status :: "u16 option"
  ot_error :: "crawl_error option"
  ot_anti_bot :: "anti_bot_tech option"
  ot_proxy_info :: "'u proxy_info option"
  ot_session_id :: "string option"
  ot_response_bytes :: "nat option"

record ('u, 'j) retry_strategy =
  rs_max_retries :: u32
  rs_on_retry :: "('u, 'j) attempt_outcome \<Rightarrow> retry_directive"

record ('u, 'j) engine_options =
  eo_max_request_retries :: u32
  eo_max_session_rotations :: u32
  eo_request_handler_timeout :: duration
  eo_internal_operation_timeout :: duration
  eo_persist_state_interval :: duration
  eo_task_timeout :: "duration option"
  eo_maybe_run_interval :: duration
  eo_retry_strategy :: "('u, 'j) retry_strategy option"
  eo_max_requests_per_crawl :: "u64 option"

definition engine_options_default :: "('u, 'j) engine_options" where
  "engine_options_default = \<lparr>eo_max_request_retries = 3, eo_max_session_rotations = 10,
     eo_request_handler_timeout = secs 60, eo_internal_operation_timeout = secs 30,
     eo_persist_state_interval = secs 60, eo_task_timeout = None, eo_maybe_run_interval = millis 500,
     eo_retry_strategy = None, eo_max_requests_per_crawl = None\<rparr>"

record ('u, 'j) attempt_output =
  out_result :: "crawl_error + unit"
  out_duration :: duration
  out_request :: "('u, 'j) request"
  out_observation :: "'u attempt_observation"

datatype ('u, 'j, 'c) request_outcome =
    OutcomeHandled 'c
  | HandlerFailed 'c crawl_error
  | ExecuteFailed "('u, 'j) request" crawl_error

section \<open>The callbacks\<close>

text \<open>
  \<open>before_request\<close> may change the request, also when it fails or is cut off by the deadline. A
  duration is the time the future takes to become ready. \<open>c_debug\<close> renders a duration (\<open>{:?}\<close>).
\<close>

record ('u, 'j, 'c) callbacks =
  c_before_request :: "('u, 'j) request \<Rightarrow> (crawl_error + unit) \<times> ('u, 'j) request \<times> duration"
  c_execute :: "('u, 'j) request \<Rightarrow> attempt_overrides \<Rightarrow> (crawl_error + 'c) \<times> duration"
  c_observe :: "'c \<Rightarrow> 'u attempt_observation"
  c_handle :: "'c \<Rightarrow> (crawl_error + unit) \<times> duration"
  c_after_success :: "'c \<Rightarrow> (crawl_error + unit) \<times> 'c \<times> duration"
  c_cleanup :: "('u, 'j, 'c) request_outcome \<Rightarrow> (crawl_error + unit) \<times> duration"
  c_debug :: "duration \<Rightarrow> string"

text \<open>
  \<open>tokio::time::timeout_at\<close>: the future started at \<open>now\<close> is ready after \<open>d\<close>; at the deadline it is
  dropped. A future that is ready at once is never timed out. The result is \<open>None\<close> on a timeout; the
  second component is the instant reached.
\<close>

definition timeout_at :: "instant option \<Rightarrow> instant \<Rightarrow> duration \<Rightarrow> 'r \<Rightarrow> 'r option \<times> instant" where
  "timeout_at deadline now d r =
     (case deadline of
        None \<Rightarrow> (Some r, now + d)
      | Some t \<Rightarrow> if d = 0 \<or> now + d \<le> t then (Some r, now + d) else (None, max now t))"

definition task_timeout_error :: "(duration \<Rightarrow> string) \<Rightarrow> duration \<Rightarrow> crawl_error" where
  "task_timeout_error dbg timeout = Retry (anyhow_msg (''task timed out after '' @ dbg timeout))"

definition handler_timeout_error :: "(duration \<Rightarrow> string) \<Rightarrow> duration \<Rightarrow> crawl_error" where
  "handler_timeout_error dbg timeout = Retry (anyhow_msg (''request handler timed out after '' @ dbg timeout))"

text \<open>The end of an attempt: \<open>cleanup\<close> runs on the outcome, its error is only logged.\<close>

definition end_attempt ::
  "('u, 'j, 'c) callbacks \<Rightarrow> instant \<Rightarrow> instant \<Rightarrow> ('u, 'j) request \<Rightarrow> 'u attempt_observation
     \<Rightarrow> crawl_error + unit \<Rightarrow> ('u, 'j, 'c) request_outcome
     \<Rightarrow> ('u, 'j) attempt_output \<times> ('u, 'j, 'c) request_outcome list" where
  "end_attempt C started now request observation result outcome =
     (let (_, d) = c_cleanup C outcome in
      (\<lparr>out_result = result, out_duration = now + d - started, out_request = request,
        out_observation = observation\<rparr>, [outcome]))"

text \<open>The handler, then \<open>after_success\<close>: result, outcome for the cleanup, and the instant reached.\<close>

definition run_handler ::
  "('u, 'j, 'c) callbacks \<Rightarrow> ('u, 'j) engine_options \<Rightarrow> instant option \<Rightarrow> instant \<Rightarrow> 'c
     \<Rightarrow> (crawl_error + unit) \<times> ('u, 'j, 'c) request_outcome \<times> instant" where
  "run_handler C opts deadline now ctx =
     (let handler_deadline = (case deadline of
            Some t \<Rightarrow> min t (now + eo_request_handler_timeout opts)
          | None \<Rightarrow> now + eo_request_handler_timeout opts);
          (r, d) = c_handle C ctx
      in case timeout_at (Some handler_deadline) now d r of
           (Some (Inr _), t1) \<Rightarrow>
             (case c_after_success C ctx of
                (Inr _, ctx', d') \<Rightarrow> (Inr (), OutcomeHandled ctx', t1 + d')
              | (Inl error, ctx', d') \<Rightarrow> (Inl error, HandlerFailed ctx' error, t1 + d'))
         | (Some (Inl error), t1) \<Rightarrow> (Inl error, HandlerFailed ctx error, t1)
         | (None, t1) \<Rightarrow>
             let error = handler_timeout_error (c_debug C) (eo_request_handler_timeout opts) in
             (Inl error, HandlerFailed ctx error, t1))"

definition spawn_attempt ::
  "('u, 'j, 'c) callbacks \<Rightarrow> ('u, 'j) engine_options \<Rightarrow> instant \<Rightarrow> ('u, 'j) request \<Rightarrow> attempt_overrides
     \<Rightarrow> ('u, 'j) attempt_output \<times> ('u, 'j, 'c) request_outcome list" where
  "spawn_attempt C opts started request carried =
     (let deadline = map_option (\<lambda>timeout. started + timeout) (eo_task_timeout opts);
          timed_out = task_timeout_error (c_debug C) (case eo_task_timeout opts of Some t \<Rightarrow> t | None \<Rightarrow> 0);
          (r, request_owned, d) = c_before_request C request;
          (before, t1) = timeout_at deadline started d r;
          before_result = (case before of Some r \<Rightarrow> r | None \<Rightarrow> Inl timed_out)
      in case before_result of
           Inl error \<Rightarrow> end_attempt C started t1 request_owned no_observation (Inl error)
             (ExecuteFailed request_owned error)
         | Inr _ \<Rightarrow>
             let (r, d) = c_execute C request_owned carried;
                 (executed, t2) = timeout_at deadline t1 d r;
                 execute_result = (case executed of Some r \<Rightarrow> r | None \<Rightarrow> Inl timed_out)
             in case execute_result of
                  Inl error \<Rightarrow> end_attempt C started t2 request_owned no_observation (Inl error)
                    (ExecuteFailed request_owned error)
                | Inr ctx \<Rightarrow>
                    let (result, outcome, t3) = run_handler C opts deadline t2 ctx in
                    end_attempt C started t3 request_owned (c_observe C ctx) result outcome)"

section \<open>The retry decision\<close>

text \<open>
  Whether a failed attempt is retried, whether the retry rotates the session, and the overrides
  recorded for the next attempt. \<open>rotates\<close> is what \<open>strategy_rotates\<close> or the error says.
\<close>

record decision =
  dc_eligible :: bool
  dc_rotates :: bool
  dc_overrides :: "attempt_overrides option"

definition anti_bot_of :: "crawl_error \<Rightarrow> anti_bot_tech option" where
  "anti_bot_of error = (case error of AntiBotDetected tech _ \<Rightarrow> Some tech | _ \<Rightarrow> None)"

definition observed_status :: "'u attempt_observation \<Rightarrow> crawl_error \<Rightarrow> u16 option" where
  "observed_status observation error = (case ob_status observation of Some s \<Rightarrow> Some s | None \<Rightarrow> http_status error)"

definition attempt_outcome_of ::
  "('u, 'j) request \<Rightarrow> crawl_error \<Rightarrow> 'u attempt_observation \<Rightarrow> ('u, 'j) attempt_outcome" where
  "attempt_outcome_of request error observation = \<lparr>ot_request = request, ot_attempt = req_retry_count request,
     ot_status = observed_status observation error, ot_error = Some error, ot_anti_bot = anti_bot_of error,
     ot_proxy_info = ob_proxy_info observation, ot_session_id = ob_session_id observation,
     ot_response_bytes = ob_response_bytes observation\<rparr>"

definition decide_strategy ::
  "('u, 'j) engine_options \<Rightarrow> ('u, 'j) retry_strategy \<Rightarrow> ('u, 'j) request \<Rightarrow> crawl_error
     \<Rightarrow> 'u attempt_observation \<Rightarrow> decision" where
  "decide_strategy opts strategy request error observation =
     (if req_no_retry request
      then \<lparr>dc_eligible = False, dc_rotates = rotates_session error, dc_overrides = None\<rparr>
      else
        let directive = rs_on_retry strategy (attempt_outcome_of request error observation);
            rotates = (rotates_session error \<or> rd_session_action directive \<in> {Rotate, Retire});
            cap = (case req_max_retries request of Some n \<Rightarrow> n | None \<Rightarrow> rs_max_retries strategy);
            eligible = (rd_should_retry directive \<and> (ignores_max_retries error \<or>
              (if rotates then req_session_rotation_count request < eo_max_session_rotations opts
               else req_retry_count request < cap)))
        in \<lparr>dc_eligible = eligible, dc_rotates = rotates,
            dc_overrides =
              (if eligible \<and> (rd_proxy_kind directive \<noteq> None \<or> rd_user_agent_profile directive \<noteq> None
                 \<or> rd_backoff directive \<noteq> None)
               then Some \<lparr>ov_proxy_kind = rd_proxy_kind directive,
                 ov_user_agent_profile = rd_user_agent_profile directive, ov_backoff = rd_backoff directive\<rparr>
               else None)\<rparr>)"

definition decide_default :: "('u, 'j) engine_options \<Rightarrow> ('u, 'j) request \<Rightarrow> crawl_error \<Rightarrow> decision" where
  "decide_default opts request error =
     \<lparr>dc_eligible = (ignores_max_retries error \<or> (is_retryable error \<and> \<not> req_no_retry request
        \<and> (if rotates_session error then req_session_rotation_count request < eo_max_session_rotations opts
           else req_retry_count request < (case req_max_retries request of Some n \<Rightarrow> n | None \<Rightarrow> eo_max_request_retries opts)))),
      dc_rotates = rotates_session error, dc_overrides = None\<rparr>"

definition decide ::
  "('u, 'j) engine_options \<Rightarrow> ('u, 'j) request \<Rightarrow> crawl_error \<Rightarrow> 'u attempt_observation \<Rightarrow> decision" where
  "decide opts request error observation =
     (case eo_retry_strategy opts of
        Some strategy \<Rightarrow> decide_strategy opts strategy request error observation
      | None \<Rightarrow> decide_default opts request error)"

text \<open>The most retries a request may have: its own limit, else the strategy's or the engine's.\<close>

definition retry_cap :: "('u, 'j) engine_options \<Rightarrow> ('u, 'j) request \<Rightarrow> u32" where
  "retry_cap opts request =
     (case req_max_retries request of Some n \<Rightarrow> n
      | None \<Rightarrow> (case eo_retry_strategy opts of Some s \<Rightarrow> rs_max_retries s | None \<Rightarrow> eo_max_request_retries opts))"

definition push_error :: "('u, 'j) request \<Rightarrow> string \<Rightarrow> ('u, 'j) request" where
  "push_error request error = request\<lparr>req_error_messages := req_error_messages request @ [chars_take 200 error]\<rparr>"

section \<open>Task failures\<close>

datatype panic_payload = StringPayload string | StrPayload string | OtherPayload

datatype join_error = TaskCancelled | TaskPanicked panic_payload

fun panic_payload_message :: "panic_payload \<Rightarrow> string" where
  "panic_payload_message (StringPayload message) = message"
| "panic_payload_message (StrPayload message) = message"
| "panic_payload_message OtherPayload = ''non-string panic payload''"

fun panic_message :: "join_error \<Rightarrow> string" where
  "panic_message (TaskPanicked payload) = panic_payload_message payload"
| "panic_message TaskCancelled = ''cancelled task''"

definition storage_failure :: "storage_error \<Rightarrow> crawl_error" where
  "storage_failure error = Critical (anyhow_msg (storage_error_text error))"

section \<open>An attempt ends in time and cleans up\<close>

lemma timeout_at_none [simp]: "timeout_at None now d r = (Some r, now + d)"
  by (simp add: timeout_at_def)

lemma timeout_at_some:
  "timeout_at (Some t) now d r = (res, t') \<Longrightarrow> now \<le> t \<Longrightarrow>
     now \<le> t' \<and> t' \<le> t \<and> (res = None \<longrightarrow> t' = t) \<and> (res \<noteq> None \<longrightarrow> res = Some r \<and> t' = now + d)"
  by (auto simp: timeout_at_def split: if_splits)

lemma end_attempt_fields [simp]:
  "out_result (fst (end_attempt C st t req ob r oc)) = r" "out_request (fst (end_attempt C st t req ob r oc)) = req"
  "out_observation (fst (end_attempt C st t req ob r oc)) = ob" "snd (end_attempt C st t req ob r oc) = [oc]"
  "out_duration (fst (end_attempt C st t req ob r oc)) = t + snd (c_cleanup C oc) - st"
  by (simp_all add: end_attempt_def split: prod.split)

text \<open>What an outcome handed to the cleanup must say about the result.\<close>

fun outcome_matches :: "crawl_error + unit \<Rightarrow> ('u, 'j, 'c) request_outcome \<Rightarrow> bool" where
  "outcome_matches (Inr _) (OutcomeHandled _) = True"
| "outcome_matches (Inl e) (HandlerFailed _ e') = (e = e')"
| "outcome_matches (Inl e) (ExecuteFailed _ e') = (e = e')"
| "outcome_matches _ _ = False"

lemma run_handler_sound:
  assumes "run_handler C opts deadline now ctx = (result, outcome, t')"
    and "\<And>t. deadline = Some t \<Longrightarrow> now \<le> t" and "\<And>c. snd (snd (c_after_success C c)) \<le> a"
  shows "outcome_matches result outcome" "t' \<le> now + eo_request_handler_timeout opts + a"
    "deadline = Some t \<Longrightarrow> t' \<le> t + a"
    "result = Inr () \<Longrightarrow> fst (c_handle C ctx) = Inr () \<and> fst (c_after_success C ctx) = Inr ()
       \<and> snd (c_handle C ctx) \<le> eo_request_handler_timeout opts"
proof -
  define hd where "hd = (case deadline of Some t \<Rightarrow> min t (now + eo_request_handler_timeout opts)
    | None \<Rightarrow> now + eo_request_handler_timeout opts)"
  have hd: "now \<le> hd" "hd \<le> now + eo_request_handler_timeout opts" "deadline = Some t \<Longrightarrow> hd \<le> t" for t
    using assms(2) by (auto simp: hd_def split: option.split)
  obtain r d where h: "c_handle C ctx = (r, d)" by fastforce
  obtain res t1 where x: "timeout_at (Some hd) now d r = (res, t1)" by fastforce
  obtain r2 c2 d2 where s: "c_after_success C ctx = (r2, c2, d2)" using prod_cases3 by blast
  have d2: "d2 \<le> a" using assms(3) [of ctx] s by simp
  note b = timeout_at_some [OF x hd(1)]
  have run: "(case (res, t1) of
      (Some (Inr _), t1) \<Rightarrow> (case (r2, c2, d2) of
          (Inr _, ctx', d') \<Rightarrow> (Inr (), OutcomeHandled ctx', t1 + d')
        | (Inl error, ctx', d') \<Rightarrow> (Inl error, HandlerFailed ctx' error, t1 + d'))
    | (Some (Inl error), t1) \<Rightarrow> (Inl error, HandlerFailed ctx error, t1)
    | (None, t1) \<Rightarrow> let error = handler_timeout_error (c_debug C) (eo_request_handler_timeout opts) in
        (Inl error, HandlerFailed ctx error, t1)) = (result, outcome, t')"
    using assms(1) unfolding run_handler_def Let_def hd_def [symmetric] h s by (simp add: x Let_def)
  have two: "result = Inr () \<and> outcome = OutcomeHandled c2 \<and> t' = t1 + d2 \<and> res = Some (Inr ()) \<and> r2 = Inr ()
      \<or> (\<exists>e c. result = Inl e \<and> outcome = HandlerFailed c e \<and> (t' = t1 \<or> t' = t1 + d2))"
    using run by (cases res; cases r2) (auto simp: Let_def split: sum.splits)
  then show "outcome_matches result outcome" by auto
  have t: "t' \<le> hd + a" using two b d2 by linarith
  then show "t' \<le> now + eo_request_handler_timeout opts + a" using hd(2) by linarith
  show "t' \<le> t + a" if "deadline = Some t" using t hd(3) [OF that] by linarith
  show "fst (c_handle C ctx) = Inr () \<and> fst (c_after_success C ctx) = Inr ()
      \<and> snd (c_handle C ctx) \<le> eo_request_handler_timeout opts" if "result = Inr ()"
  proof -
    have "res = Some (Inr ())" "r2 = Inr ()" using two that by auto
    moreover from this b have "r = Inr ()" "t1 = now + d" "t1 \<le> hd" by auto
    ultimately show ?thesis using h s hd(2) by simp
  qed
qed


definition sample_callbacks :: "(string, string, nat) callbacks" where
  "sample_callbacks = \<lparr>c_before_request = (\<lambda>r. (Inr (), r, 2)), c_execute = (\<lambda>_ _. (Inr 7, 3)),
     c_observe = (\<lambda>_. no_observation), c_handle = (\<lambda>_. (Inr (), secs 90)),
     c_after_success = (\<lambda>c. (Inr (), c, 1)), c_cleanup = (\<lambda>_. (Inr (), 1)), c_debug = (\<lambda>_. [])\<rparr>"


section \<open>Retries end\<close>

text \<open>
  The request as it is back in the queue after a retry: the engine counts a rotation, or the queue's
  \<open>reclaim\<close> counts a retry.
\<close>

definition requeued :: "bool \<Rightarrow> ('u, 'j) request \<Rightarrow> ('u, 'j) request" where
  "requeued rotates r = (if rotates then r\<lparr>req_session_rotation_count := req_session_rotation_count r + 1\<rparr>
     else r\<lparr>req_retry_count := req_retry_count r + 1\<rparr>)"

definition retry_rank :: "('u, 'j) engine_options \<Rightarrow> ('u, 'j) request \<Rightarrow> nat" where
  "retry_rank opts r = (unat (eo_max_session_rotations opts) - unat (req_session_rotation_count r))
     + (unat (retry_cap opts r) - unat (req_retry_count r))"

lemma decide_within_limits:
  assumes "dc_eligible (decide opts r error ob)" and "\<not> ignores_max_retries error"
  shows "if dc_rotates (decide opts r error ob) then req_session_rotation_count r < eo_max_session_rotations opts
    else req_retry_count r < retry_cap opts r"
  using assms
  by (auto simp: decide_def decide_strategy_def decide_default_def retry_cap_def Let_def
      split: option.splits if_splits)

lemma requeued_rank:
  assumes "dc_eligible (decide opts r error ob)" and "\<not> ignores_max_retries error"
  shows "retry_rank opts (requeued (dc_rotates (decide opts r error ob)) r) < retry_rank opts r"
proof -
  let ?rot = "dc_rotates (decide opts r error ob)"
  have lim: "if ?rot then req_session_rotation_count r < eo_max_session_rotations opts
      else req_retry_count r < retry_cap opts r" by (rule decide_within_limits [OF assms])
  have cap: "retry_cap opts (requeued ?rot r) = retry_cap opts r"
    by (simp add: retry_cap_def requeued_def)
  have inc: "unat (w + 1) = unat w + 1 \<and> unat w < unat v" if "w < v" for w v :: u32
  proof -
    have "w \<noteq> - 1" using that by auto
    then show ?thesis using that unat_inc [OF unat_not_max, of w] by (simp add: unat_mono)
  qed
  show ?thesis
  proof (cases ?rot)
    case True
    then have "req_session_rotation_count r < eo_max_session_rotations opts" using lim by simp
    from inc [OF this] show ?thesis using cap True
      by (simp add: retry_rank_def) (simp add: requeued_def diff_less_mono2)
  next
    case False
    then have "req_retry_count r < retry_cap opts r" using lim by simp
    from inc [OF this] show ?thesis using cap False
      by (simp add: retry_rank_def) (simp add: requeued_def diff_less_mono2)
  qed
qed

text \<open>
  The successive states of one request whose attempts fail as \<open>fails\<close> says.
\<close>

primrec trajectory ::
  "('u, 'j) engine_options \<Rightarrow> (nat \<Rightarrow> crawl_error \<times> 'u attempt_observation) \<Rightarrow> ('u, 'j) request \<Rightarrow> nat \<Rightarrow> ('u, 'j) request" where
  "trajectory opts fails r 0 = r"
| "trajectory opts fails r (Suc n) =
     (let r' = trajectory opts fails r n; (error, ob) = fails n in requeued (dc_rotates (decide opts r' error ob)) r')"

text \<open>
  C6. Retries end: whatever the errors of a request's attempts are and whatever a retry strategy
  answers, as long as no attempt fails with a forced retry the request is given up after at most
  (rotations left) + (retries left) retries; until then neither counter passes its limit.
\<close>

theorem retries_terminate:
  assumes "\<And>n. \<not> ignores_max_retries (fst (fails n))"
  shows "\<exists>n \<le> retry_rank opts r.
      \<not> dc_eligible (decide opts (trajectory opts fails r n) (fst (fails n)) (snd (fails n)))
      \<and> (\<forall>m \<le> n. retry_rank opts (trajectory opts fails r m) + m \<le> retry_rank opts r)"
proof (rule ccontr)
  let ?t = "trajectory opts fails r" and ?k = "retry_rank opts r"
  let ?el = "\<lambda>n. dc_eligible (decide opts (?t n) (fst (fails n)) (snd (fails n)))"
  assume neg: "\<not> ?thesis"
  have drop: "retry_rank opts (?t (Suc n)) < retry_rank opts (?t n)" if "?el n" for n
    using requeued_rank [OF that assms] by (simp add: Let_def split_beta)
  have rank: "(\<forall>j < m. ?el j) \<Longrightarrow> retry_rank opts (?t m) + m \<le> ?k" for m
  proof (induction m)
    case (Suc m)
    then have "retry_rank opts (?t m) + m \<le> ?k" "?el m" by simp_all
    then show ?case using drop [of m] by linarith
  qed simp
  have "?el n" if "n \<le> ?k" for n
    using that
  proof (induction n rule: less_induct)
    case (less n)
    have "\<forall>m \<le> n. retry_rank opts (?t m) + m \<le> ?k" using less rank by auto
    then show ?case using neg less.prems by blast
  qed
  then have "retry_rank opts (?t (Suc ?k)) + Suc ?k \<le> ?k" using rank [of "Suc ?k"] by simp
  then show False by simp
qed

theorem retries_terminate_witness:
  "\<exists>n \<le> 13. \<not> dc_eligible (decide (engine_options_default :: (string, string) engine_options)
      (trajectory engine_options_default (\<lambda>_. (Retry (anyhow_msg ''boom''), no_observation)) (sample_request ''https://a/'' ''k'') n)
      (Retry (anyhow_msg ''boom'')) no_observation)"
  using retries_terminate [of "\<lambda>_. (Retry (anyhow_msg ''boom''), no_observation)" engine_options_default
      "sample_request ''https://a/'' ''k''"]
  by (auto simp: retry_rank_def retry_cap_def engine_options_default_def sample_request_def)

end
