(* ===== verification/Engine.thy ===== *)
theory Engine
  imports Memory_Queue Attempt
begin

text \<open>
  The dispatcher (\<open>millipede-core/src/crawler/engine.rs\<close>): its state, completions, the pump that starts
  deferred leases and fetches new ones, lease renewal, shutdown, and the dispatch loop as transitions
  between its await points. The queue is a record of operations over a state \<open>'q\<close>. Every reading of
  the clock takes the next value of the stream \<open>env_clock\<close>, so no two readings are assumed equal.
  A call that the code bounds by \<open>internal_operation_timeout\<close> has a fault flag: a call that times out
  is dropped while it waits for the queue and leaves it unchanged.
\<close>

section \<open>Data\<close>

datatype request_final_state = Succeeded | FinalFailed | FinalSkipped

record ('u, 'j) handled_request =
  hr_request :: "('u, 'j) request"
  hr_loaded_url :: "'u option"
  hr_outcome :: request_final_state
  hr_response_status :: "u16 option"
  hr_retry_count :: u32
  hr_duration :: duration

record system_snapshot =
  sy_created_at :: "wall_time option"
  sy_cpu_used_ratio :: "fl option"
  sy_memory_used_bytes :: "u64 option"

datatype ('u, 'j) crawler_event =
    PersistState bool
  | RequestFinished "('u, 'j) handled_request"
  | RequestFailed "('u, 'j) request" string
  | SystemInfo system_snapshot
  | Aborting
  | Exiting

record ('u, 'j) slot_state =
  ss_lease :: "('u, 'j) lease"
  ss_started :: instant

record ('u, 'j) deferred_start =
  df_lease :: "('u, 'j) lease"
  df_carried :: attempt_overrides
  df_domain_reserved :: bool
  df_renew_at :: instant

definition MIN_DEFERRED_CAPACITY :: nat where
  "MIN_DEFERRED_CAPACITY = 32"

definition DEFERRED_LEASE_RENEWAL_MARGIN :: duration where
  "DEFERRED_LEASE_RENEWAL_MARGIN = secs 30"

definition DEFERRED_LEASE_EXTENSION :: duration where
  "DEFERRED_LEASE_EXTENSION = secs 180"

text \<open>
  The engine's environment: its options, whether a failed-request handler and a key-value store are
  configured, the renderings of strings, and the clocks.
\<close>

record ('u, 'j) engine_env =
  env_opts :: "('u, 'j) engine_options"
  env_failed_handler :: bool
  env_kvs :: bool
  env_debug :: "string \<Rightarrow> string"
  env_clock :: "nat \<Rightarrow> instant"
  env_wall :: "nat \<Rightarrow> wall_time"

text \<open>
  The variables of \<open>dispatch_loop\<close> and the shared state. \<open>en_in_flight\<close> has the slot of every running
  attempt with what it was spawned with. The binary heap of \<open>Reverse\<close> pairs is a list sorted by ready
  instant and sequence. \<open>en_failures\<close> are the calls of the failed-request handler, \<open>en_saved\<close> is what was
  last persisted, \<open>en_reads\<close> the number of clock readings.
\<close>

record ('q, 'u, 'j) engine =
  en_queue :: 'q
  en_pool :: autoscaled_pool
  en_stats :: stats_state
  en_events :: "('u, 'j) crawler_event list"
  en_results :: "('u, 'j) handled_request list"
  en_in_flight :: "(u64 \<times> ('u, 'j) request \<times> attempt_overrides) list"
  en_slots :: "(u64 \<times> ('u, 'j) slot_state) list"
  en_accumulated :: "(string \<times> duration) list"
  en_overrides :: "(string \<times> attempt_overrides) list"
  en_deferred :: "(instant \<times> u64) list"
  en_deferred_entries :: "(u64 \<times> ('u, 'j) deferred_start) list"
  en_next_slot :: u64
  en_next_deferred :: u64
  en_draining :: bool
  en_drain :: bool
  en_cancel :: bool
  en_failures :: "(('u, 'j) request \<times> crawl_error \<times> u32) list"
  en_saved :: "persisted_statistics option"
  en_reads :: nat

definition engine_start :: "'q \<Rightarrow> autoscaled_pool \<Rightarrow> stats_state \<Rightarrow> ('q, 'u, 'j) engine" where
  "engine_start q p s = \<lparr>en_queue = q, en_pool = p, en_stats = s, en_events = [], en_results = [],
     en_in_flight = [], en_slots = [], en_accumulated = [], en_overrides = [], en_deferred = [],
     en_deferred_entries = [], en_next_slot = 0, en_next_deferred = 0, en_draining = False,
     en_drain = False, en_cancel = False, en_failures = [], en_saved = None, en_reads = 0\<rparr>"

definition tick :: "('u, 'j) engine_env \<Rightarrow> ('q, 'u, 'j) engine \<Rightarrow> instant \<times> ('q, 'u, 'j) engine" where
  "tick E e = (env_clock E (en_reads e), e\<lparr>en_reads := Suc (en_reads e)\<rparr>)"

definition emit :: "('u, 'j) crawler_event \<Rightarrow> ('q, 'u, 'j) engine \<Rightarrow> ('q, 'u, 'j) engine" where
  "emit ev e = e\<lparr>en_events := en_events e @ [ev]\<rparr>"

definition deferred_cap :: "('q, 'u, 'j) engine \<Rightarrow> nat" where
  "deferred_cap e = max (max_concurrency (en_pool e)) MIN_DEFERRED_CAPACITY"

section \<open>Completions\<close>

text \<open>
  A call of the queue that consumes a lease, with its error as the critical error the code maps it to.
\<close>

definition queue_call ::
  "('q \<Rightarrow> (storage_error + unit) \<times> 'q) \<Rightarrow> ('q, 'u, 'j) engine \<Rightarrow> (crawl_error + unit) \<times> ('q, 'u, 'j) engine" where
  "queue_call f e = (case f (en_queue e) of (r, q) \<Rightarrow>
     (case r of Inl error \<Rightarrow> Inl (storage_failure error) | Inr _ \<Rightarrow> Inr (), e\<lparr>en_queue := q\<rparr>))"

text \<open>
  What a joined task gives: the result, the duration, the observation and the lease with the request
  the attempt worked on, its two counters kept.
\<close>

definition unpack_output ::
  "('u, 'j) attempt_output \<Rightarrow> ('u, 'j) lease
     \<Rightarrow> (crawl_error + unit) \<times> duration \<times> 'u attempt_observation \<times> ('u, 'j) lease" where
  "unpack_output output l =
     (out_result output, out_duration output, out_observation output,
      l\<lparr>lease_request := (out_request output)\<lparr>req_retry_count := req_retry_count (lease_request l),
          req_session_rotation_count := req_session_rotation_count (lease_request l)\<rparr>\<rparr>)"

definition panic_error :: "join_error \<Rightarrow> crawl_error" where
  "panic_error j = Retry (anyhow_msg (''request handler panicked: '' @ panic_message j))"

text \<open>The pool learns the outcome and the host's response.\<close>

definition note_attempt ::
  "('u, 'j) engine_env \<Rightarrow> string option \<Rightarrow> crawl_error + unit \<Rightarrow> 'u attempt_observation
     \<Rightarrow> ('q, 'u, 'j) engine \<Rightarrow> ('q, 'u, 'j) engine" where
  "note_attempt E host result observation e =
     (let outcome = (case result of Inr _ \<Rightarrow> Success | Inl _ \<Rightarrow> Setback);
          e1 = e\<lparr>en_pool := record_outcome outcome (en_pool e)\<rparr>
      in case host of
           None \<Rightarrow> e1
         | Some h \<Rightarrow>
             let (now, e2) = tick E e1;
                 (status, after) = (case result of
                    Inr _ \<Rightarrow> (ob_status observation, None)
                  | Inl error \<Rightarrow> (observed_status observation error, retry_after error))
             in e2\<lparr>en_pool := pool_note_response h status after now (en_pool e2)\<rparr>)"

definition forget :: "string \<Rightarrow> ('q, 'u, 'j) engine \<Rightarrow> ('q, 'u, 'j) engine" where
  "forget key e = e\<lparr>en_accumulated := AList.delete key (en_accumulated e),
     en_overrides := AList.delete key (en_overrides e)\<rparr>"

definition complete_success ::
  "('u, 'j) engine_env \<Rightarrow> ('q, 'u, 'j) queue_ops \<Rightarrow> ('u, 'j) lease \<Rightarrow> string \<Rightarrow> duration
     \<Rightarrow> 'u attempt_observation \<Rightarrow> ('q, 'u, 'j) engine \<Rightarrow> (crawl_error + unit) \<times> ('q, 'u, 'j) engine" where
  "complete_success E Q l key total_time observation e =
     (let e1 = forget key e;
          snapshot = (lease_request l)\<lparr>req_loaded_url := ob_loaded_url observation, req_state := Done,
            req_handled_at := Some (env_wall E (en_reads e1))\<rparr>;
          retry_count = req_retry_count snapshot
      in case queue_call (q_mark_handled Q (l\<lparr>lease_request := snapshot\<rparr>)) e1 of
           (Inl error, e2) \<Rightarrow> (Inl error, e2)
         | (Inr _, e2) \<Rightarrow>
             let (now, e3) = tick E e2;
                 e4 = e3\<lparr>en_stats := record_finished now total_time (ob_status observation) retry_count (en_stats e3)\<rparr>;
                 handled = \<lparr>hr_request = snapshot, hr_loaded_url = ob_loaded_url observation, hr_outcome = Succeeded,
                   hr_response_status = ob_status observation, hr_retry_count = retry_count, hr_duration = total_time\<rparr>;
                 e5 = emit (RequestFinished handled) e4
             in (Inr (), e5\<lparr>en_results := en_results e5 @ [handled]\<rparr>))"

definition complete_critical ::
  "('u, 'j) engine_env \<Rightarrow> ('q, 'u, 'j) queue_ops \<Rightarrow> ('u, 'j) lease \<Rightarrow> string \<Rightarrow> crawl_error
     \<Rightarrow> ('q, 'u, 'j) engine \<Rightarrow> (crawl_error + unit) \<times> ('q, 'u, 'j) engine" where
  "complete_critical E Q l key error e =
     (let text = error_text (env_debug E) error;
          l1 = l\<lparr>lease_request := push_error (lease_request l) text\<rparr>
      in (Inl (Critical (anyhow_msg text)), snd (queue_call (q_abandon Q l1) (forget key e))))"

definition complete_retry ::
  "('u, 'j) engine_env \<Rightarrow> ('q, 'u, 'j) queue_ops \<Rightarrow> ('u, 'j) lease \<Rightarrow> string \<Rightarrow> duration \<Rightarrow> crawl_error
     \<Rightarrow> decision \<Rightarrow> ('q, 'u, 'j) engine \<Rightarrow> (crawl_error + unit) \<times> ('q, 'u, 'j) engine" where
  "complete_retry E Q l key total_time error d e =
     (let text = error_text (env_debug E) error;
          e1 = e\<lparr>en_overrides := (case dc_overrides d of Some ov \<Rightarrow> AList.update key ov (en_overrides e) | None \<Rightarrow> en_overrides e),
            en_accumulated := AList.update key total_time (en_accumulated e)\<rparr>;
          r1 = push_error (lease_request l) text;
          (now, e2) = tick E e1;
          e3 = e2\<lparr>en_stats := record_retry now text (en_stats e2)\<rparr>;
          r2 = (if dc_rotates d then r1\<lparr>req_session_rotation_count := req_session_rotation_count r1 + 1\<rparr> else r1)
      in queue_call (q_reclaim Q (l\<lparr>lease_request := r2\<rparr>) \<lparr>rc_forefront = False, rc_increment_retry = \<not> dc_rotates d\<rparr>) e3)"

definition complete_failure ::
  "('u, 'j) engine_env \<Rightarrow> ('q, 'u, 'j) queue_ops \<Rightarrow> ('u, 'j) lease \<Rightarrow> string \<Rightarrow> duration \<Rightarrow> crawl_error
     \<Rightarrow> 'u attempt_observation \<Rightarrow> ('q, 'u, 'j) engine \<Rightarrow> (crawl_error + unit) \<times> ('q, 'u, 'j) engine" where
  "complete_failure E Q l key total_time error observation e =
     (let e1 = forget key e;
          text = error_text (env_debug E) error;
          snapshot = (push_error (lease_request l) text)\<lparr>req_state := Error, req_handled_at := Some (env_wall E (en_reads e1))\<rparr>;
          retry_count = req_retry_count snapshot;
          e2 = (if env_failed_handler E then e1\<lparr>en_failures := en_failures e1 @ [(snapshot, error, retry_count)]\<rparr> else e1)
      in case queue_call (q_mark_handled Q (l\<lparr>lease_request := snapshot\<rparr>)) e2 of
           (Inl failure, e3) \<Rightarrow> (Inl failure, e3)
         | (Inr _, e3) \<Rightarrow>
             let (now, e4) = tick E e3;
                 e5 = e4\<lparr>en_stats := record_failed now total_time text retry_count (en_stats e4)\<rparr>;
                 e6 = emit (RequestFailed snapshot text) e5
             in (Inr (), e6\<lparr>en_results := en_results e6 @ [\<lparr>hr_request = snapshot, hr_loaded_url = ob_loaded_url observation,
                   hr_outcome = FinalFailed, hr_response_status = observed_status observation error,
                   hr_retry_count = retry_count, hr_duration = total_time\<rparr>]\<rparr>))"

definition settle ::
  "('u, 'j) engine_env \<Rightarrow> ('q, 'u, 'j) queue_ops \<Rightarrow> ('u, 'j) lease \<Rightarrow> crawl_error + unit \<Rightarrow> duration
     \<Rightarrow> 'u attempt_observation \<Rightarrow> ('q, 'u, 'j) engine \<Rightarrow> (crawl_error + unit) \<times> ('q, 'u, 'j) engine" where
  "settle E Q l result duration observation e =
     (let key = req_unique_key (lease_request l);
          total_time = (case map_of (en_accumulated e) key of Some t \<Rightarrow> t | None \<Rightarrow> 0) + duration
      in case result of
           Inr _ \<Rightarrow> complete_success E Q l key total_time observation e
         | Inl error \<Rightarrow>
             if is_critical error then complete_critical E Q l key error e
             else
               let d = decide (env_opts E) (lease_request l) error observation in
               if dc_eligible d then complete_retry E Q l key total_time error d e
               else complete_failure E Q l key total_time error observation e)"

text \<open>\<open>None\<close> is the panic of \<open>expect("completed task has a retained lease")\<close>.\<close>

definition handle_completion ::
  "('u, 'j) externals \<Rightarrow> ('u, 'j) engine_env \<Rightarrow> ('q, 'u, 'j) queue_ops \<Rightarrow> u64
     \<Rightarrow> join_error + ('u, 'j) attempt_output \<Rightarrow> ('q, 'u, 'j) engine
     \<Rightarrow> ((crawl_error + unit) \<times> ('q, 'u, 'j) engine) option" where
  "handle_completion X E Q slot joined e =
     (case map_of (en_slots e) slot of
        None \<Rightarrow> None
      | Some s \<Rightarrow>
          let l = ss_lease s;
              e1 = e\<lparr>en_slots := AList.delete slot (en_slots e)\<rparr>;
              host = url_host_str X (req_url (lease_request l))
          in Some (case joined of
               Inl TaskCancelled \<Rightarrow> queue_call (q_abandon Q l) e1
             | Inl j \<Rightarrow>
                 let (now, e2) = tick E e1; result = Inl (panic_error j) in
                 settle E Q l result (now - ss_started s) no_observation (note_attempt E host result no_observation e2)
             | Inr output \<Rightarrow>
                 let (result, duration, observation, l1) = unpack_output output l in
                 settle E Q l1 result duration observation (note_attempt E host result observation e1)))"

section \<open>Giving leases back, renewing them\<close>

definition abandon_all :: "('q, 'u, 'j) queue_ops \<Rightarrow> ('u, 'j) lease list \<Rightarrow> ('q, 'u, 'j) engine \<Rightarrow> ('q, 'u, 'j) engine" where
  "abandon_all Q ls e = foldl (\<lambda>e l. snd (queue_call (q_abandon Q l) e)) e ls"

definition abandon_deferred :: "('q, 'u, 'j) queue_ops \<Rightarrow> ('q, 'u, 'j) engine \<Rightarrow> ('q, 'u, 'j) engine" where
  "abandon_deferred Q e =
     abandon_all Q (map (df_lease \<circ> snd) (en_deferred_entries e)) (e\<lparr>en_deferred := [], en_deferred_entries := []\<rparr>)"

definition abort_remaining :: "('q, 'u, 'j) queue_ops \<Rightarrow> ('q, 'u, 'j) engine \<Rightarrow> ('q, 'u, 'j) engine" where
  "abort_remaining Q e =
     (let e1 = (emit Aborting e)\<lparr>en_in_flight := []\<rparr>;
          e2 = abandon_all Q (map (ss_lease \<circ> snd) (en_slots e1)) (e1\<lparr>en_slots := []\<rparr>)
      in abandon_deferred Q e2)"

definition renewed :: "('u, 'j) deferred_start \<Rightarrow> ('u, 'j) deferred_start" where
  "renewed d = d\<lparr>df_lease := (df_lease d)\<lparr>lease_expires_at := lease_expires_at (df_lease d) + DEFERRED_LEASE_EXTENSION\<rparr>,
     df_renew_at := df_renew_at d + DEFERRED_LEASE_EXTENSION\<rparr>"

fun renew_due ::
  "('u, 'j) engine_env \<Rightarrow> ('q, 'u, 'j) queue_ops \<Rightarrow> u64 list \<Rightarrow> ('q, 'u, 'j) engine
     \<Rightarrow> ((crawl_error + unit) \<times> ('q, 'u, 'j) engine) option" where
  "renew_due E Q [] e = Some (Inr (), e)"
| "renew_due E Q (sequence # rest) e =
     (case map_of (en_deferred_entries e) sequence of
        None \<Rightarrow> None
      | Some d \<Rightarrow>
          let (now, e1) = tick E e in
          case queue_call (q_renew Q now (lease_id (df_lease d)) DEFERRED_LEASE_EXTENSION) e1 of
            (Inl error, e2) \<Rightarrow> Some (Inl error, e2)
          | (Inr _, e2) \<Rightarrow> renew_due E Q rest
              (e2\<lparr>en_deferred_entries := AList.update sequence (renewed d) (en_deferred_entries e2)\<rparr>))"

definition renew_deferred_leases ::
  "('u, 'j) engine_env \<Rightarrow> ('q, 'u, 'j) queue_ops \<Rightarrow> ('q, 'u, 'j) engine
     \<Rightarrow> ((crawl_error + unit) \<times> ('q, 'u, 'j) engine) option" where
  "renew_deferred_leases E Q e =
     (let (now, e1) = tick E e;
          due = map fst (filter (\<lambda>(_, d). df_renew_at d \<le> now) (en_deferred_entries e1))
      in renew_due E Q due e1)"

section \<open>The pump\<close>

text \<open>The heap: the earliest pair first, ties by sequence number.\<close>

fun heap_push :: "instant \<times> u64 \<Rightarrow> (instant \<times> u64) list \<Rightarrow> (instant \<times> u64) list" where
  "heap_push x [] = [x]"
| "heap_push x (y # ys) =
     (if fst x < fst y \<or> fst x = fst y \<and> snd x \<le> snd y then x # y # ys else y # heap_push x ys)"

definition put_back ::
  "instant \<Rightarrow> u64 \<Rightarrow> ('u, 'j) deferred_start \<Rightarrow> ('q, 'u, 'j) engine \<Rightarrow> ('q, 'u, 'j) engine" where
  "put_back ready_at sequence entry e = e\<lparr>en_deferred := heap_push (ready_at, sequence) (en_deferred e),
     en_deferred_entries := AList.update sequence entry (en_deferred_entries e)\<rparr>"

definition reserve_domain ::
  "('u, 'j) externals \<Rightarrow> instant \<Rightarrow> ('u, 'j) deferred_start \<Rightarrow> ('q, 'u, 'j) engine
     \<Rightarrow> duration \<times> ('u, 'j) deferred_start \<times> ('q, 'u, 'j) engine" where
  "reserve_domain X now entry e =
     (if df_domain_reserved entry then (0, entry, e)
      else
        let entry1 = entry\<lparr>df_domain_reserved := True\<rparr> in
        case url_host_str X (req_url (lease_request (df_lease entry1))) of
          None \<Rightarrow> (0, entry1, e)
        | Some host \<Rightarrow> let (w, p) = domain_slot_wait host now (en_pool e) in (w, entry1, e\<lparr>en_pool := p\<rparr>))"

definition spawn_slot ::
  "('u, 'j) engine_env \<Rightarrow> ('u, 'j) deferred_start \<Rightarrow> ('q, 'u, 'j) engine \<Rightarrow> ('q, 'u, 'j) engine" where
  "spawn_slot E entry e =
     (let slot = en_next_slot e;
          (started, e1) = tick E (e\<lparr>en_next_slot := en_next_slot e + 1\<rparr>)
      in e1\<lparr>en_in_flight := en_in_flight e1 @ [(slot, lease_request (df_lease entry), df_carried entry)],
            en_slots := AList.update slot \<lparr>ss_lease = df_lease entry, ss_started = started\<rparr> (en_slots e1)\<rparr>)"

definition take_deferred :: "u64 \<Rightarrow> (instant \<times> u64) list \<Rightarrow> ('q, 'u, 'j) engine \<Rightarrow> ('q, 'u, 'j) engine" where
  "take_deferred sequence rest e = e\<lparr>en_deferred := rest,
     en_deferred_entries := AList.delete sequence (en_deferred_entries e)\<rparr>"

text \<open>
  One turn of the inner \<open>while\<close>, with the entry already removed: \<open>Inl\<close> leaves the loop, \<open>Inr\<close> goes on.
  \<open>None\<close> is a panic.
\<close>

definition start_entry ::
  "('u, 'j) externals \<Rightarrow> ('u, 'j) engine_env \<Rightarrow> instant \<Rightarrow> u64 \<Rightarrow> ('u, 'j) deferred_start \<Rightarrow> ('q, 'u, 'j) engine
     \<Rightarrow> (('q, 'u, 'j) engine + ('q, 'u, 'j) engine) option" where
  "start_entry X E now sequence entry e =
     (let (w, entry1, e1) = reserve_domain X now entry e in
      if w \<noteq> 0 then Some (Inr (put_back (now + w) sequence entry1 e1))
      else
        let (t, p) = task_token_wait now (en_pool e1); e2 = e1\<lparr>en_pool := p\<rparr> in
        case t of
          None \<Rightarrow> Some (Inr (spawn_slot E entry1 e2))
        | Some (Wait d) \<Rightarrow> Some (Inl (put_back (now + d) sequence entry1 e2))
        | Some _ \<Rightarrow> None)"

definition unreserved :: "(u64 \<times> ('u, 'j) deferred_start) list \<Rightarrow> nat" where
  "unreserved entries = length (filter (\<lambda>p. \<not> df_domain_reserved (snd p)) entries)"

lemma heap_push_length [simp]: "length (heap_push x h) = Suc (length h)"
  by (induction h) auto

lemma unreserved_delete:
  "unreserved (AList.delete k es) \<le> unreserved es"
  "map_of es k = Some d \<Longrightarrow> \<not> df_domain_reserved d \<Longrightarrow> unreserved (AList.delete k es) < unreserved es"
  by (induction es) (auto simp: unreserved_def AList.delete_eq less_Suc_eq_le)

lemma unreserved_update:
  "k \<notin> fst ` set es \<Longrightarrow> df_domain_reserved d \<Longrightarrow> unreserved (AList.update k d es) = unreserved es"
  by (induction es) (auto simp: unreserved_def)

lemma tick_fields [simp]:
  "en_in_flight (snd (tick E e)) = en_in_flight e" "en_deferred (snd (tick E e)) = en_deferred e"
  "en_deferred_entries (snd (tick E e)) = en_deferred_entries e" "en_slots (snd (tick E e)) = en_slots e"
  by (simp_all add: tick_def)

lemma start_entry_decreases:
  assumes "start_entry X E now sequence entry (take_deferred sequence rest e) = Some (Inr e')"
    and "map_of (en_deferred_entries e) sequence = Some entry" and "en_deferred e = x # rest"
  shows "length (en_deferred e') + unreserved (en_deferred_entries e') < length (en_deferred e) + unreserved (en_deferred_entries e)"
proof -
  let ?es = "AList.delete sequence (en_deferred_entries e)"
  have new: "sequence \<notin> fst ` set ?es" by (auto simp: AList.delete_eq)
  obtain w entry1 e1 where r: "reserve_domain X now entry (take_deferred sequence rest e) = (w, entry1, e1)"
    using prod_cases3 by blast
  have f: "en_deferred e1 = rest" "en_deferred_entries e1 = ?es" "df_domain_reserved entry1" "w \<noteq> 0 \<Longrightarrow> \<not> df_domain_reserved entry"
    using r by (auto simp: reserve_domain_def take_deferred_def Let_def split: if_splits option.splits prod.splits)
  show ?thesis
  proof (cases "w = 0")
    case True
    then obtain p where "e' = spawn_slot E entry1 (e1\<lparr>en_pool := p\<rparr>)"
      using assms(1) r by (auto simp: start_entry_def Let_def split: prod.splits option.splits acquire.splits)
    then show ?thesis using f assms(3) unreserved_delete(1) [of sequence "en_deferred_entries e"]
      by (simp add: spawn_slot_def tick_def Let_def)
  next
    case False
    then have "e' = put_back (now + w) sequence entry1 e1" using assms(1) r by (simp add: start_entry_def Let_def)
    then show ?thesis using f False assms(3) unreserved_update [OF new f(3)] unreserved_delete(2) [OF assms(2)]
      by (simp add: put_back_def)
  qed
qed

function start_ready ::
  "('u, 'j) externals \<Rightarrow> ('u, 'j) engine_env \<Rightarrow> nat \<Rightarrow> ('q, 'u, 'j) engine \<Rightarrow> ('q, 'u, 'j) engine option" where
  "start_ready X E desired e =
     (if desired \<le> length (en_in_flight e) then Some e
      else case en_deferred e of
        [] \<Rightarrow> Some e
      | (ready_at, sequence) # rest \<Rightarrow>
          let (now, e1) = tick E e in
          if now < ready_at then Some e1
          else case map_of (en_deferred_entries e1) sequence of
            None \<Rightarrow> None
          | Some entry \<Rightarrow>
              (case start_entry X E now sequence entry (take_deferred sequence rest e1) of
                 None \<Rightarrow> None
               | Some (Inl e2) \<Rightarrow> Some e2
               | Some (Inr e2) \<Rightarrow> start_ready X E desired e2))"
  by pat_completeness auto
termination
proof (relation "measure (\<lambda>(_, _, _, e). length (en_deferred e) + unreserved (en_deferred_entries e))", goal_cases)
  case (2 X E desired e x rest ready_at sequence p now e1 entry s e2)
  have t: "e1 = snd (tick E e)" using 2 by (metis snd_conv)
  have "start_entry X E now sequence entry (take_deferred sequence rest e1) = Some (Inr e2)"
    "map_of (en_deferred_entries e1) sequence = Some entry" "en_deferred e1 = (ready_at, sequence) # rest"
    using 2 t by simp_all
  from start_entry_decreases [OF this] show ?case by (simp add: t)
qed simp

declare start_ready.simps [simp del]

text \<open>The statistics' snapshot, for the number of finished requests; it prunes the sliding window.\<close>

definition finished_now :: "('u, 'j) engine_env \<Rightarrow> ('q, 'u, 'j) engine \<Rightarrow> u64 \<times> ('q, 'u, 'j) engine" where
  "finished_now E e =
     (let (now, e1) = tick E e; (sn, s) = stats_snapshot now (en_stats e1) in
      (sn_requests_finished sn, e1\<lparr>en_stats := s\<rparr>))"

definition limit_reserved :: "('u, 'j) engine_env \<Rightarrow> ('q, 'u, 'j) engine \<Rightarrow> bool \<times> ('q, 'u, 'j) engine" where
  "limit_reserved E e =
     (case eo_max_requests_per_crawl (env_opts E) of
        None \<Rightarrow> (False, e)
      | Some limit \<Rightarrow>
          let (finished, e1) = finished_now E e in
          (limit \<le> sat_add (sat_add finished (word_of_nat (length (en_in_flight e1))))
                     (word_of_nat (length (en_deferred_entries e1))), e1))"

text \<open>A fetched lease is deferred, at once or until its backoff is over.\<close>

definition defer_lease ::
  "('u, 'j) engine_env \<Rightarrow> ('u, 'j) lease \<Rightarrow> ('q, 'u, 'j) engine \<Rightarrow> ('q, 'u, 'j) engine" where
  "defer_lease E l e =
     (let key = req_unique_key (lease_request l);
          carried = (case map_of (en_overrides e) key of Some ov \<Rightarrow> ov | None \<Rightarrow> no_overrides);
          sequence = en_next_deferred e;
          e1 = e\<lparr>en_overrides := AList.delete key (en_overrides e), en_next_deferred := en_next_deferred e + 1\<rparr>;
          (now1, e2) = tick E e1;
          ready_at = now1 + (case ov_backoff carried of Some b \<Rightarrow> b | None \<Rightarrow> 0);
          (now2, e3) = tick E e2;
          renew_in = lease_expires_at l - now2 - DEFERRED_LEASE_RENEWAL_MARGIN;
          (now3, e4) = tick E e3
      in put_back ready_at sequence
           \<lparr>df_lease = l, df_carried = carried, df_domain_reserved = False, df_renew_at = now3 + renew_in\<rparr> e4)"

section \<open>The dispatch loop\<close>

text \<open>
  Where the loop is: at its head, in the pump with the desired concurrency it read, past the pump,
  in a \<open>select!\<close>, or done. \<open>EnginePanic\<close> is an \<open>expect\<close> that fails.
\<close>

datatype phase = Head | Pump nat | Pumped | Sleep | Returned "crawl_error + unit" | EnginePanic

type_synonym ('q, 'u, 'j) config = "phase \<times> ('q, 'u, 'j) engine"

definition check_limit :: "('u, 'j) engine_env \<Rightarrow> ('q, 'u, 'j) engine \<Rightarrow> ('q, 'u, 'j) engine" where
  "check_limit E e =
     (if en_draining e then e
      else case eo_max_requests_per_crawl (env_opts E) of
        None \<Rightarrow> e
      | Some limit \<Rightarrow>
          let (finished, e1) = finished_now E e in
          if limit \<le> finished then e1\<lparr>en_drain := True, en_draining := True\<rparr> else e1)"

definition head_turn ::
  "('u, 'j) engine_env \<Rightarrow> ('q, 'u, 'j) queue_ops \<Rightarrow> ('q, 'u, 'j) engine \<Rightarrow> ('q, 'u, 'j) config" where
  "head_turn E Q e =
     (if en_cancel e then (Returned (Inr ()), abort_remaining Q e)
      else
        let e1 = (if \<not> en_draining e \<and> en_drain e then e\<lparr>en_draining := True\<rparr> else e);
            e2 = check_limit E e1;
            e3 = (if en_draining e2 \<and> en_deferred_entries e2 \<noteq> [] then abandon_deferred Q e2 else e2)
        in case renew_deferred_leases E Q e3 of
             None \<Rightarrow> (EnginePanic, e3)
           | Some (Inl error, e4) \<Rightarrow> (Returned (Inl error), abort_remaining Q e4)
           | Some (Inr _, e4) \<Rightarrow> (Pump (desired_concurrency (en_pool e4)), e4))"

definition pump_turn ::
  "('u, 'j) externals \<Rightarrow> ('u, 'j) engine_env \<Rightarrow> ('q, 'u, 'j) queue_ops \<Rightarrow> bool \<Rightarrow> nat \<Rightarrow> ('q, 'u, 'j) engine
     \<Rightarrow> ('q, 'u, 'j) config" where
  "pump_turn X E Q timed_out desired e =
     (case start_ready X E desired e of
        None \<Rightarrow> (EnginePanic, e)
      | Some e1 \<Rightarrow>
          let (reserved, e2) = limit_reserved E e1 in
          if en_draining e2 \<or> reserved \<or> desired \<le> length (en_in_flight e2)
             \<or> deferred_cap e2 \<le> length (en_deferred_entries e2) \<or> timed_out
          then (Pumped, e2)
          else
            let (now, e3) = tick E e2; (r, q) = q_fetch_next Q now (en_queue e3); e4 = e3\<lparr>en_queue := q\<rparr> in
            case r of
              Inr (Some l) \<Rightarrow> (Pump desired, defer_lease E l e4)
            | _ \<Rightarrow> (Pumped, e4))"

text \<open>A flag of the queue is unknown when the call fails or times out.\<close>

definition queue_flag :: "bool \<Rightarrow> bool \<Rightarrow> bool option" where
  "queue_flag failed v = (if failed then None else Some v)"

definition pumped_turn ::
  "('q, 'u, 'j) queue_ops \<Rightarrow> bool \<Rightarrow> bool \<Rightarrow> ('q, 'u, 'j) engine \<Rightarrow> ('q, 'u, 'j) config" where
  "pumped_turn Q f1 f2 e =
     (if en_in_flight e = [] \<and> en_deferred_entries e = [] then
        if en_draining e then (Returned (Inr ()), e)
        else if queue_flag f1 (q_is_finished Q (en_queue e)) = Some True then (Returned (Inr ()), e)
        else if queue_flag f2 (q_is_empty Q (en_queue e)) = Some False then (Head, e)
        else (Sleep, e)
      else (Sleep, e))"

text \<open>The instant at which the loop wakes by itself for a deferred lease.\<close>

definition next_deferred_wake :: "instant \<Rightarrow> ('q, 'u, 'j) engine \<Rightarrow> instant option" where
  "next_deferred_wake now e =
     (let ready_wake = (case en_deferred e of [] \<Rightarrow> None | (ready_at, _) # _ \<Rightarrow> if now < ready_at then Some ready_at else None);
          renewals = map (df_renew_at \<circ> snd) (en_deferred_entries e);
          renewal_wake = (if renewals = [] then None else Some (foldr min renewals (hd renewals)));
          w = (case (ready_wake, renewal_wake) of
             (Some ready, Some renewal) \<Rightarrow> Some (min ready renewal)
           | (Some ready, None) \<Rightarrow> Some ready
           | (None, r) \<Rightarrow> r)
      in case w of Some t \<Rightarrow> if now < t then Some t else None | None \<Rightarrow> None)"

definition persist_state :: "('u, 'j) engine_env \<Rightarrow> bool \<Rightarrow> ('q, 'u, 'j) engine \<Rightarrow> ('q, 'u, 'j) engine" where
  "persist_state E failed e =
     (let e1 = emit (PersistState False) e in
      if env_kvs E \<and> \<not> failed then
        let (now, e2) = tick E e1 in e2\<lparr>en_saved := Some (stats_persist now (en_stats e2))\<rparr>
      else e1)"

datatype ('u, 'j) wake =
    Completion u64 "join_error + ('u, 'j) attempt_output"
  | CancelWake
  | DrainWake
  | NotifyWake
  | PersistWake bool
  | DeferredWake
  | FallbackWake

definition completion_turn ::
  "('u, 'j) externals \<Rightarrow> ('u, 'j) engine_env \<Rightarrow> ('q, 'u, 'j) queue_ops \<Rightarrow> u64
     \<Rightarrow> join_error + ('u, 'j) attempt_output \<Rightarrow> ('q, 'u, 'j) engine \<Rightarrow> ('q, 'u, 'j) config" where
  "completion_turn X E Q slot joined e =
     (let e1 = e\<lparr>en_in_flight := AList.delete slot (en_in_flight e)\<rparr> in
      case handle_completion X E Q slot joined e1 of
        None \<Rightarrow> (EnginePanic, e1)
      | Some (Inl error, e2) \<Rightarrow> (Returned (Inl error), abort_remaining Q e2)
      | Some (Inr _, e2) \<Rightarrow> (Head, e2))"

fun wake_turn ::
  "('u, 'j) externals \<Rightarrow> ('u, 'j) engine_env \<Rightarrow> ('q, 'u, 'j) queue_ops \<Rightarrow> ('u, 'j) wake \<Rightarrow> ('q, 'u, 'j) engine
     \<Rightarrow> ('q, 'u, 'j) config" where
  "wake_turn X E Q (Completion slot joined) e = completion_turn X E Q slot joined e"
| "wake_turn X E Q DrainWake e = (Head, e\<lparr>en_draining := True\<rparr>)"
| "wake_turn X E Q (PersistWake failed) e = (Head, persist_state E failed e)"
| "wake_turn X E Q _ e = (Head, e)"

text \<open>Which branches of the \<open>select!\<close> may fire.\<close>

fun wake_enabled :: "('u, 'j) engine_env \<Rightarrow> ('u, 'j) wake \<Rightarrow> ('q, 'u, 'j) engine \<Rightarrow> bool" where
  "wake_enabled E (Completion slot joined) e = (slot \<in> fst ` set (en_in_flight e))"
| "wake_enabled E CancelWake e = en_cancel e"
| "wake_enabled E DrainWake e = (en_drain e \<and> \<not> en_draining e)"
| "wake_enabled E DeferredWake e = (next_deferred_wake (env_clock E (en_reads e)) e \<noteq> None)"
| "wake_enabled E _ e = True"

text \<open>
  What other tasks do while the dispatcher awaits: handlers and clients add requests, stop or abort the
  crawl and read the statistics; the background task scales; robots rules raise a host's delay.
\<close>

datatype ('u, 'j) interference =
    AddRequest "('u, 'j) request" add_options
  | StopCrawl
  | AbortCrawl
  | ReadStats
  | ScaleTick "load_snapshot list list"
  | DelayFloor string duration

fun interfere ::
  "('u, 'j) engine_env \<Rightarrow> ('q, 'u, 'j) queue_ops \<Rightarrow> ('u, 'j) interference \<Rightarrow> ('q, 'u, 'j) engine \<Rightarrow> ('q, 'u, 'j) engine" where
  "interfere E Q (AddRequest r opts) e = e\<lparr>en_queue := snd (q_add Q r opts (en_queue e))\<rparr>"
| "interfere E Q StopCrawl e = e\<lparr>en_drain := True\<rparr>"
| "interfere E Q AbortCrawl e = e\<lparr>en_cancel := True\<rparr>"
| "interfere E Q ReadStats e = snd (finished_now E e)"
| "interfere E Q (ScaleTick signals) e = e\<lparr>en_pool := fst (background_tick signals (en_pool e))\<rparr>"
| "interfere E Q (DelayFloor host f) e = e\<lparr>en_pool := set_domain_delay_floor host f (en_pool e)\<rparr>"

text \<open>\<open>A\<close> restricts what attempts may return (see \<open>keeps_key\<close>); without a restriction it is always true.\<close>

inductive engine_step ::
  "('u, 'j) externals \<Rightarrow> ('u, 'j) engine_env \<Rightarrow> ('q, 'u, 'j) queue_ops \<Rightarrow> (('u, 'j) wake \<Rightarrow> ('q, 'u, 'j) engine \<Rightarrow> bool)
     \<Rightarrow> ('q, 'u, 'j) config \<Rightarrow> ('q, 'u, 'j) config \<Rightarrow> bool"
  for X E Q A where
  head: "engine_step X E Q A (Head, e) (head_turn E Q e)"
| pump: "engine_step X E Q A (Pump desired, e) (pump_turn X E Q timed_out desired e)"
| pumped: "engine_step X E Q A (Pumped, e) (pumped_turn Q f1 f2 e)"
| wake: "wake_enabled E w e \<Longrightarrow> A w e \<Longrightarrow> engine_step X E Q A (Sleep, e) (wake_turn X E Q w e)"
| other: "engine_step X E Q A (ph, e) (ph, interfere E Q i e)"

definition finish :: "('u, 'j) engine_env \<Rightarrow> bool \<Rightarrow> ('q, 'u, 'j) engine \<Rightarrow> statistics_snapshot \<times> ('q, 'u, 'j) engine" where
  "finish E failed e =
     (let e1 = persist_state E failed (emit Exiting e);
          (now, e2) = tick E e1;
          e3 = e2\<lparr>en_stats := mark_run_stopped now (en_stats e2)\<rparr>;
          (now', e4) = tick E e3
      in (stats_finalize now' (en_stats e4), e4))"

definition run_begin :: "('u, 'j) engine_env \<Rightarrow> ('q, 'u, 'j) engine \<Rightarrow> ('q, 'u, 'j) engine" where
  "run_begin E e = (let (now, e1) = tick E e in e1\<lparr>en_stats := mark_run_started now (en_stats e1)\<rparr>)"

text \<open>\<open>run\<close> after the dispatch loop returned \<open>outcome\<close>: the statistics are only handed out on success.\<close>

definition run_end ::
  "('u, 'j) engine_env \<Rightarrow> bool \<Rightarrow> crawl_error + unit \<Rightarrow> ('q, 'u, 'j) engine
     \<Rightarrow> (crawl_error + statistics_snapshot) \<times> ('q, 'u, 'j) engine" where
  "run_end E failed outcome e =
     (let (final, e1) = finish E failed e in
      (case outcome of Inr _ \<Rightarrow> Inr final | Inl error \<Rightarrow> Inl error, e1))"

inductive_cases engine_stepE: "engine_step X E Q A (ph, e) c'"

section \<open>Running the loop\<close>

text \<open>A schedule: what the environment chooses at each await point.\<close>

datatype ('u, 'j) choice = Go bool bool | Wake "('u, 'j) wake" | Other "('u, 'j) interference"

definition run_choice ::
  "('u, 'j) externals \<Rightarrow> ('u, 'j) engine_env \<Rightarrow> ('q, 'u, 'j) queue_ops \<Rightarrow> ('q, 'u, 'j) config \<Rightarrow> ('u, 'j) choice
     \<Rightarrow> ('q, 'u, 'j) config" where
  "run_choice X E Q c ch =
     (case ch of
        Other i \<Rightarrow> (fst c, interfere E Q i (snd c))
      | Go f1 f2 \<Rightarrow> (case fst c of
            Head \<Rightarrow> head_turn E Q (snd c)
          | Pump desired \<Rightarrow> pump_turn X E Q f1 desired (snd c)
          | Pumped \<Rightarrow> pumped_turn Q f1 f2 (snd c)
          | _ \<Rightarrow> (fst c, interfere E Q ReadStats (snd c)))
      | Wake w \<Rightarrow> (if fst c = Sleep \<and> wake_enabled E w (snd c) then wake_turn X E Q w (snd c)
          else (fst c, interfere E Q ReadStats (snd c))))"

definition run_schedule ::
  "('u, 'j) externals \<Rightarrow> ('u, 'j) engine_env \<Rightarrow> ('q, 'u, 'j) queue_ops \<Rightarrow> ('u, 'j) choice list \<Rightarrow> ('q, 'u, 'j) config
     \<Rightarrow> ('q, 'u, 'j) config" where
  "run_schedule X E Q chs c = foldl (run_choice X E Q) c chs"

lemma run_choice_step:
  assumes "\<And>w e. ch = Wake w \<Longrightarrow> A w e"
  shows "engine_step X E Q A c (run_choice X E Q c ch)"
  using assms by (cases c; cases ch; cases "fst c")
    (auto simp: run_choice_def simp del: interfere.simps intro: engine_step.intros)

lemma run_schedule_steps:
  assumes "\<And>w e. Wake w \<in> set chs \<Longrightarrow> A w e"
  shows "(engine_step X E Q A ^^ length chs) c (run_schedule X E Q chs c)"
  using assms
proof (induction chs arbitrary: c)
  case (Cons ch chs)
  have "engine_step X E Q A c (run_choice X E Q c ch)" by (rule run_choice_step) (use Cons.prems in simp)
  moreover have "(engine_step X E Q A ^^ length chs) (run_choice X E Q c ch) (run_schedule X E Q chs (run_choice X E Q c ch))"
    by (rule Cons.IH) (use Cons.prems in simp)
  ultimately show ?case unfolding run_schedule_def by (simp only: length_Cons foldl_Cons) (rule relpowp_Suc_I2)
qed (simp add: run_schedule_def)

end
