(* ===== verification/Engine_Invariant.thy ===== *)
theory Engine_Invariant
  imports Engine
begin

text \<open>
  The invariant of the dispatcher, for any queue: its maps agree, its bounds hold, no \<open>expect\<close> fails;
  and the accounting of leases, by a queue that logs the calls made on it.
\<close>

section \<open>The invariant\<close>

definition slots_ok :: "('q, 'u, 'j) engine \<Rightarrow> bool" where
  "slots_ok e \<longleftrightarrow> distinct (map fst (en_in_flight e)) \<and> distinct (map fst (en_slots e))
     \<and> fst ` set (en_in_flight e) = fst ` set (en_slots e) \<and> (\<forall>s \<in> fst ` set (en_slots e). s < en_next_slot e)"

definition earlier :: "instant \<times> u64 \<Rightarrow> instant \<times> u64 \<Rightarrow> bool" where
  "earlier x y \<longleftrightarrow> fst x < fst y \<or> fst x = fst y \<and> snd x \<le> snd y"

definition deferred_ok :: "('q, 'u, 'j) engine \<Rightarrow> bool" where
  "deferred_ok e \<longleftrightarrow> distinct (map snd (en_deferred e)) \<and> distinct (map fst (en_deferred_entries e))
     \<and> snd ` set (en_deferred e) = fst ` set (en_deferred_entries e)
     \<and> (\<forall>k \<in> fst ` set (en_deferred_entries e). k < en_next_deferred e) \<and> sorted_wrt earlier (en_deferred e)"

definition bounds_ok :: "('u, 'j) engine_env \<Rightarrow> ('q, 'u, 'j) engine \<Rightarrow> bool" where
  "bounds_ok E e \<longleftrightarrow> pool_safe (en_pool e) \<and> length (en_in_flight e) \<le> max_concurrency (en_pool e)
     \<and> length (en_deferred_entries e) \<le> deferred_cap e
     \<and> unat (en_next_slot e) + length (en_deferred_entries e) \<le> unat (en_next_deferred e)
     \<and> (\<forall>limit. eo_max_requests_per_crawl (env_opts E) = Some limit \<longrightarrow>
          unat (st_requests_finished (en_stats e)) + length (en_in_flight e) + length (en_deferred_entries e) \<le> unat limit)"

definition engine_ok :: "('u, 'j) engine_env \<Rightarrow> ('q, 'u, 'j) engine \<Rightarrow> bool" where
  "engine_ok E e \<longleftrightarrow> slots_ok e \<and> deferred_ok e \<and> bounds_ok E e"

text \<open>The fields the invariant reads; an operation that keeps them keeps it.\<close>

definition core where
  "core e = (en_in_flight e, en_slots e, en_deferred e, en_deferred_entries e, en_next_slot e, en_next_deferred e,
     en_pool e, st_requests_finished (en_stats e))"

lemma engine_ok_core: "core e = core e' \<Longrightarrow> engine_ok E e = engine_ok E e'"
  unfolding core_def engine_ok_def slots_ok_def deferred_ok_def bounds_ok_def deferred_cap_def by simp

lemma core_simps [simp]:
  "core (e\<lparr>en_queue := q\<rparr>) = core e" "core (e\<lparr>en_events := ev\<rparr>) = core e" "core (e\<lparr>en_results := rs\<rparr>) = core e"
  "core (e\<lparr>en_accumulated := ac\<rparr>) = core e" "core (e\<lparr>en_overrides := ov\<rparr>) = core e" "core (e\<lparr>en_draining := d\<rparr>) = core e"
  "core (e\<lparr>en_drain := d\<rparr>) = core e" "core (e\<lparr>en_cancel := d\<rparr>) = core e" "core (e\<lparr>en_failures := fs\<rparr>) = core e"
  "core (e\<lparr>en_saved := sv\<rparr>) = core e" "core (e\<lparr>en_reads := n\<rparr>) = core e"
  by (simp_all add: core_def)

lemma core_fields:
  assumes "core e = core e'"
  shows "en_in_flight e = en_in_flight e'" "en_slots e = en_slots e'" "en_deferred e = en_deferred e'"
    "en_deferred_entries e = en_deferred_entries e'" "en_next_slot e = en_next_slot e'"
    "en_next_deferred e = en_next_deferred e'" "en_pool e = en_pool e'"
    "st_requests_finished (en_stats e) = st_requests_finished (en_stats e')"
  using assms by (simp_all add: core_def)

section \<open>Operations that keep the core\<close>

lemma core_tick: "core (snd (tick E e)) = core e" "tick E e = (now, e') \<Longrightarrow> core e' = core e"
  by (auto simp: tick_def)

lemma core_emit [simp]: "core (emit ev e) = core e"
  by (simp add: emit_def)

lemma core_queue_call: "core (snd (queue_call f e)) = core e" "queue_call f e = (r, e') \<Longrightarrow> core e' = core e"
  by (auto simp: queue_call_def split: prod.splits)

lemmas core_steps [simp] = core_tick(1) core_queue_call(1)

lemma core_forget [simp]: "core (forget key e) = core e"
  by (simp add: forget_def)

lemma core_stats: "st_requests_finished s = st_requests_finished (en_stats e) \<Longrightarrow> core (e\<lparr>en_stats := s\<rparr>) = core e"
  by (simp add: core_def)

lemma finished_fields [simp]:
  "st_requests_finished (record_retry now t s) = st_requests_finished s"
  "st_requests_finished (record_failed now d t rc s) = st_requests_finished s"
  "st_requests_finished (record_finished now d st rc s) = st_requests_finished s + 1"
  "sn_requests_finished (fst (stats_snapshot now s)) = st_requests_finished s"
  "st_requests_finished (snd (stats_snapshot now s)) = st_requests_finished s"
  by (simp_all add: record_retry_def record_failed_def record_finished_def stats_snapshot_def Let_def split: option.split)

lemma core_finished_now [simp]: "core (snd (finished_now E e)) = core e"
  "fst (finished_now E e) = st_requests_finished (en_stats e)"
  by (simp_all add: finished_now_def tick_def core_def split_beta)

lemma core_limit_reserved [simp]: "core (snd (limit_reserved E e)) = core e"
  by (simp add: limit_reserved_def split_beta split: option.split)

lemma core_check_limit [simp]: "core (check_limit E e) = core e"
  by (simp add: check_limit_def split_beta split: option.split)

lemma core_abandon_all [simp]: "core (abandon_all Q ls e) = core e"
  by (induction ls arbitrary: e) (simp_all add: abandon_all_def)

lemma core_persist_state [simp]: "core (persist_state E failed e) = core e"
  by (simp add: persist_state_def Let_def split_beta)

section \<open>Completions\<close>

lemma note_attempt_frame:
  "en_in_flight (note_attempt E h r ob e) = en_in_flight e" "en_slots (note_attempt E h r ob e) = en_slots e"
  "en_deferred (note_attempt E h r ob e) = en_deferred e"
  "en_deferred_entries (note_attempt E h r ob e) = en_deferred_entries e"
  "en_next_slot (note_attempt E h r ob e) = en_next_slot e" "en_next_deferred (note_attempt E h r ob e) = en_next_deferred e"
  "en_stats (note_attempt E h r ob e) = en_stats e" "en_queue (note_attempt E h r ob e) = en_queue e"
  by (simp_all add: note_attempt_def tick_def Let_def split_beta split: option.split)

lemma note_attempt_pool:
  assumes "pool_safe (en_pool e)"
  shows "pool_safe (en_pool (note_attempt E h r ob e))
    \<and> max_concurrency (en_pool (note_attempt E h r ob e)) = max_concurrency (en_pool e)"
  using assms pool_safe_ops by (auto simp: note_attempt_def tick_def Let_def split_beta split: option.split)

text \<open>Settling an attempt changes of the core at most the number of finished requests, by one.\<close>

lemma complete_frames:
  "complete_critical E Q l key err e = (res, e') \<Longrightarrow> core e' = core e"
  "complete_retry E Q l key t err d e = (res, e') \<Longrightarrow> core e' = core e"
  "complete_failure E Q l key t err ob e = (res, e') \<Longrightarrow> core e' = core e"
  by (auto simp: complete_critical_def complete_retry_def complete_failure_def tick_def Let_def core_stats split_beta
      split: prod.splits sum.splits option.splits if_splits dest!: core_queue_call(2))

lemma complete_success_frame:
  "complete_success E Q l key t ob e = (res, e') \<Longrightarrow> core e' = core e
     \<or> core e' = core (e\<lparr>en_stats := (en_stats e)\<lparr>st_requests_finished := st_requests_finished (en_stats e) + 1\<rparr>\<rparr>)"
  by (auto simp: complete_success_def tick_def Let_def core_def split_beta queue_call_def forget_def emit_def
      split: prod.splits sum.splits)

lemma settle_frame:
  assumes "settle E Q l r d ob e = (res, e')"
  shows "core e' = core e
    \<or> core e' = core (e\<lparr>en_stats := (en_stats e)\<lparr>st_requests_finished := st_requests_finished (en_stats e) + 1\<rparr>\<rparr>)"
  using assms unfolding settle_def Let_def
  by (auto split: sum.splits if_splits dest: complete_frames complete_success_frame)

lemma delete_keys: "fst ` set (AList.delete k m) = fst ` set m - {k}"
  by (auto simp: AList.delete_eq)

lemma delete_length: "length (AList.delete k m) \<le> length m"
  by (simp add: AList.delete_eq)

lemma delete_length_exact: "distinct (map fst m) \<Longrightarrow> k \<in> fst ` set m \<Longrightarrow> Suc (length (AList.delete k m)) = length m"
proof (induction m)
  case (Cons p m)
  then show ?case
  proof (cases "fst p = k")
    case True
    then have "k \<notin> fst ` set m" using Cons.prems(1) by auto
    then have "AList.delete k m = m" by (force simp: AList.delete_eq filter_id_conv)
    then show ?thesis using True by (cases p) simp
  qed (auto simp: AList.delete_eq)
qed simp

text \<open>The state after the slot of an ended attempt is gone.\<close>

definition without_slot :: "u64 \<Rightarrow> ('q, 'u, 'j) engine \<Rightarrow> ('q, 'u, 'j) engine" where
  "without_slot slot e = e\<lparr>en_in_flight := AList.delete slot (en_in_flight e), en_slots := AList.delete slot (en_slots e)\<rparr>"

lemma slots_ok_without: "slots_ok e \<Longrightarrow> slots_ok (without_slot slot e)"
  by (auto simp: slots_ok_def without_slot_def delete_keys distinct_delete)

lemma handle_completion_frame:
  assumes "map_of (en_slots e) slot = Some s"
  obtains r e2 p k where "handle_completion X E Q slot joined (e\<lparr>en_in_flight := AList.delete slot (en_in_flight e)\<rparr>) = Some (r, e2)"
    "core e2 = core ((without_slot slot e)\<lparr>en_pool := p, en_stats := (en_stats e)\<lparr>st_requests_finished := k\<rparr>\<rparr>)"
    "pool_safe (en_pool e) \<Longrightarrow> pool_safe p \<and> max_concurrency p = max_concurrency (en_pool e)"
    "k = st_requests_finished (en_stats e) \<or> k = st_requests_finished (en_stats e) + 1"
proof -
  let ?e1 = "without_slot slot e"
  have start: "en_slots (e\<lparr>en_in_flight := x\<rparr>) = en_slots e"
    "(e\<lparr>en_in_flight := AList.delete slot (en_in_flight e)\<rparr>)\<lparr>en_slots := AList.delete slot (en_slots e)\<rparr> = ?e1" for x
    by (simp_all add: without_slot_def)
  have noted: "core e2 = core (?e1\<lparr>en_pool := en_pool e3, en_stats := (en_stats e)\<lparr>st_requests_finished := st_requests_finished (en_stats e2)\<rparr>\<rparr>)
      \<and> (st_requests_finished (en_stats e2) = st_requests_finished (en_stats e)
        \<or> st_requests_finished (en_stats e2) = st_requests_finished (en_stats e) + 1)"
    if "settle E Q l res d ob e3 = (r, e2)" "e3 = note_attempt E h res' ob' e4" "core e4 = core ?e1" for l res d ob r e2 e3 h res' ob' e4
    using settle_frame [OF that(1)] note_attempt_frame [of E h res' ob' e4] core_fields [OF that(3)] that(2)
    by (auto simp: core_def without_slot_def)
  have pool: "pool_safe (en_pool e3) \<and> max_concurrency (en_pool e3) = max_concurrency (en_pool e)"
    if "e3 = note_attempt E h res' ob' e4" "core e4 = core ?e1" "pool_safe (en_pool e)" for h res' ob' e3 e4
    using note_attempt_pool [of e4 E h res' ob'] core_fields(7) [OF that(2)] that by (simp add: without_slot_def)
  show thesis
  proof (cases joined)
    case (Inl j)
    show thesis
    proof (cases j)
      case TaskCancelled
      obtain r e2 where qc: "queue_call (q_abandon Q (ss_lease s)) ?e1 = (r, e2)" by fastforce
      have "handle_completion X E Q slot joined (e\<lparr>en_in_flight := AList.delete slot (en_in_flight e)\<rparr>) = Some (r, e2)"
        using assms Inl TaskCancelled qc by (simp add: handle_completion_def start Let_def)
      moreover have "core e2 = core (?e1\<lparr>en_pool := en_pool e,
          en_stats := (en_stats e)\<lparr>st_requests_finished := st_requests_finished (en_stats e)\<rparr>\<rparr>)"
        using core_queue_call(2) [OF qc] by (simp add: core_def without_slot_def)
      ultimately show thesis by (rule that) simp_all
    next
      case (TaskPanicked pl)
      let ?res = "Inl (panic_error j)" and ?h = "url_host_str X (req_url (lease_request (ss_lease s)))"
      obtain now e4 where t: "tick E ?e1 = (now, e4)" by fastforce
      obtain r e2 where st: "settle E Q (ss_lease s) ?res (now - ss_started s) no_observation
          (note_attempt E ?h ?res no_observation e4) = (r, e2)" by fastforce
      have "handle_completion X E Q slot joined (e\<lparr>en_in_flight := AList.delete slot (en_in_flight e)\<rparr>) = Some (r, e2)"
        using assms Inl TaskPanicked t st by (simp add: handle_completion_def start Let_def)
      then show thesis using noted [OF st refl core_tick(2) [OF t]] pool [OF refl core_tick(2) [OF t]] by (intro that) blast+
    qed
  next
    case (Inr out)
    let ?h = "url_host_str X (req_url (lease_request (ss_lease s)))"
    obtain res d ob l1 where u: "unpack_output out (ss_lease s) = (res, d, ob, l1)"
      by (cases "unpack_output out (ss_lease s)") auto
    obtain r e2 where st: "settle E Q l1 res d ob (note_attempt E ?h res ob ?e1) = (r, e2)" by fastforce
    have "handle_completion X E Q slot joined (e\<lparr>en_in_flight := AList.delete slot (en_in_flight e)\<rparr>) = Some (r, e2)"
      using assms Inr u st by (simp add: handle_completion_def start Let_def)
    then show thesis using noted [OF st refl refl] pool [OF refl refl] by (intro that) blast+
  qed
qed

lemma slot_has_lease:
  assumes "slots_ok e" "slot \<in> fst ` set (en_in_flight e)"
  obtains s where "map_of (en_slots e) slot = Some s"
proof -
  have "slot \<in> fst ` set (en_slots e)" using assms by (simp add: slots_ok_def)
  then show thesis using that by (metis map_of_eq_None_iff option.exhaust)
qed

lemma finished_one_more:
  assumes "engine_ok E e" "slot \<in> fst ` set (en_in_flight e)" "pool_safe p" "max_concurrency p = max_concurrency (en_pool e)"
    "k = st_requests_finished (en_stats e) \<or> k = st_requests_finished (en_stats e) + 1"
  shows "engine_ok E ((without_slot slot e)\<lparr>en_pool := p, en_stats := (en_stats e)\<lparr>st_requests_finished := k\<rparr>\<rparr>)"
proof -
  have s: "slots_ok e" and d: "deferred_ok e" and b: "bounds_ok E e" using assms(1) by (simp_all add: engine_ok_def)
  have len: "Suc (length (AList.delete slot (en_in_flight e))) = length (en_in_flight e)"
    using delete_length_exact [OF _ assms(2)] s unfolding slots_ok_def by blast
  have k: "unat k \<le> Suc (unat (st_requests_finished (en_stats e)))"
  proof (cases "st_requests_finished (en_stats e) = - 1")
    case False
    then have "unat (st_requests_finished (en_stats e) + 1) = Suc (unat (st_requests_finished (en_stats e)))"
      by (intro unat_inc unat_not_max)
    then show ?thesis using assms(5) by auto
  qed (use assms(5) in auto)
  have "slots_ok (without_slot slot e)" by (rule slots_ok_without [OF s])
  then show ?thesis using d b len k assms(3,4)
    by (fastforce simp: engine_ok_def slots_ok_def deferred_ok_def bounds_ok_def without_slot_def deferred_cap_def)
qed

definition idle :: "('q, 'u, 'j) engine \<Rightarrow> bool" where
  "idle e \<longleftrightarrow> en_in_flight e = [] \<and> en_slots e = [] \<and> en_deferred e = [] \<and> en_deferred_entries e = []"

lemma core_abandon_deferred: "core (abandon_deferred Q e) = core (e\<lparr>en_deferred := [], en_deferred_entries := []\<rparr>)"
  by (simp add: abandon_deferred_def)

lemma core_abort_remaining:
  "core (abort_remaining Q e) = core (e\<lparr>en_in_flight := [], en_slots := [], en_deferred := [], en_deferred_entries := []\<rparr>)"
proof -
  define e1 where "e1 = (emit Aborting e)\<lparr>en_in_flight := []\<rparr>"
  define e2 where "e2 = abandon_all Q (map (ss_lease \<circ> snd) (en_slots e1)) (e1\<lparr>en_slots := []\<rparr>)"
  have e2: "core e2 = core (e1\<lparr>en_slots := []\<rparr>)" by (simp add: e2_def)
  have "core (abort_remaining Q e) = core (e2\<lparr>en_deferred := [], en_deferred_entries := []\<rparr>)"
    by (simp add: abort_remaining_def Let_def core_abandon_deferred e1_def e2_def)
  then show ?thesis using core_fields [OF e2] by (simp add: core_def e1_def emit_def)
qed

lemma engine_ok_emptied:
  "engine_ok E e \<Longrightarrow> engine_ok E (e\<lparr>en_deferred := [], en_deferred_entries := []\<rparr>)"
  "engine_ok E e \<Longrightarrow> engine_ok E (e\<lparr>en_in_flight := [], en_slots := [], en_deferred := [], en_deferred_entries := []\<rparr>)"
  by (fastforce simp: engine_ok_def slots_ok_def deferred_ok_def bounds_ok_def deferred_cap_def)+

lemma abandon_deferred_ok: "engine_ok E e \<Longrightarrow> engine_ok E (abandon_deferred Q e)"
  using engine_ok_core [OF core_abandon_deferred] engine_ok_emptied(1) by metis

lemma abort_remaining_ok:
  assumes "engine_ok E e"
  shows "engine_ok E (abort_remaining Q e)" "idle (abort_remaining Q e)"
    "en_next_deferred (abort_remaining Q e) = en_next_deferred e" "en_pool (abort_remaining Q e) = en_pool e"
proof -
  note c = core_abort_remaining [of Q e]
  show "engine_ok E (abort_remaining Q e)" using engine_ok_core [OF c] engine_ok_emptied(2) [OF assms] by blast
  show "idle (abort_remaining Q e)" "en_next_deferred (abort_remaining Q e) = en_next_deferred e"
    "en_pool (abort_remaining Q e) = en_pool e"
    using core_fields [OF c] by (simp_all add: idle_def)
qed

text \<open>What is asked of a configuration after at most \<open>n\<close> fetches.\<close>

fun phase_ok :: "phase \<Rightarrow> ('q, 'u, 'j) engine \<Rightarrow> bool" where
  "phase_ok EnginePanic e = False"
| "phase_ok (Returned r) e = idle e"
| "phase_ok (Pump d) e = (d \<le> max_concurrency (en_pool e))"
| "phase_ok _ e = True"

definition dispatch_ok :: "('u, 'j) engine_env \<Rightarrow> nat \<Rightarrow> nat \<Rightarrow> ('q, 'u, 'j) config \<Rightarrow> bool" where
  "dispatch_ok E m n c \<longleftrightarrow> engine_ok E (snd c) \<and> phase_ok (fst c) (snd c) \<and> unat (en_next_deferred (snd c)) \<le> n
     \<and> max_concurrency (en_pool (snd c)) = m"

lemma completion_turn_ok:
  assumes "engine_ok E e" "unat (en_next_deferred e) \<le> n" "slot \<in> fst ` set (en_in_flight e)"
    "max_concurrency (en_pool e) = m"
  shows "dispatch_ok E m n (completion_turn X E Q slot joined e)"
proof -
  have "slots_ok e" "pool_safe (en_pool e)" using assms(1) by (simp_all add: engine_ok_def bounds_ok_def)
  then obtain s where s: "map_of (en_slots e) slot = Some s" using slot_has_lease assms(3) by metis
  obtain r e2 p k where h:
    "handle_completion X E Q slot joined (e\<lparr>en_in_flight := AList.delete slot (en_in_flight e)\<rparr>) = Some (r, e2)"
    "core e2 = core ((without_slot slot e)\<lparr>en_pool := p, en_stats := (en_stats e)\<lparr>st_requests_finished := k\<rparr>\<rparr>)"
    "pool_safe p \<and> max_concurrency p = max_concurrency (en_pool e)"
    "k = st_requests_finished (en_stats e) \<or> k = st_requests_finished (en_stats e) + 1"
    by (rule handle_completion_frame [OF s, where X = X and E = E and Q = Q and joined = joined])
      (use \<open>pool_safe (en_pool e)\<close> in blast)
  have ok: "engine_ok E e2" using finished_one_more [OF assms(1,3)] h(3,4) engine_ok_core [OF h(2)] by blast
  have nd: "en_next_deferred e2 = en_next_deferred e" "max_concurrency (en_pool e2) = m"
    using core_fields(6,7) [OF h(2)] h(3) assms(4) by (simp_all add: without_slot_def)
  show ?thesis
    using ok nd abort_remaining_ok [OF ok, of Q] assms(2)
    by (cases r) (auto simp: completion_turn_def Let_def h(1) dispatch_ok_def)
qed

section \<open>Renewal\<close>

lemma update_known_keys: "map_of m k = Some v \<Longrightarrow> map fst (AList.update k w m) = map fst m"
  by (induction m) auto

lemma renew_due_frame:
  assumes "set seqs \<subseteq> fst ` set (en_deferred_entries e)"
  obtains r e' es where "renew_due E Q seqs e = Some (r, e')" "core e' = core (e\<lparr>en_deferred_entries := es\<rparr>)"
    "map fst es = map fst (en_deferred_entries e)"
  using assms
proof (induction seqs arbitrary: e thesis)
  case Nil
  show ?case by (rule Nil.prems(1) [of "Inr ()" e "en_deferred_entries e"]) simp_all
next
  case (Cons s seqs)
  then obtain d where d: "map_of (en_deferred_entries e) s = Some d"
    by (metis list.set_intros(1) map_of_eq_None_iff not_Some_eq subsetD)
  obtain now e1 where t: "tick E e = (now, e1)" by fastforce
  obtain r e2 where q: "queue_call (q_renew Q now (lease_id (df_lease d)) DEFERRED_LEASE_EXTENSION) e1 = (r, e2)" by fastforce
  have c: "core e2 = core e" using core_tick(2) [OF t] core_queue_call(2) [OF q] by simp
  show ?case
  proof (cases r)
    case (Inl err)
    have "renew_due E Q (s # seqs) e = Some (Inl err, e2)" using d t q Inl by simp
    moreover have "core e2 = core (e\<lparr>en_deferred_entries := en_deferred_entries e\<rparr>)" using c by simp
    ultimately show ?thesis by (rule Cons.prems(1)) simp
  next
    case (Inr u)
    let ?e3 = "e2\<lparr>en_deferred_entries := AList.update s (renewed d) (en_deferred_entries e2)\<rparr>"
    have keys: "map fst (en_deferred_entries ?e3) = map fst (en_deferred_entries e)"
      using core_fields(4) [OF c] update_known_keys [OF d] by simp
    then have "set seqs \<subseteq> fst ` set (en_deferred_entries ?e3)" using Cons.prems(2) by (metis insert_subset list.set(2) list.set_map)
    then obtain r' e' es where ih: "renew_due E Q seqs ?e3 = Some (r', e')" "core e' = core (?e3\<lparr>en_deferred_entries := es\<rparr>)"
      "map fst es = map fst (en_deferred_entries ?e3)" using Cons.IH by blast
    have "renew_due E Q (s # seqs) e = Some (r', e')" using d t q Inr ih(1) by simp
    moreover have "core e' = core (e\<lparr>en_deferred_entries := es\<rparr>)" using ih(2) core_fields [OF c] by (simp add: core_def)
    ultimately show ?thesis by (rule Cons.prems(1)) (use ih(3) keys in simp)
  qed
qed

lemma engine_ok_same_keys:
  assumes "engine_ok E e" "map fst es = map fst (en_deferred_entries e)"
  shows "engine_ok E (e\<lparr>en_deferred_entries := es\<rparr>)"
proof -
  have "length es = length (en_deferred_entries e)" using assms(2) by (metis length_map)
  moreover have "fst ` set es = fst ` set (en_deferred_entries e)" using assms(2) by (metis list.set_map)
  ultimately show ?thesis using assms
    by (simp add: engine_ok_def slots_ok_def deferred_ok_def bounds_ok_def deferred_cap_def)
qed

lemma renew_deferred_leases_ok:
  assumes "engine_ok E e"
  obtains r e' where "renew_deferred_leases E Q e = Some (r, e')" "engine_ok E e'"
    "en_next_deferred e' = en_next_deferred e" "en_pool e' = en_pool e"
proof -
  obtain now e1 where t: "tick E e = (now, e1)" by fastforce
  have c: "core e1 = core e" by (rule core_tick(2) [OF t])
  let ?due = "map fst (filter (\<lambda>(_, d). df_renew_at d \<le> now) (en_deferred_entries e1))"
  have "set ?due \<subseteq> fst ` set (en_deferred_entries e1)" by auto
  then obtain r e' es where r: "renew_due E Q ?due e1 = Some (r, e')" "core e' = core (e1\<lparr>en_deferred_entries := es\<rparr>)"
    "map fst es = map fst (en_deferred_entries e1)" by (rule renew_due_frame)
  have "engine_ok E e1" using assms engine_ok_core [OF c] by blast
  then have "engine_ok E e'" using engine_ok_same_keys r(3) engine_ok_core [OF r(2)] by blast
  moreover have "renew_deferred_leases E Q e = Some (r, e')" using t r(1) by (simp add: renew_deferred_leases_def)
  ultimately show thesis using that core_fields [OF r(2)] core_fields [OF c] by simp
qed

section \<open>The pump\<close>

text \<open>Room for one more deferred lease.\<close>

definition room :: "('u, 'j) engine_env \<Rightarrow> ('q, 'u, 'j) engine \<Rightarrow> bool" where
  "room E e \<longleftrightarrow> engine_ok E e \<and> length (en_deferred_entries e) < deferred_cap e
     \<and> unat (en_next_slot e) + length (en_deferred_entries e) < unat (en_next_deferred e)
     \<and> (\<forall>limit. eo_max_requests_per_crawl (env_opts E) = Some limit \<longrightarrow>
          unat (st_requests_finished (en_stats e)) + length (en_in_flight e) + length (en_deferred_entries e) < unat limit)"

lemma room_core: "core e = core e' \<Longrightarrow> room E e = room E e'"
  using engine_ok_core [of e e' E] unfolding core_def room_def deferred_cap_def by simp

lemma heap_push_set [simp]: "set (heap_push x h) = insert x (set h)"
  by (induction h) auto

lemma heap_push_sorted: "sorted_wrt earlier h \<Longrightarrow> sorted_wrt earlier (heap_push x h)"
proof (induction h)
  case (Cons y ys)
  then show ?case by (auto simp: earlier_def)
qed simp

lemma heap_push_distinct: "distinct (map snd (heap_push x h)) \<longleftrightarrow> snd x \<notin> snd ` set h \<and> distinct (map snd h)"
  by (induction h) auto

lemma put_back_ok:
  assumes "room E e" "k \<notin> fst ` set (en_deferred_entries e)" "k < en_next_deferred e"
  shows "engine_ok E (put_back t k entry e)"
proof -
  let ?es = "AList.update k entry (en_deferred_entries e)"
  have "map_of (en_deferred_entries e) k = None" using assms(2) by (simp add: map_of_eq_None_iff)
  then have es: "?es = en_deferred_entries e @ [(k, entry)]" by (rule update_new)
  have "deferred_ok (put_back t k entry e)"
    using assms by (auto simp: room_def engine_ok_def deferred_ok_def put_back_def es heap_push_distinct intro: heap_push_sorted)
  moreover have "slots_ok (put_back t k entry e)" "bounds_ok E (put_back t k entry e)"
    using assms(1) by (auto simp: room_def engine_ok_def slots_ok_def bounds_ok_def put_back_def es deferred_cap_def)
  ultimately show ?thesis by (simp add: engine_ok_def)
qed

lemma spawn_slot_ok:
  assumes "room E e" "length (en_in_flight e) < max_concurrency (en_pool e)"
  shows "engine_ok E (spawn_slot E entry e)"
proof -
  have ok: "slots_ok e" "deferred_ok e" "bounds_ok E e" using assms(1) by (simp_all add: room_def engine_ok_def)
  let ?slot = "en_next_slot e"
  have "unat ?slot < unat (en_next_deferred e)" using assms(1) by (simp add: room_def)
  then have "?slot < en_next_deferred e" by (simp add: word_less_nat_alt)
  then have max: "?slot \<noteq> - 1" using word_n1_ge [of "en_next_deferred e"] by (auto simp: leD)
  then have inc: "unat (?slot + 1) = Suc (unat ?slot)" by (intro unat_inc unat_not_max)
  have new: "?slot \<notin> fst ` set (en_slots e)" using ok(1) by (auto simp: slots_ok_def)
  then have "map_of (en_slots e) ?slot = None" by (simp add: map_of_eq_None_iff)
  then have upd: "AList.update ?slot v (en_slots e) = en_slots e @ [(?slot, v)]" for v by (rule update_new)
  have "slots_ok (spawn_slot E entry e)"
    using ok(1) new word_less_inc [OF max] by (auto simp: slots_ok_def spawn_slot_def tick_def Let_def upd less_imp_le)
  moreover have "deferred_ok (spawn_slot E entry e)" using ok(2) by (simp add: deferred_ok_def spawn_slot_def tick_def Let_def)
  moreover have "bounds_ok E (spawn_slot E entry e)"
    using ok(3) assms inc by (auto simp: bounds_ok_def room_def spawn_slot_def tick_def Let_def deferred_cap_def)
  ultimately show ?thesis by (simp add: engine_ok_def)
qed

lemma take_deferred_room:
  assumes "engine_ok E e" "en_deferred e = (r, k) # rest"
  shows "room E (take_deferred k rest e)" "k \<notin> fst ` set (en_deferred_entries (take_deferred k rest e))"
    "k < en_next_deferred (take_deferred k rest e)"
proof -
  have ok: "slots_ok e" "deferred_ok e" "bounds_ok E e" using assms(1) by (simp_all add: engine_ok_def)
  have k: "k \<in> fst ` set (en_deferred_entries e)" "k \<notin> snd ` set rest" using ok(2) assms(2) by (auto simp: deferred_ok_def)
  have len: "Suc (length (AList.delete k (en_deferred_entries e))) = length (en_deferred_entries e)"
    using delete_length_exact [OF _ k(1)] ok(2) unfolding deferred_ok_def by blast
  have "deferred_ok (take_deferred k rest e)"
    using ok(2) assms(2) k(2) by (auto simp: deferred_ok_def take_deferred_def delete_keys distinct_delete)
  moreover have "slots_ok (take_deferred k rest e)" using ok(1) by (simp add: slots_ok_def take_deferred_def)
  ultimately show "room E (take_deferred k rest e)" using ok(3) len
    by (fastforce simp: room_def engine_ok_def bounds_ok_def take_deferred_def deferred_cap_def)
  show "k \<notin> fst ` set (en_deferred_entries (take_deferred k rest e))" by (simp add: take_deferred_def delete_keys)
  show "k < en_next_deferred (take_deferred k rest e)" using ok(2) k(1) by (auto simp: deferred_ok_def take_deferred_def)
qed

lemma room_pool:
  "room E e \<Longrightarrow> pool_safe p \<Longrightarrow> max_concurrency p = max_concurrency (en_pool e) \<Longrightarrow> room E (e\<lparr>en_pool := p\<rparr>)"
  by (simp add: room_def engine_ok_def slots_ok_def deferred_ok_def bounds_ok_def deferred_cap_def)

lemma reserve_domain_room:
  assumes "reserve_domain X now entry e = (w, entry', e')" "room E e"
  shows "room E e' \<and> en_deferred_entries e' = en_deferred_entries e \<and> en_next_deferred e' = en_next_deferred e
    \<and> en_in_flight e' = en_in_flight e \<and> max_concurrency (en_pool e') = max_concurrency (en_pool e)"
proof -
  have p: "pool_safe (en_pool e)" using assms(2) by (simp add: room_def engine_ok_def bounds_ok_def)
  show ?thesis using assms room_pool [OF assms(2) pool_safe_ops(3) [OF p] max_concurrency_fields(4)]
    by (auto simp: reserve_domain_def Let_def split_beta split: if_splits option.splits)
qed

lemma start_entry_ok:
  assumes "room E e" "k \<notin> fst ` set (en_deferred_entries e)" "k < en_next_deferred e"
    "length (en_in_flight e) < max_concurrency (en_pool e)"
  obtains e' where "start_entry X E now k entry e = Some (Inl e') \<or> start_entry X E now k entry e = Some (Inr e')"
    "engine_ok E e'" "en_next_deferred e' = en_next_deferred e"
    "max_concurrency (en_pool e') = max_concurrency (en_pool e)"
proof -
  obtain w entry1 e1 where r: "reserve_domain X now entry e = (w, entry1, e1)" using prod_cases3 by blast
  have e1: "room E e1" "en_deferred_entries e1 = en_deferred_entries e" "en_next_deferred e1 = en_next_deferred e"
    "en_in_flight e1 = en_in_flight e" "max_concurrency (en_pool e1) = max_concurrency (en_pool e)"
    using reserve_domain_room [OF r assms(1)] by blast+
  show thesis
  proof (cases "w = 0")
    case False
    then show thesis using that [of "put_back (now + w) k entry1 e1"] put_back_ok [of E e1 k "now + w" entry1] e1 assms r
      by (simp add: start_entry_def Let_def) (simp add: put_back_def)
  next
    case True
    obtain t p where tp: "task_token_wait now (en_pool e1) = (t, p)" by fastforce
    have "pool_safe (en_pool e1)" using e1(1) by (simp add: room_def engine_ok_def bounds_ok_def)
    then have p: "pool_safe p" "t \<noteq> Some WaitPanic" "t \<noteq> Some Acquired" "max_concurrency p = max_concurrency (en_pool e1)"
      using token_wait_safe [of "en_pool e1" now] max_concurrency_fields(3) [of now "en_pool e1"] tp by auto
    let ?e2 = "e1\<lparr>en_pool := p\<rparr>"
    have e2: "room E ?e2" using room_pool [OF e1(1)] p by blast
    show thesis
    proof (cases t)
      case None
      have "engine_ok E (spawn_slot E entry1 ?e2)" by (rule spawn_slot_ok [OF e2]) (use e1 p assms in simp)
      then show thesis using that [of "spawn_slot E entry1 ?e2"] r True tp None e1 p
        by (simp add: start_entry_def Let_def) (simp add: spawn_slot_def tick_def Let_def)
    next
      case (Some a)
      then obtain d where a: "a = Wait d" using p by (cases a) auto
      have "engine_ok E (put_back (now + d) k entry1 ?e2)" by (rule put_back_ok [OF e2]) (use e1 assms in simp_all)
      then show thesis using that [of "put_back (now + d) k entry1 ?e2"] r True tp Some a e1 p
        by (simp add: start_entry_def Let_def) (simp add: put_back_def)
    qed
  qed
qed

lemma start_ready_ok:
  assumes "engine_ok E e" "desired \<le> max_concurrency (en_pool e)"
  shows "\<exists>e'. start_ready X E desired e = Some e' \<and> engine_ok E e' \<and> en_next_deferred e' = en_next_deferred e
    \<and> max_concurrency (en_pool e') = max_concurrency (en_pool e)"
  using assms
proof (induction X E desired e rule: start_ready.induct)
  case (1 X E desired e)
  consider "desired \<le> length (en_in_flight e)" | "length (en_in_flight e) < desired" "en_deferred e = []"
    | r k rest where "length (en_in_flight e) < desired" "en_deferred e = (r, k) # rest"
    by (cases "en_deferred e") force+
  then show ?case
  proof cases
    case (3 r k rest)
    obtain now e1 where t: "tick E e = (now, e1)" by fastforce
    have c: "core e1 = core e" by (rule core_tick(2) [OF t])
    have ok1: "engine_ok E e1" using "1.prems"(1) engine_ok_core [OF c] by blast
    show ?thesis
    proof (cases "now < r")
      case True
      then show ?thesis using 3 t ok1 core_fields [OF c] by (simp add: start_ready.simps [of X E desired e])
    next
      case False
      have d: "en_deferred e1 = (r, k) # rest" using core_fields(3) [OF c] 3(2) by simp
      have "k \<in> fst ` set (en_deferred_entries e1)" using ok1 d by (auto simp: engine_ok_def deferred_ok_def)
      then obtain entry where entry: "map_of (en_deferred_entries e1) k = Some entry"
        by (metis map_of_eq_None_iff not_Some_eq)
      note tk = take_deferred_room [OF ok1 d]
      have "length (en_in_flight (take_deferred k rest e1)) < max_concurrency (en_pool (take_deferred k rest e1))"
        using 3(1) "1.prems"(2) core_fields [OF c] by (simp add: take_deferred_def)
      then obtain e2 where e2: "start_entry X E now k entry (take_deferred k rest e1) = Some (Inl e2)
          \<or> start_entry X E now k entry (take_deferred k rest e1) = Some (Inr e2)" "engine_ok E e2"
        "en_next_deferred e2 = en_next_deferred e" "max_concurrency (en_pool e2) = max_concurrency (en_pool e)"
        using start_entry_ok [OF tk, of X now entry] core_fields [OF c] by (metis take_deferred_def
          engine.select_convs(2,13) engine.surjective engine.update_convs(10,11))
      from e2(1) show ?thesis
      proof
        assume "start_entry X E now k entry (take_deferred k rest e1) = Some (Inl e2)"
        then show ?thesis using 3 t False entry e2 by (simp add: start_ready.simps [of X E desired e])
      next
        assume s: "start_entry X E now k entry (take_deferred k rest e1) = Some (Inr e2)"
        have "\<exists>e'. start_ready X E desired e2 = Some e' \<and> engine_ok E e' \<and> en_next_deferred e' = en_next_deferred e2
            \<and> max_concurrency (en_pool e') = max_concurrency (en_pool e2)"
          by (rule "1.IH") (use 3 t False entry s e2 "1.prems"(2) in \<open>simp_all\<close>)
        then show ?thesis using 3 t False entry s e2 by (simp add: start_ready.simps [of X E desired e])
      qed
    qed
  qed (use "1.prems" in \<open>simp_all add: start_ready.simps [of X E desired e]\<close>)
qed

section \<open>The turns of the loop\<close>

lemma lengths_small:
  assumes "engine_ok E e"
  shows "length (en_in_flight e) < 2 ^ 64" "length (en_deferred_entries e) < 2 ^ 64"
  using assms by (auto simp: engine_ok_def bounds_ok_def pool_safe_def deferred_cap_def usize_max_def MIN_DEFERRED_CAPACITY_def)

lemma limit_not_reserved:
  assumes "engine_ok E e" "\<not> fst (limit_reserved E e)" "eo_max_requests_per_crawl (env_opts E) = Some limit"
  shows "unat (st_requests_finished (en_stats e)) + length (en_in_flight e) + length (en_deferred_entries e) < unat limit"
proof -
  let ?f = "st_requests_finished (en_stats e)" and ?a = "word_of_nat (length (en_in_flight e)) :: u64"
    and ?b = "word_of_nat (length (en_deferred_entries e)) :: u64"
  have f: "en_in_flight (snd (finished_now E e)) = en_in_flight e"
    "en_deferred_entries (snd (finished_now E e)) = en_deferred_entries e"
    using core_fields [OF core_finished_now(1)] by auto
  have "sat_add (sat_add ?f ?a) ?b < limit"
    using assms(2,3) f by (simp add: limit_reserved_def split_beta not_le)
  then have "unat (sat_add (sat_add ?f ?a) ?b) < unat limit" by (simp add: word_less_nat_alt)
  moreover have "unat ?a = length (en_in_flight e)" "unat ?b = length (en_deferred_entries e)"
    using lengths_small [OF assms(1)] by (simp_all add: unat_of_nat_small)
  moreover have "unat limit < 2 ^ 64" using unsigned_less [of limit] by simp
  ultimately show ?thesis by (simp add: unat_sat_add min_def split: if_splits)
qed

lemma defer_lease_ok:
  assumes "engine_ok E e" "length (en_deferred_entries e) < deferred_cap e" "\<not> fst (limit_reserved E e)"
    "unat (en_next_deferred e) < 2 ^ 64 - 1"
  shows "engine_ok E (defer_lease E l e)" "en_next_deferred (defer_lease E l e) = en_next_deferred e + 1"
    "en_pool (defer_lease E l e) = en_pool e"
proof -
  let ?k = "en_next_deferred e"
  define e1 where "e1 = e\<lparr>en_overrides := AList.delete (req_unique_key (lease_request l)) (en_overrides e),
    en_next_deferred := ?k + 1\<rparr>"
  define e4 where "e4 = e1\<lparr>en_reads := en_reads e + 3\<rparr>"
  obtain t entry where d: "defer_lease E l e = put_back t ?k entry e4"
    by (simp add: defer_lease_def tick_def Let_def e1_def e4_def numeral_3_eq_3)
  have ok: "slots_ok e" "deferred_ok e" "bounds_ok E e" using assms(1) by (simp_all add: engine_ok_def)
  have max: "?k \<noteq> - 1"
    using assms(4) by (auto simp: unsigned_minus_1_eq_mask mask_eq_exp_minus_1)
  have inc: "unat (?k + 1) = Suc (unat ?k)" using assms(4) by (intro unat_inc) simp
  have new: "?k \<notin> fst ` set (en_deferred_entries e)" using ok(2) by (auto simp: deferred_ok_def)
  have c: "core e4 = core (e\<lparr>en_next_deferred := ?k + 1\<rparr>)" by (simp add: e4_def e1_def core_def)
  have "room E (e\<lparr>en_next_deferred := ?k + 1\<rparr>)"
    using ok assms(2) limit_not_reserved [OF assms(1,3)] inc word_less_inc [OF max]
    by (auto simp: room_def engine_ok_def slots_ok_def deferred_ok_def bounds_ok_def deferred_cap_def less_imp_le)
  then have "room E e4" using room_core [OF c] by blast
  then show "engine_ok E (defer_lease E l e)"
    unfolding d by (rule put_back_ok) (use new word_less_inc [OF max] in \<open>simp_all add: e4_def e1_def\<close>)
  show "en_next_deferred (defer_lease E l e) = en_next_deferred e + 1" "en_pool (defer_lease E l e) = en_pool e"
    unfolding d by (simp_all add: put_back_def e4_def e1_def)
qed

lemma pump_turn_ok:
  assumes "engine_ok E e" "desired \<le> max_concurrency (en_pool e)" "unat (en_next_deferred e) \<le> n" "n < 2 ^ 64 - 1"
    "max_concurrency (en_pool e) = m"
  shows "dispatch_ok E m (Suc n) (pump_turn X E Q timed_out desired e)"
proof -
  obtain e1 where e1: "start_ready X E desired e = Some e1" "engine_ok E e1" "en_next_deferred e1 = en_next_deferred e"
    "max_concurrency (en_pool e1) = max_concurrency (en_pool e)" using start_ready_ok [OF assms(1,2), of X] by blast
  obtain rv e2 where lr: "limit_reserved E e1 = (rv, e2)" by fastforce
  have c2: "core e2 = core e1" using core_limit_reserved [of E e1] lr by simp
  have ok2: "engine_ok E e2" using e1(2) engine_ok_core [OF c2] by blast
  show ?thesis
  proof (cases "en_draining e2 \<or> rv \<or> desired \<le> length (en_in_flight e2) \<or> deferred_cap e2 \<le> length (en_deferred_entries e2) \<or> timed_out")
    case True
    then have "pump_turn X E Q timed_out desired e = (Pumped, e2)" by (simp add: pump_turn_def e1(1) lr)
    then show ?thesis using ok2 core_fields(6,7) [OF c2] e1(3,4) assms(3,5) by (simp add: dispatch_ok_def)
  next
    case False
    obtain now e3 where t: "tick E e2 = (now, e3)" by fastforce
    obtain r q where fetch: "q_fetch_next Q now (en_queue e3) = (r, q)" by fastforce
    let ?e4 = "e3\<lparr>en_queue := q\<rparr>"
    have c4: "core ?e4 = core e1" using core_tick(2) [OF t] c2 by simp
    have ok4: "engine_ok E ?e4" using e1(2) engine_ok_core [OF c4] by blast
    have step: "pump_turn X E Q timed_out desired e =
        (case r of Inr (Some l) \<Rightarrow> (Pump desired, defer_lease E l ?e4) | _ \<Rightarrow> (Pumped, ?e4))"
      using False by (simp add: pump_turn_def e1(1) lr t fetch Let_def)
    have nd: "en_next_deferred ?e4 = en_next_deferred e" using core_fields(6) [OF c4] e1(3) by simp
    have pumped: "dispatch_ok E m (Suc n) (Pumped, ?e4)" using ok4 nd assms(3,5) core_fields(7) [OF c4] e1(4) by (simp add: dispatch_ok_def)
    have nr: "\<not> fst (limit_reserved E ?e4)"
    proof -
      have "fst (limit_reserved E ?e4) = fst (limit_reserved E e1)"
        using core_fields [OF c4] core_fields [OF core_finished_now(1), of E ?e4] core_fields [OF core_finished_now(1), of E e1]
        by (simp add: limit_reserved_def split_beta split: option.split)
      then show ?thesis using lr False by simp
    qed
    have room: "length (en_deferred_entries ?e4) < deferred_cap ?e4"
      using False core_fields [OF c4] core_fields [OF c2] by (auto simp: deferred_cap_def less_max_iff_disj)
    have "unat (en_next_deferred ?e4) < 2 ^ 64 - 1" using nd assms(3,4) by simp
    note d = defer_lease_ok [OF ok4 room nr this]
    have "dispatch_ok E m (Suc n) (Pump desired, defer_lease E l ?e4)" for l
    proof -
      have "unat (en_next_deferred (defer_lease E l ?e4)) \<le> Suc n"
        using d(2) nd assms(3,4) unat_inc [of "en_next_deferred e"] by simp
      then show ?thesis using d core_fields(7) [OF c4] e1(4) assms(2,5) by (simp add: dispatch_ok_def)
    qed
    then show ?thesis unfolding step using pumped by (simp split: sum.split option.split)
  qed
qed

lemma head_turn_ok:
  assumes "engine_ok E e" "unat (en_next_deferred e) \<le> n" "max_concurrency (en_pool e) = m"
  shows "dispatch_ok E m n (head_turn E Q e)"
proof (cases "en_cancel e")
  case True
  then show ?thesis using abort_remaining_ok [OF assms(1), of Q] assms(2,3) by (simp add: head_turn_def dispatch_ok_def)
next
  case False
  define e1 where "e1 = (if \<not> en_draining e \<and> en_drain e then e\<lparr>en_draining := True\<rparr> else e)"
  define e2 where "e2 = check_limit E e1"
  define e3 where "e3 = (if en_draining e2 \<and> en_deferred_entries e2 \<noteq> [] then abandon_deferred Q e2 else e2)"
  have c2: "core e2 = core e" by (simp add: e2_def e1_def)
  have ok2: "engine_ok E e2" using assms(1) engine_ok_core [OF c2] by blast
  have ok3: "engine_ok E e3" using ok2 abandon_deferred_ok [OF ok2, of Q] by (simp add: e3_def)
  have nd3: "en_next_deferred e3 = en_next_deferred e" "en_pool e3 = en_pool e"
    using core_fields(6,7) [OF c2] core_fields(6,7) [OF core_abandon_deferred, of Q e2] by (simp_all add: e3_def)
  obtain r e4 where r: "renew_deferred_leases E Q e3 = Some (r, e4)" "engine_ok E e4" "en_next_deferred e4 = en_next_deferred e3"
    "en_pool e4 = en_pool e3" using renew_deferred_leases_ok [OF ok3] by metis
  have turn: "head_turn E Q e = (case r of Inl error \<Rightarrow> (Returned (Inl error), abort_remaining Q e4)
      | Inr _ \<Rightarrow> (Pump (desired_concurrency (en_pool e4)), e4))"
    unfolding head_turn_def Let_def e1_def [symmetric] e2_def [symmetric] e3_def [symmetric] using False r(1)
    by (simp split: sum.split)
  have "desired_concurrency (en_pool e4) \<le> max_concurrency (en_pool e4)"
    using r(2) by (simp add: engine_ok_def bounds_ok_def pool_safe_def pool_ok_def)
  then show ?thesis unfolding turn using r(2-4) nd3 assms(2,3) abort_remaining_ok [OF r(2), of Q]
    by (simp add: dispatch_ok_def split: sum.split)
qed

lemma empty_is_idle:
  assumes "engine_ok E e" "en_in_flight e = []" "en_deferred_entries e = []"
  shows "idle e"
  using assms by (simp add: engine_ok_def slots_ok_def deferred_ok_def idle_def)

lemma pumped_turn_ok:
  "engine_ok E e \<Longrightarrow> unat (en_next_deferred e) \<le> n \<Longrightarrow> max_concurrency (en_pool e) = m \<Longrightarrow> dispatch_ok E m n (pumped_turn Q f1 f2 e)"
  using empty_is_idle by (auto simp: pumped_turn_def dispatch_ok_def)

lemma wake_turn_ok:
  assumes "engine_ok E e" "unat (en_next_deferred e) \<le> n" "wake_enabled E w e" "max_concurrency (en_pool e) = m"
  shows "dispatch_ok E m n (wake_turn X E Q w e)"
proof (cases w)
  case (Completion slot joined)
  then show ?thesis using completion_turn_ok assms by simp
next
  case (PersistWake failed)
  then show ?thesis using assms engine_ok_core [OF core_persist_state, of E E failed e] core_fields(6,7) [OF core_persist_state, of E failed e]
    by (simp add: dispatch_ok_def)
next
  case DrainWake
  have "engine_ok E (e\<lparr>en_draining := True\<rparr>)" using assms(1) engine_ok_core [OF core_simps(6)] by blast
  then show ?thesis using DrainWake assms(2,4) by (simp add: dispatch_ok_def)
qed (use assms in \<open>simp_all add: dispatch_ok_def\<close>)

lemma engine_ok_pool:
  "engine_ok E e \<Longrightarrow> pool_safe p \<Longrightarrow> max_concurrency p = max_concurrency (en_pool e) \<Longrightarrow> engine_ok E (e\<lparr>en_pool := p\<rparr>)"
  by (simp add: engine_ok_def slots_ok_def deferred_ok_def bounds_ok_def deferred_cap_def)

lemma interfere_ok:
  assumes "dispatch_ok E m n (ph, e)"
  shows "dispatch_ok E m n (ph, interfere E Q i e)"
proof -
  have ok: "engine_ok E e" "phase_ok ph e" "unat (en_next_deferred e) \<le> n"
    "max_concurrency (en_pool e) = m" using assms by (simp_all add: dispatch_ok_def)
  have p: "pool_safe (en_pool e)" using ok(1) by (simp add: engine_ok_def bounds_ok_def)
  have same: "dispatch_ok E m n (ph, e')" if "core e' = core e" for e'
    using ok core_fields [OF that] engine_ok_core [OF that] by (cases ph) (simp_all add: dispatch_ok_def idle_def)
  have pool: "dispatch_ok E m n (ph, e\<lparr>en_pool := p'\<rparr>)" if "pool_safe p'" "max_concurrency p' = max_concurrency (en_pool e)" for p'
    using ok engine_ok_pool [OF ok(1) that] that by (cases ph) (simp_all add: dispatch_ok_def idle_def)
  show ?thesis
  proof (cases i)
    case (ScaleTick signals)
    then show ?thesis using pool [OF pool_safe_ops(2) [OF p]] by simp
  next
    case (DelayFloor host f)
    then show ?thesis using pool [OF pool_safe_ops(5) [OF p]] by simp
  qed (auto intro!: same)
qed

lemma engine_step_ok:
  assumes "engine_step X E Q A c c'" "dispatch_ok E m n c" "n < 2 ^ 64 - 1"
  shows "dispatch_ok E m (Suc n) c'"
proof -
  have mono: "dispatch_ok E m n c'' \<Longrightarrow> dispatch_ok E m (Suc n) c''" for c'' by (simp add: dispatch_ok_def)
  have d: "dispatch_ok E m n (ph, e) \<Longrightarrow> engine_ok E e \<and> phase_ok ph e \<and> unat (en_next_deferred e) \<le> n
      \<and> max_concurrency (en_pool e) = m" for ph e
    by (simp add: dispatch_ok_def)
  from assms(1) show ?thesis
  proof cases
    case (head e)
    then show ?thesis using d [of Head e] assms(2) by (auto intro!: mono head_turn_ok)
  next
    case (pump desired e timed_out)
    then show ?thesis using d [of "Pump desired" e] assms(2,3) by (auto intro!: pump_turn_ok)
  next
    case (pumped e f1 f2)
    then show ?thesis using d [of Pumped e] assms(2) by (auto intro!: mono pumped_turn_ok)
  next
    case (wake w e)
    then show ?thesis using d [of Sleep e] assms(2) by (auto intro!: mono wake_turn_ok)
  next
    case (other ph e i)
    then show ?thesis using assms(2) interfere_ok mono by blast
  qed
qed

lemma engine_start_ok:
  assumes "pool_safe p" "\<And>limit. eo_max_requests_per_crawl (env_opts E) = Some limit \<Longrightarrow> st_requests_finished s \<le> limit"
  shows "dispatch_ok E (max_concurrency p) 0 (Head, engine_start q p s)"
  using assms by (auto simp: dispatch_ok_def engine_ok_def slots_ok_def deferred_ok_def bounds_ok_def engine_start_def word_le_nat_alt)

lemma engine_run_ok:
  assumes "dispatch_ok E m 0 c" "n < 2 ^ 64" "(engine_step X E Q A ^^ n) c c'"
  shows "dispatch_ok E m n c'"
  using assms(2,3)
proof (induction n arbitrary: c')
  case (Suc n)
  then obtain c1 where c1: "(engine_step X E Q A ^^ n) c c1" "engine_step X E Q A c1 c'" by auto
  then have "dispatch_ok E m n c1" using Suc by simp
  then show ?case using engine_step_ok [OF c1(2)] Suc.prems(1) by simp
qed (use assms(1) in simp)

section \<open>What the invariant gives\<close>

text \<open>
  C4. The dispatcher keeps its limits in every state it can reach, whatever the queue returns, attempts
  do, the clock shows and other tasks interleave: never more attempts in flight than the pool's maximum
  concurrency, never more deferred leases than the larger of that maximum and 32, and with
  \<open>max_requests_per_crawl\<close> the requests finished successfully, running and deferred together never
  exceed the limit.
\<close>

theorem dispatcher_limits:
  assumes "(engine_step X E Q A ^^ n) (Head, engine_start q p s) (ph, e)" and "n < 2 ^ 64"
    and "pool_safe p" and "\<And>limit. eo_max_requests_per_crawl (env_opts E) = Some limit \<Longrightarrow> st_requests_finished s \<le> limit"
  shows "length (en_in_flight e) \<le> max_concurrency p
    \<and> length (en_deferred_entries e) \<le> max (max_concurrency p) 32
    \<and> (\<forall>limit. eo_max_requests_per_crawl (env_opts E) = Some limit \<longrightarrow>
         unat (st_requests_finished (en_stats e)) + length (en_in_flight e) + length (en_deferred_entries e) \<le> unat limit)"
  using engine_run_ok [OF engine_start_ok [OF assms(3,4)] assms(2,1)]
  by (auto simp: dispatch_ok_def engine_ok_def bounds_ok_def deferred_cap_def MIN_DEFERRED_CAPACITY_def)

definition sample_env :: "(string, string) engine_env" where
  "sample_env = \<lparr>env_opts = engine_options_default\<lparr>eo_max_requests_per_crawl := Some 5\<rparr>, env_failed_handler = True,
     env_kvs = True, env_debug = id, env_clock = (\<lambda>n. 10 * n), env_wall = int\<rparr>"

definition sample_fixed :: autoscaled_pool where
  "sample_fixed = pool_of_options (sample_options\<lparr>ao_fixed_concurrency := Some 2\<rparr>) 0"

definition sample_out :: "crawl_error + unit \<Rightarrow> (string, string) attempt_output" where
  "sample_out r = \<lparr>out_result = r, out_duration = 5, out_request = sample_request ''https://a/1'' ''k1'',
     out_observation = no_observation\<rparr>"

text \<open>A request fails once, is retried and succeeds; the crawl then finds its queue finished.\<close>

definition sample_schedule :: "(string, string) choice list" where
  "sample_schedule = (let go = Go False False in
     [go, go, go, go, Wake (Completion 0 (Inr (sample_out (Inl (Retry (anyhow_msg ''boom'')))))),
      go, go, go, go, Wake (Completion 1 (Inr (sample_out (Inr ())))), go, go, go])"

definition sample_end :: "((string, string) memory_queue, string, string) config" where
  "sample_end = run_schedule sample_externals sample_env (memory_ops sample_externals) sample_schedule
     (Head, engine_start sample_queue sample_fixed stats_new)"

lemma sample_fixed_safe: "pool_safe sample_fixed" "max_concurrency sample_fixed = 2"
proof -
  show m: "max_concurrency sample_fixed = 2"
    by (simp add: sample_fixed_def max_concurrency_def pool_of_options_def Let_def sample_options_def)
  then show "pool_safe sample_fixed" unfolding sample_fixed_def by (intro pool_of_options_safe) (simp add: usize_max_def)
qed

lemma sample_steps:
  "(engine_step sample_externals sample_env (memory_ops sample_externals) (\<lambda>_ _. True) ^^ length sample_schedule)
     (Head, engine_start sample_queue sample_fixed stats_new) (fst sample_end, snd sample_end)"
  unfolding sample_end_def prod.collapse by (rule run_schedule_steps) simp

lemma sample_short: "length sample_schedule < 2 ^ 64"
  by (simp add: sample_schedule_def Let_def)

lemma sample_limit: "eo_max_requests_per_crawl (env_opts sample_env) = Some limit \<Longrightarrow> st_requests_finished stats_new \<le> limit"
  by (simp add: stats_new_def stats_with_window_def)

theorem dispatcher_limits_witness:
  "length (en_in_flight (snd sample_end)) \<le> 2 \<and> unat (st_requests_finished (en_stats (snd sample_end))) \<le> 5"
proof -
  have "eo_max_requests_per_crawl (env_opts sample_env) = Some 5" by (simp add: sample_env_def)
  with dispatcher_limits [OF sample_steps sample_short sample_fixed_safe(1) sample_limit]
  have "length (en_in_flight (snd sample_end)) \<le> max_concurrency sample_fixed"
    "unat (st_requests_finished (en_stats (snd sample_end))) + length (en_in_flight (snd sample_end))
       + length (en_deferred_entries (snd sample_end)) \<le> unat (5 :: u64)" by (auto simp: sample_fixed_safe(2))
  then show ?thesis by (simp add: sample_fixed_safe(2))
qed



end
