(* ===== verification/Engine_Leases.thy ===== *)
theory Engine_Leases
  imports Engine_Invariant
begin

text \<open>
  The accounting of leases in the dispatcher: a queue that logs what the engine fetches and gives back
  shows that every lease is given back exactly once, whatever the queue underneath does. The second
  part composes the dispatcher with the in-memory queue: no request is lost, and a crawl that ends by
  itself has handled every request.
\<close>

section \<open>A queue that logs\<close>

datatype lease_event = Fetched u64 | Settled u64

definition logged :: "('q, 'u, 'j) queue_ops \<Rightarrow> ('q \<times> lease_event list, 'u, 'j) queue_ops" where
  "logged Q = \<lparr>
     q_add = (\<lambda>r opts (q, log). case q_add Q r opts q of (x, q') \<Rightarrow> (x, (q', log))),
     q_fetch_next = (\<lambda>now (q, log). case q_fetch_next Q now q of (x, q') \<Rightarrow>
       (x, (q', log @ (case x of Inr (Some l) \<Rightarrow> [Fetched (lease_id l)] | _ \<Rightarrow> [])))),
     q_mark_handled = (\<lambda>l (q, log). case q_mark_handled Q l q of (x, q') \<Rightarrow> (x, (q', log @ [Settled (lease_id l)]))),
     q_reclaim = (\<lambda>l opts (q, log). case q_reclaim Q l opts q of (x, q') \<Rightarrow> (x, (q', log @ [Settled (lease_id l)]))),
     q_renew = (\<lambda>now i d (q, log). case q_renew Q now i d q of (x, q') \<Rightarrow> (x, (q', log))),
     q_abandon = (\<lambda>l (q, log). case q_abandon Q l q of (x, q') \<Rightarrow> (x, (q', log @ [Settled (lease_id l)]))),
     q_is_empty = q_is_empty Q \<circ> fst, q_is_finished = q_is_finished Q \<circ> fst,
     q_handled_count = q_handled_count Q \<circ> fst, q_pending_count = q_pending_count Q \<circ> fst\<rparr>"

fun fetched :: "lease_event list \<Rightarrow> u64 multiset" where
  "fetched [] = {#}" | "fetched (Fetched i # es) = add_mset i (fetched es)" | "fetched (Settled i # es) = fetched es"

fun settled :: "lease_event list \<Rightarrow> u64 multiset" where
  "settled [] = {#}" | "settled (Fetched i # es) = settled es" | "settled (Settled i # es) = add_mset i (settled es)"

lemma ledger_append [simp]: "fetched (es @ fs) = fetched es + fetched fs" "settled (es @ fs) = settled es + settled fs"
  by (induction es rule: fetched.induct) simp_all

text \<open>What the engine holds, seen through a function of the lease.\<close>

definition holds :: "(('u, 'j) lease \<Rightarrow> 'a) \<Rightarrow> ('q, 'u, 'j) engine \<Rightarrow> 'a multiset" where
  "holds f e = mset (map (f \<circ> ss_lease \<circ> snd) (en_slots e)) + mset (map (f \<circ> df_lease \<circ> snd) (en_deferred_entries e))"

abbreviation held :: "('q, 'u, 'j) engine \<Rightarrow> u64 multiset" where
  "held e \<equiv> holds lease_id e"

abbreviation log_of :: "('q \<times> lease_event list, 'u, 'j) engine \<Rightarrow> lease_event list" where
  "log_of e \<equiv> snd (en_queue e)"

definition accounted :: "('q \<times> lease_event list, 'u, 'j) engine \<Rightarrow> bool" where
  "accounted e \<longleftrightarrow> fetched (log_of e) = settled (log_of e) + held e"

section \<open>What each operation logs\<close>

lemma log_settles [simp]:
  "log_of (snd (queue_call (q_mark_handled (logged Q) l) e)) = log_of e @ [Settled (lease_id l)]"
  "log_of (snd (queue_call (q_reclaim (logged Q) l ro) e)) = log_of e @ [Settled (lease_id l)]"
  "log_of (snd (queue_call (q_abandon (logged Q) l) e)) = log_of e @ [Settled (lease_id l)]"
  "log_of (snd (queue_call (q_renew (logged Q) now i d) e)) = log_of e"
  by (simp_all add: queue_call_def logged_def split_beta)

lemma queue_tick [simp]: "en_queue (snd (tick E e)) = en_queue e"
  by (simp add: tick_def)

lemma queue_forget [simp]: "en_queue (forget key e) = en_queue e"
  by (simp add: forget_def)

lemma queue_emit [simp]: "en_queue (emit ev e) = en_queue e"
  by (simp add: emit_def)

text \<open>The engine after a queue call and what follows it has the queue the call left.\<close>

lemma complete_success_queue:
  "\<exists>r. en_queue (snd (complete_success E Q l key t ob e)) = en_queue (snd (queue_call (q_mark_handled Q (l\<lparr>lease_request := r\<rparr>)) e))
     \<and> req_unique_key r = req_unique_key (lease_request l)"
proof -
  let ?r = "(lease_request l)\<lparr>req_loaded_url := ob_loaded_url ob, req_state := Done, req_handled_at := Some (env_wall E (en_reads (forget key e)))\<rparr>"
  obtain x e2 where qc: "queue_call (q_mark_handled Q (l\<lparr>lease_request := ?r\<rparr>)) (forget key e) = (x, e2)" by fastforce
  have "en_queue (snd (complete_success E Q l key t ob e)) = en_queue e2"
    by (cases x) (simp_all add: complete_success_def Let_def qc tick_def)
  moreover have "en_queue e2 = en_queue (snd (queue_call (q_mark_handled Q (l\<lparr>lease_request := ?r\<rparr>)) e))"
    using qc by (auto simp: queue_call_def split: prod.splits)
  ultimately show ?thesis by (intro exI [of _ ?r]) simp
qed

lemma complete_failure_queue:
  "\<exists>r. en_queue (snd (complete_failure E Q l key t err ob e)) = en_queue (snd (queue_call (q_mark_handled Q (l\<lparr>lease_request := r\<rparr>)) e))
     \<and> req_unique_key r = req_unique_key (lease_request l)"
proof -
  let ?r = "(push_error (lease_request l) (error_text (env_debug E) err))\<lparr>req_state := Error,
      req_handled_at := Some (env_wall E (en_reads (forget key e)))\<rparr>"
  let ?e1 = "if env_failed_handler E
      then (forget key e)\<lparr>en_failures := en_failures (forget key e) @ [(?r, err, req_retry_count ?r)]\<rparr> else forget key e"
  obtain x e2 where qc: "queue_call (q_mark_handled Q (l\<lparr>lease_request := ?r\<rparr>)) ?e1 = (x, e2)" by fastforce
  have "en_queue (snd (complete_failure E Q l key t err ob e)) = en_queue e2"
    unfolding complete_failure_def Let_def qc by (cases x) (simp_all add: tick_def)
  moreover have "en_queue e2 = en_queue (snd (queue_call (q_mark_handled Q (l\<lparr>lease_request := ?r\<rparr>)) e))"
    using qc by (auto simp: queue_call_def split: prod.splits if_splits)
  ultimately show ?thesis by (intro exI [of _ ?r]) (simp add: push_error_def)
qed

lemma settle_queue_eq:
  "settle E Q l r d ob e = (x, e') \<Longrightarrow>
     (\<exists>q. req_unique_key q = req_unique_key (lease_request l)
        \<and> (en_queue e' = en_queue (snd (queue_call (q_mark_handled Q (l\<lparr>lease_request := q\<rparr>)) e))
          \<or> en_queue e' = en_queue (snd (queue_call (q_abandon Q (l\<lparr>lease_request := q\<rparr>)) e))
          \<or> (\<exists>ro. en_queue e' = en_queue (snd (queue_call (q_reclaim Q (l\<lparr>lease_request := q\<rparr>) ro) e)))))"
proof -
  assume s: "settle E Q l r d ob e = (x, e')"
  let ?key = "req_unique_key (lease_request l)"
  have crit: "en_queue (snd (complete_critical E Q l ?key err e)) =
      en_queue (snd (queue_call (q_abandon Q (l\<lparr>lease_request := push_error (lease_request l) (error_text (env_debug E) err)\<rparr>)) e))" for err
    by (simp add: complete_critical_def Let_def queue_call_def split_beta)
  have retry: "\<exists>q ro. req_unique_key q = ?key \<and> en_queue (snd (complete_retry E Q l ?key t err dc e)) =
      en_queue (snd (queue_call (q_reclaim Q (l\<lparr>lease_request := q\<rparr>) ro) e))" for t err dc
  proof -
    let ?r1 = "push_error (lease_request l) (error_text (env_debug E) err)"
    let ?q = "if dc_rotates dc then ?r1\<lparr>req_session_rotation_count := req_session_rotation_count ?r1 + 1\<rparr> else ?r1"
    have "en_queue (snd (complete_retry E Q l ?key t err dc e)) = en_queue (snd (queue_call
        (q_reclaim Q (l\<lparr>lease_request := ?q\<rparr>) \<lparr>rc_forefront = False, rc_increment_retry = \<not> dc_rotates dc\<rparr>) e))"
      by (simp add: complete_retry_def Let_def tick_def queue_call_def split_beta)
    moreover have "req_unique_key ?q = ?key" by (simp add: push_error_def)
    ultimately show ?thesis by blast
  qed
  have key: "req_unique_key (push_error (lease_request l) msg) = ?key" for msg by (simp add: push_error_def)
  have e': "e' = snd (settle E Q l r d ob e)" using s by simp
  show ?thesis
  proof (cases r)
    case (Inr u)
    then have "\<exists>t. e' = snd (complete_success E Q l ?key t ob e)" using e' by (auto simp: settle_def Let_def)
    then show ?thesis using complete_success_queue by metis
  next
    case (Inl err)
    then consider "e' = snd (complete_critical E Q l ?key err e)"
      | t dc where "e' = snd (complete_retry E Q l ?key t err dc e)"
      | t where "e' = snd (complete_failure E Q l ?key t err ob e)"
      using e' by (auto simp: settle_def Let_def split: if_splits)
    then show ?thesis
    proof cases
      case 1
      then show ?thesis using crit key by metis
    next
      case (2 t dc)
      then show ?thesis using retry by metis
    next
      case (3 t)
      then show ?thesis using complete_failure_queue by metis
    qed
  qed
qed

lemma settle_log: "log_of (snd (settle E (logged Q) l r d ob e)) = log_of e @ [Settled (lease_id l)]"
proof -
  obtain x e' where s: "settle E (logged Q) l r d ob e = (x, e')" by fastforce
  have q: "log_of (snd (queue_call (q_mark_handled (logged Q) (l\<lparr>lease_request := q\<rparr>)) e)) = log_of e @ [Settled (lease_id l)]"
    "log_of (snd (queue_call (q_abandon (logged Q) (l\<lparr>lease_request := q\<rparr>)) e)) = log_of e @ [Settled (lease_id l)]"
    "log_of (snd (queue_call (q_reclaim (logged Q) (l\<lparr>lease_request := q\<rparr>) ro) e)) = log_of e @ [Settled (lease_id l)]" for q ro
    by simp_all
  show ?thesis using settle_queue_eq [OF s] q s by (metis snd_conv)
qed

lemma handle_completion_log:
  assumes "map_of (en_slots e) slot = Some s" "handle_completion X E (logged Q) slot joined e = Some (r, e')"
  shows "log_of e' = log_of e @ [Settled (lease_id (ss_lease s))]"
proof -
  let ?e1 = "e\<lparr>en_slots := AList.delete slot (en_slots e)\<rparr>"
  have q: "en_queue (note_attempt E h res ob e2) = en_queue e2" for h res ob e2 by (simp add: note_attempt_frame)
  consider "joined = Inl TaskCancelled" | p where "joined = Inl (TaskPanicked p)" | out where "joined = Inr out"
    by (metis join_error.exhaust sum.exhaust)
  then show ?thesis
  proof cases
    case 1
    then have "e' = snd (queue_call (q_abandon (logged Q) (ss_lease s)) ?e1)" using assms by (auto simp: handle_completion_def Let_def)
    then show ?thesis by simp
  next
    case (2 p)
    let ?res = "Inl (panic_error (TaskPanicked p))" and ?h = "url_host_str X (req_url (lease_request (ss_lease s)))"
    have "e' = snd (settle E (logged Q) (ss_lease s) ?res (fst (tick E ?e1) - ss_started s) no_observation
        (note_attempt E ?h ?res no_observation (snd (tick E ?e1))))"
      using assms 2 by (simp add: handle_completion_def Let_def split_beta)
    then show ?thesis by (simp add: settle_log q)
  next
    case (3 out)
    let ?u = "unpack_output out (ss_lease s)"
    have "e' = snd (settle E (logged Q) (snd (snd (snd ?u))) (fst ?u) (fst (snd ?u)) (fst (snd (snd ?u)))
        (note_attempt E (url_host_str X (req_url (lease_request (ss_lease s)))) (fst ?u) (fst (snd (snd ?u))) ?e1))"
      using assms 3 by (simp add: handle_completion_def Let_def split_beta)
    moreover have "lease_id (snd (snd (snd ?u))) = lease_id (ss_lease s)" by (simp add: unpack_output_def)
    ultimately show ?thesis by (simp add: settle_log q)
  qed
qed

lemma abandon_all_log:
  "log_of (abandon_all (logged Q) ls e) = log_of e @ map (Settled \<circ> lease_id) ls"
  by (induction ls arbitrary: e) (simp_all add: abandon_all_def)

lemma ledger_settled [simp]: "fetched (map (\<lambda>x. Settled (f x)) ls) = {#}" "settled (map (\<lambda>x. Settled (f x)) ls) = mset (map f ls)"
  by (induction ls) simp_all

section \<open>The accounting is kept\<close>

lemma held_fields: "en_slots e = en_slots e' \<Longrightarrow> en_deferred_entries e = en_deferred_entries e' \<Longrightarrow> holds f e = holds f e'"
  by (simp add: holds_def)

lemma held_core: "core e = core e' \<Longrightarrow> holds f e = holds f e'"
  using core_fields(2,4) by (intro held_fields) auto

lemma mset_delete_map:
  "distinct (map fst m) \<Longrightarrow> map_of m k = Some v \<Longrightarrow> mset (map f m) = add_mset (f (k, v)) (mset (map f (AList.delete k m)))"
  using mset_delete [of m k v] by (metis image_mset_add_mset mset_map)

lemma accounted_fields:
  "log_of e = log_of e' \<Longrightarrow> held e = held e' \<Longrightarrow> accounted e = accounted e'"
  by (simp add: accounted_def)

lemma abandon_deferred_accounted:
  assumes "accounted e"
  shows "accounted (abandon_deferred (logged Q) e)"
proof -
  have "held e = held (e\<lparr>en_deferred := [], en_deferred_entries := []\<rparr>) + mset (map (lease_id \<circ> df_lease \<circ> snd) (en_deferred_entries e))"
    by (simp add: holds_def)
  moreover have "log_of (abandon_deferred (logged Q) e)
      = log_of e @ map (Settled \<circ> lease_id) (map (df_lease \<circ> snd) (en_deferred_entries e))"
    by (simp add: abandon_deferred_def abandon_all_log)
  ultimately show ?thesis using assms held_core [where f = lease_id, OF core_abandon_deferred, of "logged Q" e]
    by (simp add: accounted_def comp_def)
qed

lemma abort_remaining_accounted:
  assumes "accounted e"
  shows "accounted (abort_remaining (logged Q) e)"
proof -
  define e1 where "e1 = (emit Aborting e)\<lparr>en_in_flight := []\<rparr>"
  define e2 where "e2 = abandon_all (logged Q) (map (ss_lease \<circ> snd) (en_slots e1)) (e1\<lparr>en_slots := []\<rparr>)"
  have e1: "en_slots e1 = en_slots e" "en_deferred_entries e1 = en_deferred_entries e" "en_queue e1 = en_queue e"
    by (simp_all add: e1_def emit_def)
  have c: "core e2 = core (e1\<lparr>en_slots := []\<rparr>)" by (simp add: e2_def)
  have "held e = held e2 + mset (map (lease_id \<circ> ss_lease \<circ> snd) (en_slots e))"
    using held_core [where f = lease_id, OF c] e1 by (simp add: holds_def)
  moreover have "log_of e2 = log_of e @ map (Settled \<circ> lease_id) (map (ss_lease \<circ> snd) (en_slots e))"
    using e1 by (simp add: e2_def abandon_all_log)
  ultimately have "accounted e2" using assms by (simp add: accounted_def comp_def)
  then show ?thesis using abandon_deferred_accounted by (simp add: abort_remaining_def Let_def e1_def e2_def)
qed

lemma renewed_id [simp]: "lease_id (df_lease (renewed d)) = lease_id (df_lease d)"
  by (simp add: renewed_def)

lemma update_map_same:
  "map_of m k = Some v \<Longrightarrow> f w = f v \<Longrightarrow> map (\<lambda>p. f (snd p)) (AList.update k w m) = map (\<lambda>p. f (snd p)) m"
  by (induction m) auto

lemma renew_due_accounted:
  "renew_due E (logged Q) seqs e = Some (r, e') \<Longrightarrow> log_of e' = log_of e \<and> held e' = held e"
proof (induction seqs arbitrary: e)
  case (Cons k seqs)
  then obtain d where d: "map_of (en_deferred_entries e) k = Some d" by (cases "map_of (en_deferred_entries e) k") auto
  obtain now e1 where t: "tick E e = (now, e1)" by fastforce
  obtain x e2 where q: "queue_call (q_renew (logged Q) now (lease_id (df_lease d)) DEFERRED_LEASE_EXTENSION) e1 = (x, e2)" by fastforce
  have c: "core e2 = core e" using core_tick(2) [OF t] core_queue_call(2) [OF q] by simp
  have l: "log_of e2 = log_of e" using log_settles(4) [of Q now _ _ e1] q t queue_tick [of E e] by (metis snd_conv)
  show ?case
  proof (cases x)
    case (Inl err)
    then have "e' = e2" using Cons.prems d t q by simp
    then show ?thesis using l held_core [where f = lease_id, OF c] by simp
  next
    case (Inr u)
    let ?e3 = "e2\<lparr>en_deferred_entries := AList.update k (renewed d) (en_deferred_entries e2)\<rparr>"
    have "renew_due E (logged Q) seqs ?e3 = Some (r, e')" using Cons.prems d t q Inr by simp
    from Cons.IH [OF this] have "log_of e' = log_of e" "held e' = held ?e3" using l by simp_all
    moreover have "held ?e3 = held e"
      using core_fields(2,4) [OF c] update_map_same [OF d, of "\<lambda>d. lease_id (df_lease d)" "renewed d"]
      by (simp add: holds_def comp_def)
    ultimately show ?thesis by simp
  qed
qed simp

lemma renew_deferred_leases_accounted:
  assumes "renew_deferred_leases E (logged Q) e = Some (r, e')" "accounted e"
  shows "accounted e'"
proof -
  obtain now e1 where t: "tick E e = (now, e1)" by fastforce
  have "renew_due E (logged Q) (map fst (filter (\<lambda>(_, d). df_renew_at d \<le> now) (en_deferred_entries e1))) e1 = Some (r, e')"
    using assms(1) t by (simp add: renew_deferred_leases_def)
  from renew_due_accounted [OF this] have "log_of e' = log_of e" "held e' = held e"
    using held_core [where f = lease_id, OF core_tick(2) [OF t]] t queue_tick [of E e] by (metis snd_conv)+
  then show ?thesis using assms(2) accounted_fields by blast
qed

lemma put_back_held:
  "k \<notin> fst ` set (en_deferred_entries e) \<Longrightarrow> holds f (put_back t k entry e) = add_mset (f (df_lease entry)) (holds f e)"
  by (simp add: put_back_def holds_def update_new map_of_eq_None_iff)

lemma spawn_slot_held:
  "en_next_slot e \<notin> fst ` set (en_slots e) \<Longrightarrow> holds f (spawn_slot E entry e) = add_mset (f (df_lease entry)) (holds f e)"
  by (simp add: spawn_slot_def tick_def holds_def update_new map_of_eq_None_iff Let_def)

lemma take_deferred_held:
  assumes "engine_ok E e" "map_of (en_deferred_entries e) k = Some entry"
  shows "holds f e = add_mset (f (df_lease entry)) (holds f (take_deferred k rest e))"
  using assms mset_delete_map [of "en_deferred_entries e" k entry "f \<circ> df_lease \<circ> snd"]
  by (simp add: holds_def take_deferred_def engine_ok_def deferred_ok_def)

lemma start_entry_held:
  assumes "start_entry X E now k entry e = Some x" "x = Inl e' \<or> x = Inr e'" "room E e" "k \<notin> fst ` set (en_deferred_entries e)"
  shows "en_queue e' = en_queue e \<and> holds f e' = add_mset (f (df_lease entry)) (holds f e)"
proof -
  obtain w entry1 e1 where r: "reserve_domain X now entry e = (w, entry1, e1)" using prod_cases3 by blast
  have e1: "en_queue e1 = en_queue e" "en_slots e1 = en_slots e" "en_deferred_entries e1 = en_deferred_entries e"
    "en_next_slot e1 = en_next_slot e" "df_lease entry1 = df_lease entry"
    using r by (auto simp: reserve_domain_def Let_def split: if_splits option.splits prod.splits)
  have new: "en_next_slot e \<notin> fst ` set (en_slots e)" using assms(3) by (auto simp: room_def engine_ok_def slots_ok_def)
  consider t p where "e' = put_back t k entry1 (e1\<lparr>en_pool := p\<rparr>)" | p where "e' = spawn_slot E entry1 (e1\<lparr>en_pool := p\<rparr>)"
  proof -
    assume a: "\<And>t p. e' = put_back t k entry1 (e1\<lparr>en_pool := p\<rparr>) \<Longrightarrow> thesis" "\<And>p. e' = spawn_slot E entry1 (e1\<lparr>en_pool := p\<rparr>) \<Longrightarrow> thesis"
    show thesis
    proof (cases "w = 0")
      case True
      then show thesis using assms(1,2) r a
        by (auto simp: start_entry_def Let_def split: prod.splits option.splits acquire.splits)
    next
      case False
      then have "e' = put_back (now + w) k entry1 (e1\<lparr>en_pool := en_pool e1\<rparr>)"
        using assms(1,2) r by (auto simp: start_entry_def Let_def)
      then show thesis by (rule a(1))
    qed
  qed
  then show ?thesis
  proof cases
    case (1 t p)
    then show ?thesis using put_back_held [where k = k and e = "e1\<lparr>en_pool := p\<rparr>" and t = t and entry = entry1 and f = f] assms(4) e1
      by (simp add: holds_def) (simp add: put_back_def)
  next
    case (2 p)
    then show ?thesis using spawn_slot_held [where e = "e1\<lparr>en_pool := p\<rparr>" and E = E and entry = entry1 and f = f] new e1
      by (simp add: holds_def) (simp add: spawn_slot_def tick_def Let_def)
  qed
qed

lemma start_ready_held:
  assumes "start_ready X E desired e = Some e'" "engine_ok E e" "desired \<le> max_concurrency (en_pool e)"
  shows "en_queue e' = en_queue e \<and> holds f e' = holds f e"
  using assms
proof (induction X E desired e rule: start_ready.induct)
  case (1 X E desired e)
  consider "desired \<le> length (en_in_flight e) \<or> en_deferred e = []"
    | r k rest where "length (en_in_flight e) < desired" "en_deferred e = (r, k) # rest"
    by (cases "en_deferred e") force+
  then show ?case
  proof cases
    case 1
    then have "start_ready X E desired e = Some e" by (auto simp: start_ready.simps [of X E desired e])
    then have "e' = e" using "1.prems"(1) by simp
    then show ?thesis by simp
  next
    case (2 r k rest)
    obtain now e1 where t: "tick E e = (now, e1)" by fastforce
    have c: "core e1 = core e" by (rule core_tick(2) [OF t])
    have q1: "en_queue e1 = en_queue e" "holds f e1 = holds f e" using t queue_tick [of E e] held_core [where f = f, OF c] by auto
    have ok1: "engine_ok E e1" using "1.prems"(2) engine_ok_core [OF c] by blast
    show ?thesis
    proof (cases "now < r")
      case True
      then have "e' = e1" using "1.prems"(1) 2 t by (simp add: start_ready.simps [of X E desired e])
      then show ?thesis using q1 by simp
    next
      case False
      have d: "en_deferred e1 = (r, k) # rest" using core_fields(3) [OF c] 2(2) by simp
      then obtain entry x where entry: "map_of (en_deferred_entries e1) k = Some entry"
        and x: "start_entry X E now k entry (take_deferred k rest e1) = Some x"
        using "1.prems"(1) 2 t False by (auto simp: start_ready.simps [of X E desired e] split: option.splits)
      note tk = take_deferred_room [OF ok1 d]
      have h: "en_queue e2 = en_queue e \<and> holds f e2 = holds f e" if "x = Inl e2 \<or> x = Inr e2" for e2
        using start_entry_held [OF x that tk(1,2), where f = f] take_deferred_held [OF ok1 entry, where f = f and rest = rest] q1 by (simp add: take_deferred_def)
      show ?thesis
      proof (cases x)
        case (Inl e2)
        then have "e' = e2" using "1.prems"(1) 2 t False entry x by (simp add: start_ready.simps [of X E desired e])
        then show ?thesis using h Inl by blast
      next
        case (Inr e2)
        have run: "start_ready X E desired e2 = Some e'"
          using "1.prems"(1) 2 t False entry x Inr by (simp add: start_ready.simps [of X E desired e])
        have "length (en_in_flight (take_deferred k rest e1)) < max_concurrency (en_pool (take_deferred k rest e1))"
          using 2(1) "1.prems"(3) core_fields [OF c] by (simp add: take_deferred_def)
        then obtain e3 where e3: "x = Inl e3 \<or> x = Inr e3" "engine_ok E e3"
          "max_concurrency (en_pool e3) = max_concurrency (en_pool (take_deferred k rest e1))"
          using start_entry_ok [OF tk, of X now entry] x by (metis option.inject)
        then have ok2: "engine_ok E e2" "desired \<le> max_concurrency (en_pool e2)"
          using Inr "1.prems"(3) core_fields(7) [OF c] by (auto simp: take_deferred_def)
        have "en_queue e' = en_queue e2 \<and> holds f e' = holds f e2"
          by (rule "1.IH") (use 2 t False entry x Inr run ok2 in \<open>simp_all\<close>)
        then show ?thesis using h [of e2] Inr by simp
      qed
    qed
  qed
qed

lemma defer_lease_held:
  assumes "engine_ok E e"
  shows "en_queue (defer_lease E l e) = en_queue e" "holds f (defer_lease E l e) = add_mset (f l) (holds f e)"
proof -
  have "en_next_deferred e \<notin> fst ` set (en_deferred_entries e)" using assms by (auto simp: engine_ok_def deferred_ok_def)
  then have "map_of (en_deferred_entries e) (en_next_deferred e) = None" by (simp add: map_of_eq_None_iff)
  then show "en_queue (defer_lease E l e) = en_queue e" "holds f (defer_lease E l e) = add_mset (f l) (holds f e)"
    by (simp_all add: defer_lease_def tick_def Let_def put_back_def holds_def update_new)
qed

lemma queue_finished_now [simp]: "en_queue (snd (finished_now E e)) = en_queue e"
  by (simp add: finished_now_def tick_def split_beta)

lemma queue_limit_reserved [simp]: "en_queue (snd (limit_reserved E e)) = en_queue e"
  by (simp add: limit_reserved_def split_beta split: option.split)

lemma queue_check_limit [simp]: "en_queue (check_limit E e) = en_queue e"
  by (simp add: check_limit_def split_beta split: option.split)

lemma queue_persist_state [simp]: "en_queue (persist_state E failed e) = en_queue e"
  by (simp add: persist_state_def Let_def split_beta)

lemma same_core_accounted: "core e' = core e \<Longrightarrow> en_queue e' = en_queue e \<Longrightarrow> accounted e \<Longrightarrow> accounted e'"
  using held_core [of e' e lease_id] by (simp add: accounted_def)

lemma pump_turn_accounted:
  assumes "engine_ok E e" "desired \<le> max_concurrency (en_pool e)" "accounted e"
  shows "accounted (snd (pump_turn X E (logged Q) timed_out desired e))"
proof -
  obtain e1 where e1: "start_ready X E desired e = Some e1" "engine_ok E e1" using start_ready_ok [OF assms(1,2), of X] by blast
  have a1: "accounted e1" using start_ready_held [OF e1(1) assms(1,2), where f = lease_id] assms(3) accounted_fields by metis
  obtain rv e2 where lr: "limit_reserved E e1 = (rv, e2)" by fastforce
  have e2: "core e2 = core e1" "en_queue e2 = en_queue e1" using core_limit_reserved [of E e1] queue_limit_reserved [of E e1] lr by simp_all
  have a2: "accounted e2" by (rule same_core_accounted [OF e2 a1])
  obtain now e3 where t: "tick E e2 = (now, e3)" by fastforce
  have e3: "core e3 = core e1" "en_queue e3 = en_queue e2" using core_tick(2) [OF t] e2 t queue_tick [of E e2] by auto
  obtain x q where f: "q_fetch_next (logged Q) now (en_queue e3) = (x, q)"
    by (cases "q_fetch_next (logged Q) now (en_queue e3)")
  let ?e4 = "e3\<lparr>en_queue := q\<rparr>"
  have c4: "core ?e4 = core e1" using e3(1) by simp
  have ok4: "engine_ok E ?e4" using e1(2) engine_ok_core [OF c4] by blast
  have log: "snd q = log_of e2 @ (case x of Inr (Some l) \<Rightarrow> [Fetched (lease_id l)] | _ \<Rightarrow> [])"
    using f e3(2) by (auto simp: logged_def split_beta split: prod.splits)
  have h4: "held ?e4 = held e2" using held_core [where f = lease_id, OF c4] held_core [where f = lease_id, OF e2(1)] by simp
  have none: "accounted ?e4" if "\<And>l. x \<noteq> Inr (Some l)"
    using a2 log h4 that by (auto simp: accounted_def split: sum.splits option.splits)
  have some: "accounted (defer_lease E l ?e4)" if "x = Inr (Some l)" for l
    using a2 log h4 that defer_lease_held [OF ok4, where l = l] defer_lease_held(2) [OF ok4, where l = l and f = lease_id] by (simp add: accounted_def)
  show ?thesis
  proof (cases "en_draining e2 \<or> rv \<or> desired \<le> length (en_in_flight e2) \<or> deferred_cap e2 \<le> length (en_deferred_entries e2) \<or> timed_out")
    case True
    then show ?thesis using a2 by (simp add: pump_turn_def e1(1) lr)
  next
    case False
    then have "pump_turn X E (logged Q) timed_out desired e =
        (case x of Inr (Some l) \<Rightarrow> (Pump desired, defer_lease E l ?e4) | _ \<Rightarrow> (Pumped, ?e4))"
      by (simp add: pump_turn_def e1(1) lr t f Let_def)
    then show ?thesis using none some by (simp split: sum.split option.split)
  qed
qed

lemma head_turn_accounted:
  assumes "engine_ok E e" "accounted e"
  shows "accounted (snd (head_turn E (logged Q) e))"
proof (cases "en_cancel e")
  case True
  then show ?thesis using abort_remaining_accounted assms(2) by (simp add: head_turn_def)
next
  case False
  define e1 where "e1 = (if \<not> en_draining e \<and> en_drain e then e\<lparr>en_draining := True\<rparr> else e)"
  define e2 where "e2 = check_limit E e1"
  define e3 where "e3 = (if en_draining e2 \<and> en_deferred_entries e2 \<noteq> [] then abandon_deferred (logged Q) e2 else e2)"
  have "core e2 = core e" "en_queue e2 = en_queue e" by (simp_all add: e2_def e1_def)
  then have a2: "accounted e2" using assms(2) by (rule same_core_accounted)
  have a3: "accounted e3" using a2 abandon_deferred_accounted [OF a2, of Q] by (simp add: e3_def)
  show ?thesis
  proof (cases "renew_deferred_leases E (logged Q) e3")
    case None
    then show ?thesis using False a3
      unfolding head_turn_def Let_def e1_def [symmetric] e2_def [symmetric] e3_def [symmetric] by simp
  next
    case (Some p)
    then obtain r e4 where r: "renew_deferred_leases E (logged Q) e3 = Some (r, e4)" by (cases p) simp
    have "accounted e4" using renew_deferred_leases_accounted [OF r a3] .
    then show ?thesis using False r abort_remaining_accounted
      unfolding head_turn_def Let_def e1_def [symmetric] e2_def [symmetric] e3_def [symmetric] by (cases r) simp_all
  qed
qed

lemma completion_turn_accounted:
  assumes "engine_ok E e" "accounted e" "slot \<in> fst ` set (en_in_flight e)"
  shows "accounted (snd (completion_turn X E (logged Q) slot joined e))"
proof -
  let ?e1 = "e\<lparr>en_in_flight := AList.delete slot (en_in_flight e)\<rparr>"
  have so: "slots_ok e" using assms(1) by (simp add: engine_ok_def)
  obtain s where s: "map_of (en_slots e) slot = Some s" using slot_has_lease [OF so assms(3)] by metis
  obtain r e2 p k where h: "handle_completion X E (logged Q) slot joined ?e1 = Some (r, e2)"
    "core e2 = core ((without_slot slot e)\<lparr>en_pool := p, en_stats := (en_stats e)\<lparr>st_requests_finished := k\<rparr>\<rparr>)"
    by (rule handle_completion_frame [OF s, where X = X and E = E and Q = "logged Q" and joined = joined]) blast
  have "log_of e2 = log_of e @ [Settled (lease_id (ss_lease s))]" using handle_completion_log [OF _ h(1)] s by simp
  moreover have "held e = add_mset (lease_id (ss_lease s)) (held e2)"
    using held_core [where f = lease_id, OF h(2)] mset_delete_map [of "en_slots e" slot s "lease_id \<circ> ss_lease \<circ> snd"] so s
    by (simp add: holds_def without_slot_def slots_ok_def)
  ultimately have a: "accounted e2" using assms(2) by (simp add: accounted_def)
  then show ?thesis using h(1) abort_remaining_accounted by (cases r) (simp_all add: completion_turn_def)
qed

lemma engine_step_accounted:
  assumes "engine_step X E (logged Q) A c c'" "dispatch_ok E m n c" "accounted (snd c)"
  shows "accounted (snd c')"
proof -
  have ok: "engine_ok E (snd c)" "phase_ok (fst c) (snd c)" using assms(2) by (simp_all add: dispatch_ok_def)
  from assms(1) show ?thesis
  proof cases
    case (head e)
    then show ?thesis using ok assms(3) head_turn_accounted by auto
  next
    case (pump desired e timed_out)
    then show ?thesis using ok assms(3) pump_turn_accounted by auto
  next
    case (pumped e f1 f2)
    then show ?thesis using assms(3) by (simp add: pumped_turn_def)
  next
    case (wake w e)
    then show ?thesis
    proof (cases w)
      case (Completion slot joined)
      then have "slot \<in> fst ` set (en_in_flight e)" using wake(3) by simp
      then show ?thesis using Completion wake ok assms(3) completion_turn_accounted [of E e slot X Q joined] by simp
    next
      case (PersistWake failed)
      then show ?thesis using wake assms(3) same_core_accounted [OF core_persist_state queue_persist_state, of e] by simp
    qed (use wake assms(3) in \<open>simp_all add: accounted_def holds_def\<close>)
  next
    case (other ph e i)
    then show ?thesis
    proof (cases i)
      case ReadStats
      then show ?thesis using other assms(3) same_core_accounted [OF core_finished_now(1) queue_finished_now, of e] by simp
    next
      case (AddRequest r opts)
      then show ?thesis using other assms(3) by (simp add: accounted_def holds_def logged_def split_beta)
    qed (use other assms(3) in \<open>simp_all add: accounted_def holds_def\<close>)
  qed
qed

lemma engine_run_accounted:
  assumes "dispatch_ok E m 0 c" "accounted (snd c)" "n < 2 ^ 64" "(engine_step X E (logged Q) A ^^ n) c c'"
  shows "accounted (snd c')"
  using assms(3,4)
proof (induction n arbitrary: c')
  case (Suc n)
  then obtain c1 where c1: "(engine_step X E (logged Q) A ^^ n) c c1" "engine_step X E (logged Q) A c1 c'" by auto
  then have "accounted (snd c1)" using Suc by simp
  moreover have "dispatch_ok E m n c1" using engine_run_ok [OF assms(1) _ c1(1)] Suc.prems(1) by simp
  ultimately show ?case using engine_step_accounted [OF c1(2)] by blast
qed (use assms(2) in simp)

text \<open>
  C1. Every lease is given back exactly once. In any run of the dispatcher over any queue, the leases it
  fetched are, as a multiset, those it marked handled, reclaimed or abandoned together with those it
  still holds in a slot or deferred; so when the loop returns, after a finished crawl, a stop, an abort,
  a critical error or a failure of the queue, each fetched lease was settled exactly once.
\<close>

theorem leases_settled_once:
  assumes "(engine_step X E (logged Q) A ^^ n) (Head, engine_start (q, []) p s) (ph, e)" and "n < 2 ^ 64"
    and "pool_safe p" and "\<And>limit. eo_max_requests_per_crawl (env_opts E) = Some limit \<Longrightarrow> st_requests_finished s \<le> limit"
  shows "fetched (log_of e) = settled (log_of e) + held e \<and> (\<forall>r. ph = Returned r \<longrightarrow> fetched (log_of e) = settled (log_of e))"
proof -
  have start: "dispatch_ok E (max_concurrency p) 0 (Head, engine_start (q, []) p s)" by (rule engine_start_ok [OF assms(3,4)])
  have "accounted (engine_start (q, []) p s)" by (simp add: accounted_def engine_start_def holds_def)
  then have a: "accounted e" using engine_run_accounted [OF start _ assms(2,1)] by simp
  have "dispatch_ok E (max_concurrency p) n (ph, e)" by (rule engine_run_ok [OF start assms(2,1)])
  then have "held e = {#}" if "ph = Returned r" for r using that by (simp add: dispatch_ok_def idle_def holds_def)
  then show ?thesis using a by (simp add: accounted_def)
qed

theorem leases_settled_once_witness:
  "let c = run_schedule sample_externals sample_env (logged (memory_ops sample_externals)) sample_schedule
        (Head, engine_start (sample_queue, []) sample_fixed stats_new) in
   fetched (log_of (snd c)) = settled (log_of (snd c)) + held (snd c)"
proof -
  let ?Q = "logged (memory_ops sample_externals)" and ?start = "(Head, engine_start (sample_queue, []) sample_fixed stats_new)"
  let ?c = "run_schedule sample_externals sample_env ?Q sample_schedule ?start"
  have "(engine_step sample_externals sample_env ?Q (\<lambda>_ _. True) ^^ length sample_schedule) ?start (fst ?c, snd ?c)"
    unfolding prod.collapse by (rule run_schedule_steps) simp
  from leases_settled_once [OF this sample_short sample_fixed_safe(1) sample_limit] show ?thesis by (simp add: Let_def)
qed

end
