(* ===== verification/Engine_Memory.thy ===== *)
theory Engine_Memory
  imports Engine_Leases
begin

text \<open>
  The dispatcher composed with the in-memory queue. The invariant says that the leases the engine holds
  are exactly the leases the queue has given out, by identifier and key; from it follow that no call on
  a held lease fails, that no request is lost or left leased, and that a crawl that ends by itself has
  handled every request.
\<close>

section \<open>Leases of the queue\<close>

definition ticket :: "('u, 'j) lease \<Rightarrow> u64 \<times> string" where
  "ticket l = (lease_id l, req_unique_key (lease_request l))"

definition leases_of :: "('u, 'j) memory_queue \<Rightarrow> (u64 \<times> string) multiset" where
  "leases_of q = image_mset (\<lambda>p. (fst p, leased_key p)) (mset (mq_in_flight q))"

lemma leases_of_owned:
  assumes "mem_inv X q" "ticket l \<in># leases_of q"
  shows "mem_owned X l q"
proof -
  obtain lr where lr: "(lease_id l, lr) \<in> set (mq_in_flight q)" "req_unique_key (lr_request lr) = req_unique_key (lease_request l)"
    using assms(2) by (auto simp: leases_of_def ticket_def)
  then have "map_of (mq_in_flight q) (lease_id l) = Some lr" using assms(1) by (simp add: mem_inv_def)
  then show ?thesis using lr(2) assms(1) by (simp add: mem_owned_def)
qed

lemma consume_leases:
  fixes q :: "('u, 'j) memory_queue" and l :: "('u, 'j) lease"
  assumes "mem_inv X q" "ticket l \<in># leases_of q" "mq_in_flight q' = AList.delete (lease_id l) (mq_in_flight q)"
  shows "leases_of q = add_mset (ticket l) (leases_of q')"
proof -
  obtain lr where lr: "map_of (mq_in_flight q) (lease_id l) = Some lr"
    "req_unique_key (lr_request lr) = req_unique_key (lease_request l)"
    using mem_owned_lookup [OF leases_of_owned [OF assms(1,2)]] by blast
  have "distinct (map fst (mq_in_flight q))" using assms(1) by (simp add: mem_inv_def)
  from mset_delete [OF this lr(1)] show ?thesis using lr(2) assms(3) by (simp add: leases_of_def ticket_def)
qed

text \<open>A call with a held lease succeeds, consumes exactly that lease and is a step of the queue.\<close>

definition consumes :: "('u, 'j) externals \<Rightarrow> ('u, 'j) lease \<Rightarrow> (('u, 'j) memory_queue \<Rightarrow> (storage_error + unit) \<times> ('u, 'j) memory_queue) \<Rightarrow> bool" where
  "consumes X l f \<longleftrightarrow> (\<forall>q. mem_inv X q \<longrightarrow> ticket l \<in># leases_of q \<longrightarrow>
     (\<exists>q'. f q = (Inr (), q') \<and> mem_step X q q' \<and> leases_of q = add_mset (ticket l) (leases_of q')
        \<and> mq_next_lease_id q' = mq_next_lease_id q))"

lemma consumesI:
  assumes "\<And>q. mem_owned X l q \<Longrightarrow> \<exists>q'. f q = (Inr (), q') \<and> mem_step X q q'
      \<and> mq_in_flight q' = AList.delete (lease_id l) (mq_in_flight q) \<and> mq_next_lease_id q' = mq_next_lease_id q"
  shows "consumes X l f"
  unfolding consumes_def using assms leases_of_owned consume_leases by metis

lemma memory_consumes:
  "consumes X l (q_mark_handled (memory_ops X) l)"
  "consumes X l (q_reclaim (memory_ops X) l ro)"
  "consumes X l (q_abandon (memory_ops X) l)"
proof -
  have h: "mem_owned X l q \<Longrightarrow> \<exists>lr. map_of (mq_in_flight q) (lease_id l) = Some lr" for q
    using mem_owned_lookup by blast
  show "consumes X l (q_mark_handled (memory_ops X) l)"
  proof (rule consumesI)
    fix q assume o: "mem_owned X l q"
    then obtain lr where "map_of (mq_in_flight q) (lease_id l) = Some lr" using h by blast
    then show "\<exists>q'. q_mark_handled (memory_ops X) l q = (Inr (), q') \<and> mem_step X q q'
        \<and> mq_in_flight q' = AList.delete (lease_id l) (mq_in_flight q) \<and> mq_next_lease_id q' = mq_next_lease_id q"
      using mem_step.handled [OF o prod.collapse [symmetric]]
      by (intro exI [of _ "snd (mem_mark_handled l q)"]) (auto simp: memory_ops_def mem_mark_handled_def remove_lease_def)
  qed
  show "consumes X l (q_reclaim (memory_ops X) l ro)"
  proof (rule consumesI)
    fix q assume o: "mem_owned X l q"
    then obtain lr where "map_of (mq_in_flight q) (lease_id l) = Some lr" using h by blast
    then show "\<exists>q'. q_reclaim (memory_ops X) l ro q = (Inr (), q') \<and> mem_step X q q'
        \<and> mq_in_flight q' = AList.delete (lease_id l) (mq_in_flight q) \<and> mq_next_lease_id q' = mq_next_lease_id q"
      using mem_step.reclaim [OF o prod.collapse [symmetric], of ro]
      by (intro exI [of _ "snd (mem_reclaim X l ro q)"]) (auto simp: memory_ops_def mem_reclaim_def remove_lease_def Let_def)
  qed
  show "consumes X l (q_abandon (memory_ops X) l)"
  proof (rule consumesI)
    fix q assume o: "mem_owned X l q"
    then obtain lr where "map_of (mq_in_flight q) (lease_id l) = Some lr" using h by blast
    then show "\<exists>q'. q_abandon (memory_ops X) l q = (Inr (), q') \<and> mem_step X q q'
        \<and> mq_in_flight q' = AList.delete (lease_id l) (mq_in_flight q) \<and> mq_next_lease_id q' = mq_next_lease_id q"
      using mem_step.abandon [OF o prod.collapse [symmetric]]
      by (intro exI [of _ "snd (mem_abandon X l q)"]) (auto simp: memory_ops_def mem_abandon_def remove_lease_def)
  qed
qed

lemma fetch_leases:
  assumes "mem_inv X q" "mem_live q" "mem_fetch_next now q = (r, q')"
  shows "mem_step X q q'" "r = Inr (Some l) \<Longrightarrow> leases_of q' = add_mset (ticket l) (leases_of q)"
    "(\<And>l. r \<noteq> Inr (Some l)) \<Longrightarrow> leases_of q' = leases_of q"
    "unat (mq_next_lease_id q') \<le> Suc (unat (mq_next_lease_id q))"
proof -
  show "mem_step X q q'" using mem_step.fetch [OF assms(2,3)] .
  have "mq_next_lease_id q \<notin> fst ` set (mq_in_flight q)" using assms(1) by (auto simp: mem_inv_def)
  then have "map_of (mq_in_flight q) (mq_next_lease_id q) = None" by (simp add: map_of_eq_None_iff)
  note new = update_new [OF this]
  show "r = Inr (Some l) \<Longrightarrow> leases_of q' = add_mset (ticket l) (leases_of q)"
    using assms(3) new by (auto simp: mem_fetch_next_def Let_def leases_of_def ticket_def split: option.splits)
  show "(\<And>l. r \<noteq> Inr (Some l)) \<Longrightarrow> leases_of q' = leases_of q"
    using assms(3) by (force simp: mem_fetch_next_def Let_def leases_of_def split: option.splits)
  have "unat (mq_next_lease_id q + 1) = Suc (unat (mq_next_lease_id q))"
    using assms(2) by (intro unat_inc unat_not_max) (simp add: mem_live_def)
  then show "unat (mq_next_lease_id q') \<le> Suc (unat (mq_next_lease_id q))"
    using assms(3) by (auto simp: mem_fetch_next_def Let_def split: option.splits)
qed

lemma renew_leases:
  assumes "mem_renew i d q = (r, q')"
  shows "mem_step X q q'" "leases_of q' = leases_of q" "mq_next_lease_id q' = mq_next_lease_id q"
proof -
  show "mem_step X q q'" using mem_step.renew [OF assms] .
  have *: "map (\<lambda>p. (fst p, leased_key p)) (AList.update i (lr\<lparr>lr_expires_at := t\<rparr>) m) = map (\<lambda>p. (fst p, leased_key p)) m"
    if "map_of m i = Some lr" for lr t m using that by (induction m) auto
  show "leases_of q' = leases_of q"
  proof (cases "map_of (mq_in_flight q) i")
    case (Some lr)
    then have "q' = q\<lparr>mq_in_flight := AList.update i (lr\<lparr>lr_expires_at := lr_expires_at lr + d\<rparr>) (mq_in_flight q)\<rparr>"
      using assms by (simp add: mem_renew_def)
    then show ?thesis using * [OF Some] by (simp add: leases_of_def flip: mset_map)
  qed (use assms in \<open>auto simp: mem_renew_def\<close>)
  show "mq_next_lease_id q' = mq_next_lease_id q" using assms by (auto simp: mem_renew_def split: option.splits)
qed

section \<open>The engine and the queue agree\<close>

definition synced :: "('u, 'j) externals \<Rightarrow> nat \<Rightarrow> (('u, 'j) memory_queue, 'u, 'j) engine \<Rightarrow> bool" where
  "synced X k e \<longleftrightarrow> mem_inv X (en_queue e) \<and> leases_of (en_queue e) = holds ticket e \<and> unat (mq_next_lease_id (en_queue e)) \<le> k"

text \<open>\<open>q'\<close> is reached from \<open>q\<close> by operations that consume exactly the leases \<open>P\<close>.\<close>

definition consumed :: "('u, 'j) externals \<Rightarrow> (u64 \<times> string) multiset \<Rightarrow> ('u, 'j) memory_queue \<Rightarrow> ('u, 'j) memory_queue \<Rightarrow> bool" where
  "consumed X P q q' \<longleftrightarrow> (mem_step X)\<^sup>*\<^sup>* q q' \<and> leases_of q = P + leases_of q' \<and> mq_next_lease_id q' = mq_next_lease_id q"

lemma mem_run_inv: "(mem_step X)\<^sup>*\<^sup>* q q' \<Longrightarrow> mem_inv X q \<Longrightarrow> mem_inv X q'"
  using mem_run_client by blast

lemma consumed_refl [simp]: "consumed X {#} q q"
  by (simp add: consumed_def)

lemma consumed_trans: "consumed X P q q1 \<Longrightarrow> consumed X P' q1 q2 \<Longrightarrow> consumed X (P + P') q q2"
  by (auto simp: consumed_def)

lemma consumed_call:
  assumes "consumes X l f" "mem_inv X (en_queue e)" "ticket l \<in># leases_of (en_queue e)"
  shows "consumed X {#ticket l#} (en_queue e) (en_queue (snd (queue_call f e)))" "fst (queue_call f e) = Inr ()"
  using assms unfolding consumes_def consumed_def queue_call_def by (force split: prod.splits)+

lemma synced_consumed:
  assumes "synced X k e" "consumed X P (en_queue e) (en_queue e')" "holds ticket e = P + holds ticket e'"
  shows "synced X k e'" "(mem_step X)\<^sup>*\<^sup>* (en_queue e) (en_queue e')"
  using assms mem_run_inv [of X "en_queue e" "en_queue e'"] by (auto simp: synced_def consumed_def)

lemma abandon_all_consumed:
  "mem_inv X (en_queue e) \<Longrightarrow> mset (map ticket ls) \<subseteq># leases_of (en_queue e) \<Longrightarrow>
     consumed X (mset (map ticket ls)) (en_queue e) (en_queue (abandon_all (memory_ops X) ls e))"
proof (induction ls arbitrary: e)
  case (Cons l ls)
  let ?e1 = "snd (queue_call (q_abandon (memory_ops X) l) e)"
  have "ticket l \<in># leases_of (en_queue e)" using Cons.prems(2) by (auto dest: mset_subset_eqD)
  note c = consumed_call(1) [OF memory_consumes(3) Cons.prems(1) this]
  have inv: "mem_inv X (en_queue ?e1)" using c Cons.prems(1) mem_run_inv by (auto simp: consumed_def)
  have "mset (map ticket ls) \<subseteq># leases_of (en_queue ?e1)" using c Cons.prems(2) by (simp add: consumed_def)
  from consumed_trans [OF c Cons.IH [OF inv this]] show ?case by (simp add: abandon_all_def)
qed (simp add: abandon_all_def)

lemma settle_consumed:
  assumes "mem_inv X (en_queue e)" "ticket l \<in># leases_of (en_queue e)"
  shows "consumed X {#ticket l#} (en_queue e) (en_queue (snd (settle E (memory_ops X) l r d ob e)))"
proof -
  obtain x e' where s: "settle E (memory_ops X) l r d ob e = (x, e')" by fastforce
  obtain rq where rq: "req_unique_key rq = req_unique_key (lease_request l)"
    "en_queue e' = en_queue (snd (queue_call (q_mark_handled (memory_ops X) (l\<lparr>lease_request := rq\<rparr>)) e))
      \<or> en_queue e' = en_queue (snd (queue_call (q_abandon (memory_ops X) (l\<lparr>lease_request := rq\<rparr>)) e))
      \<or> (\<exists>ro. en_queue e' = en_queue (snd (queue_call (q_reclaim (memory_ops X) (l\<lparr>lease_request := rq\<rparr>) ro) e)))"
    using settle_queue_eq [OF s] by blast
  have t: "ticket (l\<lparr>lease_request := rq\<rparr>) = ticket l" using rq(1) by (simp add: ticket_def)
  have "consumed X {#ticket l#} (en_queue e) (en_queue (snd (queue_call f e)))"
    if "consumes X (l\<lparr>lease_request := rq\<rparr>) f" for f using consumed_call(1) [OF that assms(1)] assms(2) t by simp
  then show ?thesis using rq(2) memory_consumes s by (metis snd_conv)
qed

text \<open>What an attempt may return: the request it worked on, under the key it was leased with.\<close>

definition keeps_key :: "('u, 'j) wake \<Rightarrow> ('q, 'u, 'j) engine \<Rightarrow> bool" where
  "keeps_key w e = (case w of
     Completion slot (Inr out) \<Rightarrow> (case map_of (en_slots e) slot of
         Some s \<Rightarrow> req_unique_key (out_request out) = req_unique_key (lease_request (ss_lease s)) | None \<Rightarrow> True)
   | _ \<Rightarrow> True)"

lemma handle_completion_consumed:
  assumes "map_of (en_slots e) slot = Some s" "handle_completion X E (memory_ops X) slot joined e = Some (r, e')"
    "\<And>out. joined = Inr out \<Longrightarrow> req_unique_key (out_request out) = req_unique_key (lease_request (ss_lease s))"
    "mem_inv X (en_queue e)" "ticket (ss_lease s) \<in># leases_of (en_queue e)"
  shows "consumed X {#ticket (ss_lease s)#} (en_queue e) (en_queue e')"
proof -
  let ?Q = "memory_ops X" and ?e1 = "e\<lparr>en_slots := AList.delete slot (en_slots e)\<rparr>"
  have q: "en_queue (note_attempt E h res ob e2) = en_queue e2" for h res ob e2 by (simp add: note_attempt_frame)
  consider "joined = Inl TaskCancelled" | p where "joined = Inl (TaskPanicked p)" | out where "joined = Inr out"
    by (metis join_error.exhaust sum.exhaust)
  then show ?thesis
  proof cases
    case 1
    then have "e' = snd (queue_call (q_abandon ?Q (ss_lease s)) ?e1)" using assms(1,2) by (auto simp: handle_completion_def Let_def)
    then show ?thesis using consumed_call(1) [OF memory_consumes(3), of X ?e1 "ss_lease s"] assms(4,5) by simp
  next
    case (2 p)
    let ?res = "Inl (panic_error (TaskPanicked p))" and ?h = "url_host_str X (req_url (lease_request (ss_lease s)))"
    let ?e2 = "note_attempt E ?h ?res no_observation (snd (tick E ?e1))"
    have "e' = snd (settle E ?Q (ss_lease s) ?res (fst (tick E ?e1) - ss_started s) no_observation ?e2)"
      using assms(1,2) 2 by (simp add: handle_completion_def Let_def split_beta)
    then show ?thesis using settle_consumed [of X ?e2 "ss_lease s"] assms(4,5) by (simp add: q)
  next
    case (3 out)
    let ?u = "unpack_output out (ss_lease s)"
    let ?e2 = "note_attempt E (url_host_str X (req_url (lease_request (ss_lease s)))) (fst ?u) (fst (snd (snd ?u))) ?e1"
    have "e' = snd (settle E ?Q (snd (snd (snd ?u))) (fst ?u) (fst (snd ?u)) (fst (snd (snd ?u))) ?e2)"
      using assms(1,2) 3 by (simp add: handle_completion_def Let_def split_beta)
    moreover have "ticket (snd (snd (snd ?u))) = ticket (ss_lease s)"
      using assms(3) [OF 3] by (simp add: unpack_output_def ticket_def)
    ultimately show ?thesis using settle_consumed [of X ?e2 "snd (snd (snd ?u))"] assms(4,5) by (simp add: q)
  qed
qed

section \<open>The turns keep the agreement\<close>

definition moved :: "('u, 'j) externals \<Rightarrow> nat \<Rightarrow> (('u, 'j) memory_queue, 'u, 'j) engine \<Rightarrow> (('u, 'j) memory_queue, 'u, 'j) engine \<Rightarrow> bool" where
  "moved X k e e' \<longleftrightarrow> synced X k e' \<and> (mem_step X)\<^sup>*\<^sup>* (en_queue e) (en_queue e')"

lemma moved_trans: "moved X k e e1 \<Longrightarrow> (synced X k e1 \<Longrightarrow> moved X k' e1 e2) \<Longrightarrow> moved X k' e e2"
  by (auto simp: moved_def)

lemma moved_same: "synced X k e \<Longrightarrow> en_queue e' = en_queue e \<Longrightarrow> holds ticket e' = holds ticket e \<Longrightarrow> moved X k e e'"
  by (simp add: moved_def synced_def)

lemma moved_core: "synced X k e \<Longrightarrow> core e' = core e \<Longrightarrow> en_queue e' = en_queue e \<Longrightarrow> moved X k e e'"
  by (rule moved_same) (auto dest: held_core)

lemma moved_consumed:
  "synced X k e \<Longrightarrow> consumed X P (en_queue e) (en_queue e') \<Longrightarrow> holds ticket e = P + holds ticket e' \<Longrightarrow> moved X k e e'"
  using synced_consumed unfolding moved_def by blast

lemma abandon_deferred_moved:
  assumes "synced X k e"
  shows "moved X k e (abandon_deferred (memory_ops X) e)"
proof (rule moved_consumed [OF assms])
  let ?ls = "map (df_lease \<circ> snd) (en_deferred_entries e)" and ?e1 = "e\<lparr>en_deferred := [], en_deferred_entries := []\<rparr>"
  have "mset (map ticket ?ls) \<subseteq># leases_of (en_queue e)" using assms by (simp add: synced_def holds_def comp_def multiset.map_comp)
  then show "consumed X (mset (map ticket ?ls)) (en_queue e) (en_queue (abandon_deferred (memory_ops X) e))"
    using abandon_all_consumed [of X ?e1 ?ls] assms by (simp add: abandon_deferred_def synced_def)
  show "holds ticket e = mset (map ticket ?ls) + holds ticket (abandon_deferred (memory_ops X) e)"
    using held_core [OF core_abandon_deferred, of ticket "memory_ops X" e] by (simp add: holds_def comp_def multiset.map_comp)
qed

lemma abort_remaining_moved:
  assumes "synced X k e"
  shows "moved X k e (abort_remaining (memory_ops X) e)"
proof -
  define e1 where "e1 = (emit Aborting e)\<lparr>en_in_flight := []\<rparr>"
  let ?ls = "map (ss_lease \<circ> snd) (en_slots e1)"
  define e2 where "e2 = abandon_all (memory_ops X) ?ls (e1\<lparr>en_slots := []\<rparr>)"
  have e1: "en_slots e1 = en_slots e" "en_deferred_entries e1 = en_deferred_entries e" "en_queue e1 = en_queue e"
    by (simp_all add: e1_def emit_def)
  have sub: "mset (map ticket ?ls) \<subseteq># leases_of (en_queue e)"
    using assms e1 by (simp add: synced_def holds_def comp_def multiset.map_comp)
  have c: "consumed X (mset (map ticket ?ls)) (en_queue e) (en_queue e2)"
    using abandon_all_consumed [of X "e1\<lparr>en_slots := []\<rparr>" ?ls] sub e1 assms by (simp add: e2_def synced_def)
  have "core e2 = core (e1\<lparr>en_slots := []\<rparr>)" by (simp add: e2_def)
  from held_core [OF this, of ticket] have h: "holds ticket e = mset (map ticket ?ls) + holds ticket e2"
    using e1 by (simp add: holds_def comp_def multiset.map_comp)
  have "abort_remaining (memory_ops X) e = abandon_deferred (memory_ops X) e2" by (simp add: abort_remaining_def Let_def e1_def e2_def)
  then show ?thesis using moved_trans [OF moved_consumed [OF assms c h] abandon_deferred_moved] by simp
qed

lemma renew_due_moved:
  "renew_due E (memory_ops X) seqs e = Some (r, e') \<Longrightarrow> synced X k e \<Longrightarrow> moved X k e e'"
proof (induction seqs arbitrary: e)
  case (Cons i seqs)
  obtain d where d: "map_of (en_deferred_entries e) i = Some d" using Cons.prems(1) by (cases "map_of (en_deferred_entries e) i") auto
  obtain now e1 where t: "tick E e = (now, e1)" by fastforce
  obtain x e2 where q: "queue_call (q_renew (memory_ops X) now (lease_id (df_lease d)) DEFERRED_LEASE_EXTENSION) e1 = (x, e2)" by fastforce
  have c: "core e2 = core e" using core_tick(2) [OF t] core_queue_call(2) [OF q] by simp
  have "en_queue e1 = en_queue e" using t queue_tick [of E e] by simp
  then obtain y where "mem_renew (lease_id (df_lease d)) DEFERRED_LEASE_EXTENSION (en_queue e) = (y, en_queue e2)"
    using q by (auto simp: queue_call_def memory_ops_def split: prod.splits)
  note rl = renew_leases [OF this]
  have m2: "moved X k e e2" using rl(1) [of X] rl(2,3) Cons.prems(2) held_core [OF c, of ticket] mem_step_inv [OF rl(1)]
    by (auto simp: moved_def synced_def)
  show ?case
  proof (cases x)
    case (Inl err)
    then have "e' = e2" using Cons.prems(1) d t q by simp
    then show ?thesis using m2 by simp
  next
    case (Inr u)
    let ?e3 = "e2\<lparr>en_deferred_entries := AList.update i (renewed d) (en_deferred_entries e2)\<rparr>"
    have run: "renew_due E (memory_ops X) seqs ?e3 = Some (r, e')" using Cons.prems(1) d t q Inr by simp
    have d2: "map_of (en_deferred_entries e2) i = Some d" using d core_fields(4) [OF c] by simp
    have "ticket (df_lease (renewed d)) = ticket (df_lease d)" by (simp add: renewed_def ticket_def)
    then have "holds ticket ?e3 = holds ticket e2"
      using update_map_same [OF d2, of "\<lambda>d. ticket (df_lease d)" "renewed d"] by (simp add: holds_def comp_def flip: mset_map)
    then have "moved X k e2 ?e3" if "synced X k e2" using that by (intro moved_same) simp_all
    then show ?thesis using moved_trans [OF moved_trans [OF m2] Cons.IH [OF run]] by blast
  qed
qed (simp add: moved_def)

lemma renew_deferred_leases_moved:
  assumes "renew_deferred_leases E (memory_ops X) e = Some (r, e')" "synced X k e"
  shows "moved X k e e'"
proof -
  obtain now e1 where t: "tick E e = (now, e1)" by fastforce
  have m: "moved X k e e1" using assms(2) core_tick(2) [OF t] t queue_tick [of E e] by (intro moved_core) simp_all
  have "renew_due E (memory_ops X) (map fst (filter (\<lambda>(_, d). df_renew_at d \<le> now) (en_deferred_entries e1))) e1 = Some (r, e')"
    using assms(1) t by (simp add: renew_deferred_leases_def)
  then show ?thesis using moved_trans [OF m renew_due_moved] by blast
qed

lemma head_turn_moved:
  assumes "synced X k e"
  shows "moved X k e (snd (head_turn E (memory_ops X) e))"
proof (cases "en_cancel e")
  case True
  then show ?thesis using abort_remaining_moved [OF assms] by (simp add: head_turn_def)
next
  case False
  define e1 where "e1 = (if \<not> en_draining e \<and> en_drain e then e\<lparr>en_draining := True\<rparr> else e)"
  define e2 where "e2 = check_limit E e1"
  define e3 where "e3 = (if en_draining e2 \<and> en_deferred_entries e2 \<noteq> [] then abandon_deferred (memory_ops X) e2 else e2)"
  have m2: "moved X k e e2" by (rule moved_core [OF assms]) (simp_all add: e2_def e1_def)
  have m3: "moved X k e e3"
    using moved_trans [OF m2, of k e3] abandon_deferred_moved [of X k e2] m2 by (auto simp: e3_def split: if_splits)
  show ?thesis
  proof (cases "renew_deferred_leases E (memory_ops X) e3")
    case None
    then show ?thesis using False m3
      unfolding head_turn_def Let_def e1_def [symmetric] e2_def [symmetric] e3_def [symmetric] by simp
  next
    case (Some p)
    then obtain r e4 where r: "renew_deferred_leases E (memory_ops X) e3 = Some (r, e4)" by (cases p) simp
    have m4: "moved X k e e4" by (rule moved_trans [OF m3 renew_deferred_leases_moved [OF r]])
    have "moved X k e (abort_remaining (memory_ops X) e4)" by (rule moved_trans [OF m4 abort_remaining_moved])
    then show ?thesis using False r m4
      unfolding head_turn_def Let_def e1_def [symmetric] e2_def [symmetric] e3_def [symmetric] by (cases r) simp_all
  qed
qed

lemma pump_turn_moved:
  assumes "engine_ok E e" "desired \<le> max_concurrency (en_pool e)" "synced X k e" "k < 2 ^ 64 - 1"
  shows "moved X (Suc k) e (snd (pump_turn X E (memory_ops X) timed_out desired e))"
proof -
  obtain e1 where e1: "start_ready X E desired e = Some e1" "engine_ok E e1" using start_ready_ok [OF assms(1,2), of X] by blast
  have q1: "en_queue e1 = en_queue e" "holds ticket e1 = holds ticket e"
    using start_ready_held [OF e1(1) assms(1,2), where f = ticket] by simp_all
  obtain rv e2 where lr: "limit_reserved E e1 = (rv, e2)" by fastforce
  have e2: "core e2 = core e1" "en_queue e2 = en_queue e" using core_limit_reserved [of E e1] queue_limit_reserved [of E e1] lr q1 by simp_all
  have h2: "holds ticket e2 = holds ticket e" using held_core [OF e2(1), of ticket] q1 by simp
  obtain now e3 where t: "tick E e2 = (now, e3)" by fastforce
  have e3: "core e3 = core e1" "en_queue e3 = en_queue e" using core_tick(2) [OF t] e2 t queue_tick [of E e2] by auto
  obtain x q where f: "q_fetch_next (memory_ops X) now (en_queue e3) = (x, q)" by (cases "q_fetch_next (memory_ops X) now (en_queue e3)")
  let ?e4 = "e3\<lparr>en_queue := q\<rparr>"
  have c4: "core ?e4 = core e1" using e3(1) by simp
  have ok4: "engine_ok E ?e4" using e1(2) engine_ok_core [OF c4] by blast
  have h4: "holds ticket ?e4 = holds ticket e" using held_core [OF c4, of ticket] q1 by simp
  have sy: "mem_inv X (en_queue e)" "leases_of (en_queue e) = holds ticket e" "unat (mq_next_lease_id (en_queue e)) \<le> k"
    using assms(3) by (simp_all add: synced_def)
  have live: "mem_live (en_queue e)"
    using sy(3) assms(4) by (auto simp: mem_live_def unsigned_minus_1_eq_mask mask_eq_exp_minus_1)
  have "mem_fetch_next now (en_queue e) = (x, q)" using f e3(2) by (simp add: memory_ops_def)
  note fl = fetch_leases [OF sy(1) live this]
  have inv: "mem_inv X q" "unat (mq_next_lease_id q) \<le> Suc k" using mem_step_inv [OF fl(1) sy(1)] fl(4) sy(3) by simp_all
  have m2: "moved X (Suc k) e e2" using sy e2(2) h2 by (simp add: moved_def synced_def)
  have none: "moved X (Suc k) e ?e4" if "\<And>l. x \<noteq> Inr (Some l)"
    using fl(3) [OF that] fl(1) inv sy h4 by (auto simp: moved_def synced_def)
  have some: "moved X (Suc k) e (defer_lease E l ?e4)" if "x = Inr (Some l)" for l
    using fl(2) [OF that] fl(1) inv sy h4 defer_lease_held(1) [OF ok4, of l] defer_lease_held(2) [OF ok4, where l = l and f = ticket]
    by (auto simp: moved_def synced_def)
  show ?thesis
  proof (cases "en_draining e2 \<or> rv \<or> desired \<le> length (en_in_flight e2) \<or> deferred_cap e2 \<le> length (en_deferred_entries e2) \<or> timed_out")
    case True
    then show ?thesis using m2 by (simp add: pump_turn_def e1(1) lr)
  next
    case False
    then have "pump_turn X E (memory_ops X) timed_out desired e =
        (case x of Inr (Some l) \<Rightarrow> (Pump desired, defer_lease E l ?e4) | _ \<Rightarrow> (Pumped, ?e4))"
      by (simp add: pump_turn_def e1(1) lr t f Let_def)
    then show ?thesis using none some by (simp split: sum.split option.split)
  qed
qed

lemma completion_turn_moved:
  assumes "engine_ok E e" "synced X k e" "slot \<in> fst ` set (en_in_flight e)" "keeps_key (Completion slot joined) e"
  shows "moved X k e (snd (completion_turn X E (memory_ops X) slot joined e))"
proof -
  let ?Q = "memory_ops X" and ?e1 = "e\<lparr>en_in_flight := AList.delete slot (en_in_flight e)\<rparr>"
  have so: "slots_ok e" using assms(1) by (simp add: engine_ok_def)
  obtain s where s: "map_of (en_slots e) slot = Some s" using slot_has_lease [OF so assms(3)] by metis
  obtain r e2 p n where h: "handle_completion X E ?Q slot joined ?e1 = Some (r, e2)"
    "core e2 = core ((without_slot slot e)\<lparr>en_pool := p, en_stats := (en_stats e)\<lparr>st_requests_finished := n\<rparr>\<rparr>)"
    by (rule handle_completion_frame [OF s, where X = X and E = E and Q = ?Q and joined = joined]) blast
  have held: "holds ticket e = {#ticket (ss_lease s)#} + holds ticket e2"
    using held_core [OF h(2), of ticket] mset_delete_map [of "en_slots e" slot s "ticket \<circ> ss_lease \<circ> snd"] so s
    by (simp add: holds_def without_slot_def slots_ok_def)
  have key: "req_unique_key (out_request out) = req_unique_key (lease_request (ss_lease s))" if "joined = Inr out" for out
    using assms(4) that s by (simp add: keeps_key_def)
  have "ticket (ss_lease s) \<in># leases_of (en_queue e)" using assms(2) held by (simp add: synced_def)
  then have c: "consumed X {#ticket (ss_lease s)#} (en_queue e) (en_queue e2)"
    using handle_completion_consumed [OF _ h(1) key] s assms(2) by (simp add: synced_def)
  have m2: "moved X k e e2" by (rule moved_consumed [OF assms(2) c held])
  have "moved X k e (abort_remaining ?Q e2)" by (rule moved_trans [OF m2 abort_remaining_moved])
  then show ?thesis using h(1) m2 by (cases r) (simp_all add: completion_turn_def)
qed

lemma engine_step_moved:
  assumes "engine_step X E (memory_ops X) keeps_key c c'" "dispatch_ok E m n c" "synced X k (snd c)" "k < 2 ^ 64 - 1"
  shows "moved X (Suc k) (snd c) (snd c')"
proof -
  have ok: "engine_ok E (snd c)" "phase_ok (fst c) (snd c)" using assms(2) by (simp_all add: dispatch_ok_def)
  have mono: "moved X k e e' \<Longrightarrow> moved X (Suc k) e e'" for e e' by (auto simp: moved_def synced_def)
  have same: "moved X (Suc k) e e'" if "synced X k e" "core e' = core e" "en_queue e' = en_queue e" for e e'
    using mono moved_core that by blast
  from assms(1) show ?thesis
  proof cases
    case (head e)
    then show ?thesis using mono [OF head_turn_moved [of X k e E]] assms(3) by simp
  next
    case (pump desired e timed_out)
    then show ?thesis using ok assms(3,4) pump_turn_moved by auto
  next
    case (pumped e f1 f2)
    then show ?thesis using same [of e e] assms(3) by (auto simp: pumped_turn_def)
  next
    case (wake w e)
    show ?thesis
    proof (cases w)
      case (Completion slot joined)
      then have "slot \<in> fst ` set (en_in_flight e)" "keeps_key (Completion slot joined) e" using wake by simp_all
      then show ?thesis using Completion wake ok assms(3) mono completion_turn_moved [of E e X k slot joined] by simp
    qed (use wake assms(3) in \<open>auto intro!: same\<close>)
  next
    case (other ph e i)
    show ?thesis
    proof (cases i)
      case (AddRequest r opts)
      let ?q = "snd (mem_add X r opts (en_queue e))"
      have st: "mem_step X (en_queue e) ?q" by (rule mem_step.add [OF prod.collapse [symmetric]])
      have "leases_of ?q = leases_of (en_queue e)" "mq_next_lease_id ?q = mq_next_lease_id (en_queue e)"
        by (simp_all add: leases_of_def mem_add_def mem_add_locked_def Let_def split_beta split: option.split)
      then show ?thesis using AddRequest other assms(3) st mem_step_inv [OF st]
        by (auto simp: moved_def synced_def memory_ops_def holds_def)
    next
      case (ScaleTick signals)
      then show ?thesis using other assms(3) by (simp add: moved_def synced_def holds_def)
    next
      case (DelayFloor host f)
      then show ?thesis using other assms(3) by (simp add: moved_def synced_def holds_def)
    qed (use other assms(3) in \<open>auto intro!: same\<close>)
  qed
qed

lemma engine_run_moved:
  assumes "dispatch_ok E m 0 c" "synced X k (snd c)" "n < 2 ^ 64" "k + n < 2 ^ 64"
    "(engine_step X E (memory_ops X) keeps_key ^^ n) c c'"
  shows "moved X (k + n) (snd c) (snd c')"
  using assms(3-5)
proof (induction n arbitrary: c')
  case (Suc n)
  then obtain c1 where c1: "(engine_step X E (memory_ops X) keeps_key ^^ n) c c1" "engine_step X E (memory_ops X) keeps_key c1 c'" by auto
  then have m: "moved X (k + n) (snd c) (snd c1)" using Suc by simp
  have d: "dispatch_ok E m n c1" using engine_run_ok [OF assms(1) _ c1(1)] Suc.prems(1) by simp
  show ?case using moved_trans [OF m engine_step_moved [OF c1(2) d]] Suc.prems(2) by simp
qed (use assms(2) in \<open>simp add: moved_def\<close>)

lemma leased_status:
  assumes "mem_inv X q" "mem_status q key = Some (Leased i)"
  shows "(i, key) \<in># leases_of q"
proof -
  obtain p where "find (\<lambda>p. leased_key p = key) (mq_in_flight q) = Some p" "fst p = i"
    using assms(2) by (auto simp: mem_status_def split: if_splits)
  then have "p \<in> set (mq_in_flight q)" "leased_key p = key" "fst p = i" unfolding find_Some_iff by (metis nth_mem)+
  then show ?thesis by (force simp: leases_of_def)
qed

lemma finished_all_handled:
  assumes "mem_inv X q" "mem_is_finished q"
  shows "range (mem_status q) \<subseteq> {None, Some Handled}"
proof -
  have "pending_keys q = {#}" "mq_in_flight q = []"
    using assms fr.empty_contents [of X "mq_pending q"] by (auto simp: mem_is_finished_def pending_keys_def mem_inv_def)
  then show ?thesis by (auto simp: mem_status_def)
qed

section \<open>Nothing is lost, and a finished crawl has handled everything\<close>

text \<open>
  C3. A crawl loses no request. In every state a run over the in-memory queue reaches, whatever attempts
  return (as long as they keep the key of their request), panics, cancellations, stops and aborts
  included: every key the queue knew at the start is still known, a handled key stays handled, a leased
  key is leased to an attempt the engine still holds; and once the loop has returned no key is leased,
  every request is pending again or handled.
\<close>

theorem crawl_loses_nothing:
  assumes "(engine_step X E (memory_ops X) keeps_key ^^ n) (Head, engine_start q p s) (ph, e)"
    and "mem_inv X q" and "mq_in_flight q = []" and "unat (mq_next_lease_id q) + n < 2 ^ 64"
    and "pool_safe p" and "\<And>limit. eo_max_requests_per_crawl (env_opts E) = Some limit \<Longrightarrow> st_requests_finished s \<le> limit"
  shows "dom (mem_status q) \<subseteq> dom (mem_status (en_queue e))
    \<and> (\<forall>key. mem_status q key = Some Handled \<longrightarrow> mem_status (en_queue e) key = Some Handled)
    \<and> (\<forall>key i. mem_status (en_queue e) key = Some (Leased i) \<longrightarrow> (i, key) \<in># holds ticket e)
    \<and> (\<forall>r. ph = Returned r \<longrightarrow> (\<forall>key i. mem_status (en_queue e) key \<noteq> Some (Leased i)))"
proof -
  have start: "dispatch_ok E (max_concurrency p) 0 (Head, engine_start q p s)" by (rule engine_start_ok [OF assms(5,6)])
  have "synced X (unat (mq_next_lease_id q)) (engine_start q p s)"
    using assms(2,3) by (simp add: synced_def engine_start_def leases_of_def holds_def)
  then have m: "moved X (unat (mq_next_lease_id q) + n) (engine_start q p s) e"
    using engine_run_moved [OF start _ _ assms(4,1)] assms(4) by simp
  then have run: "(mem_step X)\<^sup>*\<^sup>* q (en_queue e)" and sy: "mem_inv X (en_queue e)" "leases_of (en_queue e) = holds ticket e"
    by (simp_all add: moved_def synced_def engine_start_def)
  have keeps: "dom (mem_status q) \<subseteq> dom (mem_status (en_queue e))
      \<and> (\<forall>key. mem_status q key = Some Handled \<longrightarrow> mem_status (en_queue e) key = Some Handled)"
    using mem.client_run_keeps [of X q "en_queue e"] mem_run_client [OF run assms(2)] assms(2) by blast
  have leased: "(i, key) \<in># holds ticket e" if "mem_status (en_queue e) key = Some (Leased i)" for key i
    using leased_status [OF sy(1) that] sy(2) by simp
  have "dispatch_ok E (max_concurrency p) n (ph, e)" using engine_run_ok [OF start _ assms(1)] assms(4) by simp
  then have "holds ticket e = {#}" if "ph = Returned r" for r using that by (simp add: dispatch_ok_def idle_def holds_def)
  then show ?thesis using keeps leased by fastforce
qed

text \<open>An attempt panics; its request is retried.\<close>

definition panic_schedule :: "(string, string) choice list" where
  "panic_schedule = (let go = Go False False in
     [go, go, go, go, Wake (Completion 0 (Inl (TaskPanicked OtherPayload))), go, go, go])"

theorem crawl_loses_nothing_witness:
  "let c = run_schedule sample_externals sample_env (memory_ops sample_externals) panic_schedule
        (Head, engine_start sample_queue sample_fixed stats_new) in
   ''k1'' \<in> dom (mem_status (en_queue (snd c)))"
proof -
  let ?start = "(Head, engine_start sample_queue sample_fixed stats_new)" and ?Q = "memory_ops sample_externals"
  let ?c = "run_schedule sample_externals sample_env ?Q panic_schedule ?start"
  have steps: "(engine_step sample_externals sample_env ?Q keeps_key ^^ length panic_schedule) ?start (fst ?c, snd ?c)"
    unfolding prod.collapse by (rule run_schedule_steps) (auto simp: panic_schedule_def Let_def keeps_key_def)
  have "mq_in_flight sample_queue = []" "unat (mq_next_lease_id sample_queue) + length panic_schedule < 2 ^ 64"
    by (simp_all add: panic_schedule_def Let_def sample_queue_eval)
  moreover have "map_of (mq_dedup sample_queue) ''k1'' \<noteq> None" by (simp add: sample_queue_eval)
  then have "mem_status sample_queue ''k1'' \<noteq> None" using mem_status_none [OF sample_queue_inv, of "''k1''"] by simp
  then have "''k1'' \<in> dom (mem_status sample_queue)" by (simp add: domIff)
  ultimately show ?thesis using crawl_loses_nothing [OF steps sample_queue_inv _ _ sample_fixed_safe(1) sample_limit]
    unfolding Let_def by blast
qed

text \<open>
  C2. A crawl that ends by itself is complete: when the dispatcher returns successfully and neither a
  stop, a request limit nor an abort ended it, every request ever added to the queue has been handled.
\<close>

theorem finished_crawl_handled_all:
  assumes "(engine_step X E (memory_ops X) keeps_key ^^ n) (Head, engine_start q p s) (ph, e)"
    and "engine_step X E (memory_ops X) keeps_key (ph, e) (Returned (Inr ()), e')"
    and "\<And>r. ph \<noteq> Returned r" and "\<not> en_draining e" and "\<not> en_cancel e"
    and "mem_inv X q" and "mq_in_flight q = []" and "unat (mq_next_lease_id q) + n < 2 ^ 64"
    and "pool_safe p" and "\<And>limit. eo_max_requests_per_crawl (env_opts E) = Some limit \<Longrightarrow> st_requests_finished s \<le> limit"
  shows "range (mem_status (en_queue e')) \<subseteq> {None, Some Handled}"
proof -
  have start: "dispatch_ok E (max_concurrency p) 0 (Head, engine_start q p s)" by (rule engine_start_ok [OF assms(9,10)])
  have "synced X (unat (mq_next_lease_id q)) (engine_start q p s)"
    using assms(6,7) by (simp add: synced_def engine_start_def leases_of_def holds_def)
  then have "moved X (unat (mq_next_lease_id q) + n) (engine_start q p s) e"
    using engine_run_moved [OF start _ _ assms(8,1)] assms(8) by simp
  then have inv: "mem_inv X (en_queue e)" by (simp add: moved_def synced_def)
  from assms(2) have "e' = e \<and> mem_is_finished (en_queue e)"
  proof cases
    case head
    then show ?thesis using assms(5) by (auto simp: head_turn_def Let_def split: option.splits sum.splits prod.splits)
  next
    case (pump desired timed_out)
    then show ?thesis
      by (auto simp: pump_turn_def Let_def split: option.splits sum.splits prod.splits if_splits)
  next
    case (pumped f1 f2)
    then show ?thesis using assms(4)
      by (auto simp: pumped_turn_def queue_flag_def memory_ops_def split: if_splits)
  next
    case (wake w)
    then show ?thesis by (cases w) (auto simp: completion_turn_def Let_def split: option.splits sum.splits prod.splits)
  next
    case (other i)
    then have "ph = Returned (Inr ())" by simp
    then show ?thesis using assms(3) by blast
  qed
  then show ?thesis using finished_all_handled [OF inv] by simp
qed

definition plain_env :: "(string, string) engine_env" where
  "plain_env = sample_env\<lparr>env_opts := engine_options_default\<rparr>"

text \<open>A crawl over a queue whose requests were all handled by an earlier run ends at once.\<close>

definition done_schedule :: "(string, string) choice list" where
  "done_schedule = [Go False False, Go False False]"

definition done_end :: "((string, string) memory_queue, string, string) config" where
  "done_end = run_schedule sample_externals plain_env (memory_ops sample_externals) done_schedule
     (Head, engine_start sample_handled sample_fixed stats_new)"

lemma done_end_eval:
  "done_end = (Pumped, (engine_start sample_handled sample_fixed stats_new)\<lparr>en_reads := 2\<rparr>)"
  by (simp add: done_end_def done_schedule_def run_schedule_def run_choice_def head_turn_def pump_turn_def engine_start_def
      check_limit_def limit_reserved_def renew_deferred_leases_def tick_def start_ready.simps plain_env_def sample_env_def
      engine_options_default_def deferred_cap_def MIN_DEFERRED_CAPACITY_def desired_concurrency_def sample_fixed_def
      pool_of_options_def sample_options_def memory_ops_def sample_queue_eval)

theorem finished_crawl_handled_all_witness:
  "range (mem_status (en_queue (snd done_end))) \<subseteq> {None, Some Handled} \<and> mem_status (en_queue (snd done_end)) ''k1'' = Some Handled"
proof -
  let ?start = "(Head, engine_start sample_handled sample_fixed stats_new)" and ?Q = "memory_ops sample_externals"
  have steps: "(engine_step sample_externals plain_env ?Q keeps_key ^^ length done_schedule) ?start (fst done_end, snd done_end)"
    unfolding prod.collapse done_end_def by (rule run_schedule_steps) (simp add: done_schedule_def)
  have e: "fst done_end = Pumped" "snd done_end = (engine_start sample_handled sample_fixed stats_new)\<lparr>en_reads := 2\<rparr>"
    by (simp_all add: done_end_eval)
  have "pumped_turn ?Q False False (snd done_end) = (Returned (Inr ()), snd done_end)"
    by (simp add: e pumped_turn_def queue_flag_def memory_ops_def engine_start_def mem_is_finished_def drr_is_empty_def sample_queue_eval)
  then have last: "engine_step sample_externals plain_env ?Q keeps_key (fst done_end, snd done_end) (Returned (Inr ()), snd done_end)"
    using engine_step.pumped [of sample_externals plain_env ?Q keeps_key "snd done_end" False False] e by simp
  have q: "mq_in_flight sample_handled = []" "unat (mq_next_lease_id sample_handled) + length done_schedule < 2 ^ 64"
    by (simp_all add: done_schedule_def sample_queue_eval)
  have "eo_max_requests_per_crawl (env_opts plain_env) = None" by (simp add: plain_env_def engine_options_default_def)
  then have "range (mem_status (en_queue (snd done_end))) \<subseteq> {None, Some Handled}"
    using finished_crawl_handled_all [OF steps last _ _ _ sample_handled_inv(1) q sample_fixed_safe(1)] e
    by (simp add: engine_start_def)
  moreover have "mem_status (en_queue (snd done_end)) ''k1'' = Some Handled"
    using sample_handled_inv(2) e by (simp add: engine_start_def)
  ultimately show ?thesis by blast
qed

end
