(* ===== verification/Links.thy ===== *)
theory Links
  imports Errors "HOL-Library.Sublist"
begin

text \<open>
  Link admission (\<open>millipede-core/src/link_extraction.rs\<close>): the relation a discovered URL must have to
  its parent, include and exclude patterns with the request fields they set, raw links and their
  resolution, and the crawl policy. What the code uses of the crates \<open>url\<close> (parsed hosts), \<open>psl\<close>,
  \<open>globset\<close> and \<open>regex\<close> is the record \<open>link_externals\<close>; a compiled glob or regular expression is
  represented by its source pattern.
\<close>

section \<open>Strategies\<close>

datatype url_host = DomainHost string | Ipv4Host u32 | Ipv6Host "128 word"

record 'u link_externals =
  url_host :: "'u \<Rightarrow> url_host option"
  psl_domain_str :: "string \<Rightarrow> string option"
  glob_build :: "string \<Rightarrow> string option"
  glob_set_build :: "string list \<Rightarrow> string option"
  glob_is_match :: "string \<Rightarrow> string \<Rightarrow> bool"
  regex_is_match :: "string \<Rightarrow> string \<Rightarrow> bool"
  str_debug :: "string \<Rightarrow> string"

datatype enqueue_strategy = StrategyAll | SameHostname | SameDomain | SameOrigin

definition hosts_equal :: "string option \<Rightarrow> string option \<Rightarrow> bool" where
  "hosts_equal left right =
     (case (left, right) of (Some l, Some r) \<Rightarrow> eq_ignore_ascii_case l r | _ \<Rightarrow> False)"

definition same_domain :: "'u link_externals \<Rightarrow> 'u \<Rightarrow> 'u \<Rightarrow> bool" where
  "same_domain L parent candidate =
     (case (url_host L parent, url_host L candidate) of
        (Some parent_host, Some candidate_host) \<Rightarrow>
          (case (parent_host, candidate_host) of
             (DomainHost p, DomainHost c) \<Rightarrow>
               (case (psl_domain_str L p, psl_domain_str L c) of
                  (Some pd, Some cd) \<Rightarrow> eq_ignore_ascii_case pd cd
                | _ \<Rightarrow> eq_ignore_ascii_case p c)
           | _ \<Rightarrow> parent_host = candidate_host)
      | _ \<Rightarrow> False)"

definition strategy_allows ::
  "('u, 'j) externals \<Rightarrow> 'u link_externals \<Rightarrow> enqueue_strategy \<Rightarrow> 'u \<Rightarrow> 'u \<Rightarrow> bool" where
  "strategy_allows X L strategy parent candidate =
     (if url_scheme X candidate \<notin> {''http'', ''https''} then False
      else case strategy of
        StrategyAll \<Rightarrow> True
      | SameHostname \<Rightarrow> hosts_equal (url_host_str X parent) (url_host_str X candidate)
      | SameDomain \<Rightarrow> same_domain L parent candidate
      | SameOrigin \<Rightarrow> url_scheme X parent = url_scheme X candidate
          \<and> hosts_equal (url_host_str X parent) (url_host_str X candidate)
          \<and> url_port_or_known_default X parent = url_port_or_known_default X candidate)"

section \<open>Patterns\<close>

datatype url_pattern = Glob string | Regex string

datatype link_pattern_error = InvalidGlob string string

text \<open>Every glob is built, then the set of them; the error of the set names the last pattern.\<close>

definition compile_globs :: "'u link_externals \<Rightarrow> string list \<Rightarrow> link_pattern_error + string list" where
  "compile_globs L patterns =
     (case fold_result (\<lambda>p gs. case glob_build L p of Some e \<Rightarrow> Inl (InvalidGlob p e) | None \<Rightarrow> Inr (gs @ [p])) patterns [] of
        Inl e \<Rightarrow> Inl e
      | Inr globs \<Rightarrow>
          (case glob_set_build L globs of
             Some e \<Rightarrow> Inl (InvalidGlob (if patterns = [] then [] else List.last patterns) e)
           | None \<Rightarrow> Inr globs))"

fun link_pattern_error_chain :: "'u link_externals \<Rightarrow> link_pattern_error \<Rightarrow> anyhow" where
  "link_pattern_error_chain L (InvalidGlob p e) =
     [\<lparr>cause_text = ''invalid glob pattern '' @ str_debug L p @ '': '' @ e, cause_status = None\<rparr>,
      \<lparr>cause_text = e, cause_status = None\<rparr>]"

record 'j url_match =
  um_pattern :: url_pattern
  um_label :: "string option"
  um_user_data :: "'j user_data option"
  um_method :: "http_method option"
  um_headers :: "header_map option"

definition url_match_new :: "url_pattern \<Rightarrow> 'j url_match" where
  "url_match_new p = \<lparr>um_pattern = p, um_label = None, um_user_data = None, um_method = None, um_headers = None\<rparr>"

definition match_label :: "string \<Rightarrow> 'j url_match \<Rightarrow> 'j url_match" where
  "match_label l m = m\<lparr>um_label := Some l\<rparr>"

definition match_user_data :: "'j user_data \<Rightarrow> 'j url_match \<Rightarrow> 'j url_match" where
  "match_user_data d m = m\<lparr>um_user_data := Some d\<rparr>"

definition match_method :: "http_method \<Rightarrow> 'j url_match \<Rightarrow> 'j url_match" where
  "match_method meth m = m\<lparr>um_method := Some meth\<rparr>"

definition match_headers :: "header_map \<Rightarrow> 'j url_match \<Rightarrow> 'j url_match" where
  "match_headers hs m = m\<lparr>um_headers := Some hs\<rparr>"

section \<open>Raw links\<close>

record 'u extracted_link =
  ex_url :: string
  ex_base :: "'u option"

text \<open>
  \<open>split_once(['?', '#'])\<close> keeps what is before the first of the two characters; the first path
  segment ends at the first slash.
\<close>

definition first_path_segment :: "string \<Rightarrow> string" where
  "first_path_segment raw = takeWhile (\<lambda>c. c \<noteq> CHR ''/'') (takeWhile (\<lambda>c. c \<noteq> CHR ''?'' \<and> c \<noteq> CHR ''#'') raw)"

definition resolve_raw_url :: "('u, 'j) externals \<Rightarrow> 'u \<Rightarrow> string \<Rightarrow> string + 'u" where
  "resolve_raw_url X base raw =
     (case url_parse X raw of
        Inr absolute \<Rightarrow> Inr absolute
      | Inl _ \<Rightarrow>
          if CHR '':'' \<in> set (first_path_segment raw) then Inl ''relative URL without a base''
          else url_join X base raw)"

section \<open>Policy\<close>

datatype transform_result = TransformEnqueue | TransformSkip string

datatype skip_reason =
    MaxDepthExceeded u32 u32
  | MaxRequestsReached u64
  | StrategyExcluded
  | GlobExcluded
  | RegexExcluded
  | TransformRejected string
  | DuplicateUniqueKey
  | InvalidUrlReason

definition u32_text :: "u32 \<Rightarrow> string" where
  "u32_text w = nat_text (unat w)"

fun skip_reason_text :: "skip_reason \<Rightarrow> string" where
  "skip_reason_text (MaxDepthExceeded d l) = ''crawl depth '' @ u32_text d @ '' exceeds limit '' @ u32_text l"
| "skip_reason_text (MaxRequestsReached l) = ''maximum request count '' @ u64_text l @ '' reached''"
| "skip_reason_text StrategyExcluded = ''excluded by enqueue strategy''"
| "skip_reason_text GlobExcluded = ''excluded by glob patterns''"
| "skip_reason_text RegexExcluded = ''excluded by regex patterns''"
| "skip_reason_text (TransformRejected r) = ''rejected by transform: '' @ r"
| "skip_reason_text DuplicateUniqueKey = ''duplicate unique key''"
| "skip_reason_text InvalidUrlReason = ''invalid URL''"

text \<open>\<open>cp_on_skipped\<close> says whether a callback is installed.\<close>

record crawl_policy =
  cp_strategy :: enqueue_strategy
  cp_max_crawl_depth :: "u32 option"
  cp_max_requests_per_crawl :: "u64 option"
  cp_on_skipped :: bool

definition crawl_policy_new :: crawl_policy where
  "crawl_policy_new = \<lparr>cp_strategy = SameHostname, cp_max_crawl_depth = None, cp_max_requests_per_crawl = None,
     cp_on_skipped = False\<rparr>"

definition policy_strategy :: "enqueue_strategy \<Rightarrow> crawl_policy \<Rightarrow> crawl_policy" where
  "policy_strategy s p = p\<lparr>cp_strategy := s\<rparr>"

definition policy_max_crawl_depth :: "u32 \<Rightarrow> crawl_policy \<Rightarrow> crawl_policy" where
  "policy_max_crawl_depth d p = p\<lparr>cp_max_crawl_depth := Some d\<rparr>"

definition policy_max_requests :: "u64 \<Rightarrow> crawl_policy \<Rightarrow> crawl_policy" where
  "policy_max_requests n p = p\<lparr>cp_max_requests_per_crawl := Some n\<rparr>"

definition policy_on_skipped :: "crawl_policy \<Rightarrow> crawl_policy" where
  "policy_on_skipped p = p\<lparr>cp_on_skipped := True\<rparr>"

section \<open>Properties\<close>

text \<open>
  What the \<open>url\<close> crate promises of a parsed URL: its host text is the lower-case text of its parsed
  host, and two hosts with one text are the same host.
\<close>

definition host_lawful :: "('u, 'j) externals \<Rightarrow> 'u link_externals \<Rightarrow> 'u \<Rightarrow> bool" where
  "host_lawful X L u \<longleftrightarrow> (url_host_str X u = None \<longleftrightarrow> url_host L u = None)
     \<and> (\<forall>s. url_host_str X u = Some s \<longrightarrow> to_ascii_lowercase s = s)
     \<and> (\<forall>v. url_host_str X u = url_host_str X v \<longrightarrow> url_host L u = url_host L v)"

lemma hosts_equal_iff:
  "hosts_equal l r \<longleftrightarrow> (\<exists>a b. l = Some a \<and> r = Some b \<and> to_ascii_lowercase a = to_ascii_lowercase b)"
  by (auto simp: hosts_equal_def eq_ignore_ascii_case_def split: option.splits)

lemma host_lawfulD:
  assumes "host_lawful X L u"
  shows "url_host_str X u = Some s \<Longrightarrow> to_ascii_lowercase s = s"
    and "url_host_str X u = url_host_str X v \<Longrightarrow> url_host L u = url_host L v"
    and "url_host_str X u \<noteq> None \<Longrightarrow> url_host L u \<noteq> None"
  using assms unfolding host_lawful_def by (elim conjE, metis)+

lemma same_hostname_same_domain:
  assumes "host_lawful X L p" and "host_lawful X L c" and "hosts_equal (url_host_str X p) (url_host_str X c)"
  shows "same_domain L p c"
proof -
  obtain a b where ab: "url_host_str X p = Some a" "url_host_str X c = Some b"
    "to_ascii_lowercase a = to_ascii_lowercase b" using assms(3) by (auto simp: hosts_equal_iff)
  have "a = b" using host_lawfulD(1) [OF assms(1) ab(1)] host_lawfulD(1) [OF assms(2) ab(2)] ab(3) by argo
  then have "url_host_str X p = url_host_str X c" using ab by simp
  then have "url_host L p = url_host L c" by (rule host_lawfulD(2) [OF assms(1)])
  then obtain h where "url_host L p = Some h" "url_host L c = Some h" using host_lawfulD(3) [OF assms(1)] ab(1) by auto
  then show ?thesis by (auto simp: same_domain_def eq_ignore_ascii_case_def split: url_host.splits option.splits)
qed

definition sample_links :: "string link_externals" where
  "sample_links = \<lparr>url_host = (\<lambda>u. map_option DomainHost (url_host_str sample_externals u)), psl_domain_str = Some,
     glob_build = (\<lambda>_. None), glob_set_build = (\<lambda>_. None), glob_is_match = (\<lambda>g u. prefix g u),
     regex_is_match = (\<lambda>r u. prefix r u), str_debug = id\<rparr>"

text \<open>
  The strategies are nested: a link that the origin strategy allows is allowed by the hostname
  strategy, one the hostname strategy allows by the domain strategy, and everything any of them allows is
  an HTTP or HTTPS URL, which the strategy \<open>All\<close> allows. (Of the \<open>url\<close> crate: hosts are lower case and two
  URLs with one host text have one host.)
\<close>

theorem strategies_nested:
  assumes "host_lawful X L p" and "host_lawful X L c"
  shows "(strategy_allows X L SameOrigin p c \<longrightarrow> strategy_allows X L SameHostname p c)
    \<and> (strategy_allows X L SameHostname p c \<longrightarrow> strategy_allows X L SameDomain p c)
    \<and> (strategy_allows X L s p c \<longrightarrow> strategy_allows X L StrategyAll p c \<and> url_scheme X c \<in> {''http'', ''https''})"
  using same_hostname_same_domain [OF assms]
  by (auto simp: strategy_allows_def split: enqueue_strategy.splits if_splits)

theorem strategies_nested_witness:
  "strategy_allows sample_externals sample_links SameOrigin ''https://a/'' ''https://a/1''
   \<and> strategy_allows sample_externals sample_links SameHostname ''https://a/'' ''https://a/1''
   \<and> strategy_allows sample_externals sample_links SameDomain ''https://a/'' ''https://a/1''"
proof -
  have h: "host_lawful sample_externals sample_links ''https://a/''" "host_lawful sample_externals sample_links ''https://a/1''"
    by (simp_all add: host_lawful_def sample_links_def sample_externals_def to_ascii_lowercase_def ascii_lower_def)
  moreover have "strategy_allows sample_externals sample_links SameOrigin ''https://a/'' ''https://a/1''"
    by (simp add: strategy_allows_def hosts_equal_def eq_ignore_ascii_case_def sample_externals_def)
  ultimately show ?thesis using strategies_nested [OF h] by simp
qed

end
