(* ===== verification/Enqueue.thy ===== *)
theory Enqueue
  imports Links Queue_Contract
begin

text \<open>
  Enqueueing child URLs (\<open>millipede-core/src/enqueue.rs\<close>) and the part of the crawler handle it uses
  (\<open>crawler/mod.rs\<close>: batch insertion, admission counter, reservations). One call of \<open>send\<close> first
  screens its candidates; then it becomes a \<open>sender\<close>, which runs in turns between its await points, so
  that concurrent senders, the dispatcher and clients interleave. A turn gets what the awaited calls
  returned: the queue's counters, whether the crawler still exists, whether an insertion timed out.
\<close>

section \<open>Patterns\<close>

record 'j pattern_overrides =
  po_label :: "string option"
  po_user_data :: "'j user_data option"
  po_method :: "http_method option"
  po_headers :: "header_map option"

definition default_overrides :: "'j pattern_overrides" where
  "default_overrides = \<lparr>po_label = None, po_user_data = None, po_method = None, po_headers = None\<rparr>"

datatype compiled_pattern = CompiledGlob "string list" | CompiledRegex string

fun pattern_matches :: "'u link_externals \<Rightarrow> compiled_pattern \<Rightarrow> string \<Rightarrow> bool" where
  "pattern_matches L (CompiledGlob globs) url = list_ex (\<lambda>g. glob_is_match L g url) globs"
| "pattern_matches L (CompiledRegex r) url = regex_is_match L r url"

type_synonym 'j compiled_include = "compiled_pattern \<times> 'j url_match"

definition include_overrides :: "'j compiled_include \<Rightarrow> 'j pattern_overrides" where
  "include_overrides c = \<lparr>po_label = um_label (snd c), po_user_data = um_user_data (snd c),
     po_method = um_method (snd c), po_headers = um_headers (snd c)\<rparr>"

fun compile_pattern :: "'u link_externals \<Rightarrow> url_pattern \<Rightarrow> crawl_error + compiled_pattern" where
  "compile_pattern L (Glob p) =
     (case compile_globs L [p] of Inl e \<Rightarrow> Inl (NonRetryable (link_pattern_error_chain L e)) | Inr gs \<Rightarrow> Inr (CompiledGlob gs))"
| "compile_pattern L (Regex r) = Inr (CompiledRegex r)"

definition compile_include_patterns :: "'u link_externals \<Rightarrow> 'j url_match list \<Rightarrow> crawl_error + 'j compiled_include list" where
  "compile_include_patterns L ms = fold_result (\<lambda>m cs. case compile_pattern L (um_pattern m) of
     Inl e \<Rightarrow> Inl e | Inr c \<Rightarrow> Inr (cs @ [(c, m)])) ms []"

definition compile_patterns :: "'u link_externals \<Rightarrow> url_pattern list \<Rightarrow> crawl_error + compiled_pattern list" where
  "compile_patterns L ps = fold_result (\<lambda>p cs. case compile_pattern L p of
     Inl e \<Rightarrow> Inl e | Inr c \<Rightarrow> Inr (cs @ [c])) ps []"

definition first_exclusion :: "'u link_externals \<Rightarrow> compiled_pattern list \<Rightarrow> string \<Rightarrow> skip_reason option" where
  "first_exclusion L patterns url = find_map (\<lambda>p.
     if \<not> pattern_matches L p url then None
     else Some (case p of CompiledGlob _ \<Rightarrow> GlobExcluded | CompiledRegex _ \<Rightarrow> RegexExcluded)) patterns"

section \<open>Options\<close>

datatype 'u url_candidate = Absolute 'u | Raw string "'u option"

text \<open>The extractor and the transform are the caller's; each is a function.\<close>

record 'u enqueue_linker =
  el_parent_url :: 'u
  el_parent_depth :: u32
  el_extractor :: "(string option \<Rightarrow> crawl_error + 'u extracted_link list) option"

definition linker_new :: "('u, 'j) request \<Rightarrow> 'u enqueue_linker" where
  "linker_new parent = \<lparr>el_parent_url = req_url parent, el_parent_depth = req_crawl_depth parent, el_extractor = None\<rparr>"

definition linker_with_extractor ::
  "('u, 'j) request \<Rightarrow> (string option \<Rightarrow> crawl_error + 'u extracted_link list) \<Rightarrow> 'u enqueue_linker" where
  "linker_with_extractor parent extractor = (linker_new parent)\<lparr>el_extractor := Some extractor\<rparr>"

record ('u, 'j) enqueue_options =
  lo_candidates :: "'u url_candidate list"
  lo_base_url :: "'u option"
  lo_label :: "string option"
  lo_user_data :: "'j user_data option"
  lo_selector :: "string option"
  lo_strategy :: "enqueue_strategy option"
  lo_globs :: "'j url_match list"
  lo_regex :: "string list"
  lo_exclude :: "url_pattern list"
  lo_transform :: "(('u, 'j) request \<Rightarrow> transform_result \<times> ('u, 'j) request) option"
  lo_limit :: "nat option"
  lo_forefront :: bool

definition enqueue_options_new :: "('u, 'j) enqueue_options" where
  "enqueue_options_new = \<lparr>lo_candidates = [], lo_base_url = None, lo_label = None, lo_user_data = None,
     lo_selector = None, lo_strategy = None, lo_globs = [], lo_regex = [], lo_exclude = [], lo_transform = None,
     lo_limit = None, lo_forefront = False\<rparr>"

definition opt_urls :: "'u list \<Rightarrow> ('u, 'j) enqueue_options \<Rightarrow> ('u, 'j) enqueue_options" where
  "opt_urls us opts = opts\<lparr>lo_candidates := lo_candidates opts @ map Absolute us\<rparr>"

definition opt_raw_urls :: "string list \<Rightarrow> ('u, 'j) enqueue_options \<Rightarrow> ('u, 'j) enqueue_options" where
  "opt_raw_urls us opts = opts\<lparr>lo_candidates := lo_candidates opts @ map (\<lambda>u. Raw u None) us\<rparr>"

section \<open>Screening\<close>

definition gather_candidates ::
  "'u enqueue_linker \<Rightarrow> ('u, 'j) enqueue_options \<Rightarrow> crawl_error + 'u url_candidate list" where
  "gather_candidates linker opts =
     (if lo_selector opts \<noteq> None \<or> (lo_candidates opts = [] \<and> el_extractor linker \<noteq> None) then
        case el_extractor linker of
          None \<Rightarrow> Inl (NonRetryable (anyhow_msg (''selector-based enqueue requires an HTML or browser context; ''
                    @ ''use urls()/raw_urls() on HTTP contexts'')))
        | Some extract \<Rightarrow>
            (case extract (lo_selector opts) of
               Inl e \<Rightarrow> Inl e
             | Inr links \<Rightarrow> Inr (lo_candidates opts @ map (\<lambda>l. Raw (ex_url l) (ex_base l)) links))
      else Inr (lo_candidates opts))"

text \<open>The URL, or the raw text that has none, and whether the strategy applies.\<close>

fun resolve_candidate ::
  "('u, 'j) externals \<Rightarrow> 'u enqueue_linker \<Rightarrow> ('u, 'j) enqueue_options \<Rightarrow> 'u url_candidate \<Rightarrow> (string + 'u) \<times> bool" where
  "resolve_candidate X linker opts (Absolute url) = (Inr url, False)"
| "resolve_candidate X linker opts (Raw url base) =
     (let b = (case base of Some b \<Rightarrow> b
               | None \<Rightarrow> (case lo_base_url opts of Some b \<Rightarrow> b | None \<Rightarrow> el_parent_url linker))
      in (case resolve_raw_url X b url of Inl _ \<Rightarrow> Inl url | Inr u \<Rightarrow> Inr u, True))"

text \<open>One turn of the first loop: a skipped URL with its reason, or an admitted one with its overrides.\<close>

definition screen_candidate ::
  "('u, 'j) externals \<Rightarrow> 'u link_externals \<Rightarrow> enqueue_strategy \<Rightarrow> 'u enqueue_linker \<Rightarrow> ('u, 'j) enqueue_options
     \<Rightarrow> 'j compiled_include list \<Rightarrow> compiled_pattern list \<Rightarrow> 'u url_candidate
     \<Rightarrow> (string \<times> skip_reason) + ('u \<times> 'j pattern_overrides)" where
  "screen_candidate X L strategy linker opts globs excludes c =
     (case resolve_candidate X linker opts c of
        (Inl raw, _) \<Rightarrow> Inl (raw, InvalidUrlReason)
      | (Inr url, apply_strategy) \<Rightarrow>
          let text = url_string X url in
          if apply_strategy \<and> \<not> strategy_allows X L strategy (el_parent_url linker) url then Inl (text, StrategyExcluded)
          else case first_exclusion L excludes text of
            Some reason \<Rightarrow> Inl (text, reason)
          | None \<Rightarrow>
              let include = find (\<lambda>g. pattern_matches L (fst g) text) globs;
                  regex_matches = list_ex (\<lambda>r. regex_is_match L r text) (lo_regex opts)
              in if (globs \<noteq> [] \<or> lo_regex opts \<noteq> []) \<and> include = None \<and> \<not> regex_matches
                 then Inl (text, if globs \<noteq> [] then GlobExcluded else RegexExcluded)
                 else Inr (url, case include of Some g \<Rightarrow> include_overrides g | None \<Rightarrow> default_overrides))"

definition lefts :: "('a + 'b) list \<Rightarrow> 'a list" where
  "lefts rs = List.map_filter (\<lambda>r. case r of Inl a \<Rightarrow> Some a | Inr _ \<Rightarrow> None) rs"

definition rights :: "('a + 'b) list \<Rightarrow> 'b list" where
  "rights rs = List.map_filter (\<lambda>r. case r of Inl _ \<Rightarrow> None | Inr b \<Rightarrow> Some b) rs"

text \<open>\<open>retain\<close> with a set of the URLs seen so far: the first of equal URLs stays.\<close>

fun retain_new :: "('a \<Rightarrow> string) \<Rightarrow> string list \<Rightarrow> 'a list \<Rightarrow> 'a list" where
  "retain_new f seen [] = []"
| "retain_new f seen (x # xs) =
     (if f x \<in> set seen then retain_new f seen xs else x # retain_new f (f x # seen) xs)"

definition retained ::
  "('u, 'j) externals \<Rightarrow> nat option \<Rightarrow> ('u \<times> 'j pattern_overrides) list \<Rightarrow> ('u \<times> 'j pattern_overrides) list" where
  "retained X limit cs =
     (let kept = retain_new (\<lambda>c. url_string X (fst c)) [] cs in
      case limit of Some n \<Rightarrow> take n kept | None \<Rightarrow> kept)"

section \<open>The crawler handle\<close>

record 'q crawler_shared =
  cs_queue :: 'q
  cs_admissions :: u64
  cs_notified :: nat
  cs_skip_calls :: "(string \<times> skip_reason) list"

definition crawler_gone :: crawl_error where
  "crawler_gone = NonRetryable (anyhow_msg ''crawler is no longer running'')"

text \<open>
  The insertion of a batch. \<open>alive\<close> is the result of \<open>upgrade\<close>; an insertion that times out is dropped
  while it waits for the queue.
\<close>

type_synonym ('q, 'u, 'j) add_batch_op =
  "('u, 'j) request_source list \<Rightarrow> add_options \<Rightarrow> 'q \<Rightarrow> (storage_error + batch_add_handle) \<times> 'q"

definition add_requests_with_options ::
  "('q, 'u, 'j) add_batch_op \<Rightarrow> bool \<Rightarrow> bool \<Rightarrow> ('u, 'j) request list \<Rightarrow> add_options \<Rightarrow> 'q crawler_shared
     \<Rightarrow> (crawl_error + batch_add_handle) \<times> 'q crawler_shared" where
  "add_requests_with_options B alive timed_out reqs options cs =
     (if \<not> alive then (Inl crawler_gone, cs)
      else if timed_out then (Inl (Retry (anyhow_msg ''queue add timed out'')), cs)
      else
        let (r, q) = B (map SourceRequest reqs) options (cs_queue cs); cs1 = cs\<lparr>cs_queue := q\<rparr> in
        case r of
          Inl e \<Rightarrow> (Inl (crawl_error_of_storage e), cs1)
        | Inr h \<Rightarrow> let (h1, n) = notify_on_completion h (cs_notified cs1) in (Inr h1, cs1\<lparr>cs_notified := n\<rparr>))"

definition synchronize_enqueue_admissions :: "bool \<Rightarrow> u64 \<Rightarrow> u64 \<Rightarrow> (crawl_error + u64) \<times> u64" where
  "synchronize_enqueue_admissions alive observed admissions =
     (if \<not> alive then (Inl crawler_gone, admissions)
      else (Inr (max admissions observed), max admissions observed))"

definition reserve_enqueue_admission :: "bool \<Rightarrow> u64 \<Rightarrow> (crawl_error + unit) \<times> u64" where
  "reserve_enqueue_admission alive admissions =
     (if \<not> alive then (Inl crawler_gone, admissions) else (Inr (), admissions + 1))"

text \<open>
  Dropping \<open>n\<close> reservations that were not committed; committing one only keeps the counter.
\<close>

definition drop_reservations :: "nat \<Rightarrow> 'q crawler_shared \<Rightarrow> 'q crawler_shared" where
  "drop_reservations n cs = cs\<lparr>cs_admissions := cs_admissions cs - word_of_nat n\<rparr>"

section \<open>Admission\<close>

datatype admission = Reserved | Untracked | Rejected

text \<open>
  What one \<open>reserve_request_slot\<close> sees at its await points: the crawler when it takes the admission lock
  and when it asks for the queue, the two counters (\<open>None\<close>: the call failed), the crawler afterwards.
\<close>

record slot_view =
  sv_locked :: bool
  sv_queue :: bool
  sv_handled :: "u64 option"
  sv_pending :: "u64 option"
  sv_alive :: bool

definition request_count :: "u64 option \<Rightarrow> u64 option \<Rightarrow> u64 option" where
  "request_count handled pending =
     (case handled of None \<Rightarrow> None
      | Some h \<Rightarrow> (case pending of None \<Rightarrow> None | Some p \<Rightarrow> Some (sat_add h p)))"

definition reserve_request_slot :: "u64 \<Rightarrow> slot_view \<Rightarrow> u64 \<Rightarrow> (crawl_error + admission) \<times> u64" where
  "reserve_request_slot limit v admissions =
     (if \<not> sv_locked v then (Inl crawler_gone, admissions)
      else if \<not> sv_queue v then (Inr Untracked, admissions)
      else case request_count (sv_handled v) (sv_pending v) of
        None \<Rightarrow> (Inr Untracked, admissions)
      | Some queue_count \<Rightarrow>
          (case synchronize_enqueue_admissions (sv_alive v) queue_count admissions of
             (Inl e, a) \<Rightarrow> (Inl e, a)
           | (Inr admitted, a) \<Rightarrow>
               if limit \<le> admitted then (Inr Rejected, a)
               else (case reserve_enqueue_admission (sv_alive v) a of
                   (Inl e, a') \<Rightarrow> (Inl e, a')
                 | (Inr _, a') \<Rightarrow> (Inr Reserved, a'))))"

definition queue_view :: "('q, 'u, 'j) queue_ops \<Rightarrow> 'q \<Rightarrow> slot_view" where
  "queue_view Q q = \<lparr>sv_locked = True, sv_queue = True, sv_handled = Some (q_handled_count Q q),
     sv_pending = Some (q_pending_count Q q), sv_alive = True\<rparr>"

section \<open>A sender\<close>

record enqueue_result =
  er_added :: "processed_request list"
  er_skipped :: "(string \<times> skip_reason) list"

text \<open>
  The variables of \<open>send\<close> after the screening: candidates left, the one whose transform runs (with its
  URL text and whether it holds a reservation), the requests with their reservations, what was skipped,
  the batch that is awaited, and the result.
\<close>

record ('u, 'j) sender =
  sd_todo :: "('u \<times> 'j pattern_overrides) list"
  sd_current :: "(string \<times> ('u, 'j) request \<times> bool) option"
  sd_requests :: "('u, 'j) request list"
  sd_reservations :: "bool list"
  sd_skipped :: "(string \<times> skip_reason) list"
  sd_batch :: "batch_add_handle option"
  sd_outcome :: "(crawl_error + enqueue_result) option"

type_synonym ('q, 'u, 'j) sending = "('u, 'j) sender \<times> 'q crawler_shared"

definition note_skips :: "crawl_policy \<Rightarrow> (string \<times> skip_reason) list \<Rightarrow> 'q crawler_shared \<Rightarrow> 'q crawler_shared" where
  "note_skips policy skips cs = (if cp_on_skipped policy then cs\<lparr>cs_skip_calls := cs_skip_calls cs @ skips\<rparr> else cs)"

definition report_skip :: "crawl_policy \<Rightarrow> string \<Rightarrow> skip_reason \<Rightarrow> ('q, 'u, 'j) sending \<Rightarrow> ('q, 'u, 'j) sending" where
  "report_skip policy url reason s =
     ((fst s)\<lparr>sd_skipped := sd_skipped (fst s) @ [(url, reason)]\<rparr>, note_skips policy [(url, reason)] (snd s))"

text \<open>\<open>send\<close> up to the second loop.\<close>

definition start_sender ::
  "('u, 'j) externals \<Rightarrow> 'u link_externals \<Rightarrow> crawl_policy \<Rightarrow> 'u enqueue_linker \<Rightarrow> ('u, 'j) enqueue_options
     \<Rightarrow> 'q crawler_shared \<Rightarrow> (crawl_error + ('u, 'j) sender) \<times> 'q crawler_shared" where
  "start_sender X L policy linker opts cs =
     (case gather_candidates linker opts of
        Inl e \<Rightarrow> (Inl e, cs)
      | Inr cands \<Rightarrow>
     (case compile_include_patterns L (lo_globs opts) of
        Inl e \<Rightarrow> (Inl e, cs)
      | Inr globs \<Rightarrow>
     (case compile_patterns L (lo_exclude opts) of
        Inl e \<Rightarrow> (Inl e, cs)
      | Inr excludes \<Rightarrow>
          let strategy = (case lo_strategy opts of Some s \<Rightarrow> s | None \<Rightarrow> cp_strategy policy);
              screened = map (screen_candidate X L strategy linker opts globs excludes) cands
          in (Inr \<lparr>sd_todo = retained X (lo_limit opts) (rights screened), sd_current = None, sd_requests = [],
                sd_reservations = [], sd_skipped = lefts screened, sd_batch = None, sd_outcome = None\<rparr>,
              note_skips policy (lefts screened) cs))))"

definition outstanding :: "('u, 'j) sender \<Rightarrow> nat" where
  "outstanding sd = length (filter id (sd_reservations sd))
     + (case sd_current sd of Some (_, _, True) \<Rightarrow> 1 | _ \<Rightarrow> 0)"

text \<open>An error, or the cancellation of the task: the sender's reservations are dropped.\<close>

definition fail_sender :: "crawl_error \<Rightarrow> ('q, 'u, 'j) sending \<Rightarrow> ('q, 'u, 'j) sending" where
  "fail_sender error s =
     ((fst s)\<lparr>sd_outcome := Some (Inl error), sd_current := None, sd_reservations := []\<rparr>,
      drop_reservations (outstanding (fst s)) (snd s))"

definition build_request ::
  "('u, 'j) externals \<Rightarrow> 'u enqueue_linker \<Rightarrow> ('u, 'j) enqueue_options \<Rightarrow> 'u \<Rightarrow> 'j pattern_overrides
     \<Rightarrow> request_build_error + ('u, 'j) request" where
  "build_request X linker opts url ov =
     (let b0 = b_crawl_depth (sat_add (el_parent_depth linker) 1) (b_url (Inr url) builder);
          b1 = (case (case po_label ov of Some l \<Rightarrow> Some l | None \<Rightarrow> lo_label opts) of Some l \<Rightarrow> b_label l b0 | None \<Rightarrow> b0);
          b2 = (case (case po_user_data ov of Some d \<Rightarrow> Some d | None \<Rightarrow> lo_user_data opts) of
                  Some d \<Rightarrow> b_user_data d b1 | None \<Rightarrow> b1);
          b3 = (case po_method ov of Some m \<Rightarrow> b_method m b2 | None \<Rightarrow> b2);
          b4 = (case po_headers ov of Some hs \<Rightarrow> b_headers hs b3 | None \<Rightarrow> b3)
      in build X b4)"

definition build_turn ::
  "('u, 'j) externals \<Rightarrow> crawl_policy \<Rightarrow> 'u enqueue_linker \<Rightarrow> ('u, 'j) enqueue_options \<Rightarrow> slot_view
     \<Rightarrow> 'u \<times> 'j pattern_overrides \<Rightarrow> ('q, 'u, 'j) sending \<Rightarrow> ('q, 'u, 'j) sending" where
  "build_turn X policy linker opts v c s =
     (let text = url_string X (fst c); child_depth = sat_add (el_parent_depth linker) 1 in
      case build_request X linker opts (fst c) (snd c) of
        Inl _ \<Rightarrow> report_skip policy text InvalidUrlReason s
      | Inr request \<Rightarrow>
          (case (case cp_max_crawl_depth policy of Some limit \<Rightarrow> if limit < child_depth then Some limit else None | None \<Rightarrow> None) of
             Some limit \<Rightarrow> report_skip policy text (MaxDepthExceeded child_depth limit) s
           | None \<Rightarrow>
          (case cp_max_requests_per_crawl policy of
             None \<Rightarrow> ((fst s)\<lparr>sd_current := Some (text, request, False)\<rparr>, snd s)
           | Some limit \<Rightarrow>
               let (r, a) = reserve_request_slot limit v (cs_admissions (snd s));
                   cs1 = (snd s)\<lparr>cs_admissions := a\<rparr>
               in case r of
                    Inl e \<Rightarrow> fail_sender e (fst s, cs1)
                  | Inr Rejected \<Rightarrow> report_skip policy text (MaxRequestsReached limit) (fst s, cs1)
                  | Inr Reserved \<Rightarrow> ((fst s)\<lparr>sd_current := Some (text, request, True)\<rparr>, cs1)
                  | Inr Untracked \<Rightarrow> ((fst s)\<lparr>sd_current := Some (text, request, False)\<rparr>, cs1))))"

definition rekey :: "('u, 'j) externals \<Rightarrow> string \<Rightarrow> ('u, 'j) request \<Rightarrow> ('u, 'j) request" where
  "rekey X pre_transform_unique_key r =
     (if req_unique_key r = pre_transform_unique_key then
        let key = compute_unique_key X (req_url r) (req_method r) (req_body r) in
        r\<lparr>req_unique_key := key, req_id := from_unique_key key\<rparr>
      else r)"

definition transform_turn ::
  "('u, 'j) externals \<Rightarrow> crawl_policy \<Rightarrow> ('u, 'j) enqueue_options \<Rightarrow> string \<Rightarrow> ('u, 'j) request \<Rightarrow> bool
     \<Rightarrow> ('q, 'u, 'j) sending \<Rightarrow> ('q, 'u, 'j) sending" where
  "transform_turn X policy opts text request reserved s =
     (let (tr, request1) = (case lo_transform opts of None \<Rightarrow> (TransformEnqueue, request) | Some t \<Rightarrow> t request);
          sd = (fst s)\<lparr>sd_current := None\<rparr>
      in case tr of
           TransformSkip reason \<Rightarrow> report_skip policy text (TransformRejected reason)
             (sd, if reserved then drop_reservations 1 (snd s) else snd s)
         | TransformEnqueue \<Rightarrow>
             (sd\<lparr>sd_requests := sd_requests sd @ [rekey X (req_unique_key request) request1],
                 sd_reservations := sd_reservations sd @ [reserved]\<rparr>, snd s))"

definition add_turn ::
  "('q, 'u, 'j) add_batch_op \<Rightarrow> ('u, 'j) enqueue_options \<Rightarrow> bool \<Rightarrow> bool \<Rightarrow> ('q, 'u, 'j) sending \<Rightarrow> ('q, 'u, 'j) sending" where
  "add_turn B opts alive timed_out s =
     (case add_requests_with_options B alive timed_out (sd_requests (fst s)) \<lparr>add_forefront = lo_forefront opts\<rparr> (snd s) of
        (Inl e, cs) \<Rightarrow> fail_sender e (fst s, cs)
      | (Inr batch, cs) \<Rightarrow> ((fst s)\<lparr>sd_batch := Some batch\<rparr>, cs))"

text \<open>
  The last loop: what is added, what is skipped as a duplicate, and the reservations that are dropped
  (those of duplicates, and those left when the batch reports fewer requests).
\<close>

fun settle_batch ::
  "string list \<Rightarrow> processed_request list \<Rightarrow> bool list
     \<Rightarrow> processed_request list \<times> (string \<times> skip_reason) list \<times> nat" where
  "settle_batch urls [] reservations = ([], [], length (filter id reservations))"
| "settle_batch urls (p # ps) reservations =
     (let reserved = (case reservations of r # _ \<Rightarrow> r | [] \<Rightarrow> False);
          (added, skips, dropped) = settle_batch (tl urls) ps (tl reservations)
      in if pr_was_already_present p \<or> pr_was_already_handled p then
           (added, (case urls of u # _ \<Rightarrow> u | [] \<Rightarrow> pr_unique_key p, DuplicateUniqueKey) # skips,
            if reserved then Suc dropped else dropped)
         else (p # added, skips, dropped))"

definition settle_turn ::
  "('u, 'j) externals \<Rightarrow> crawl_policy \<Rightarrow> batch_add_handle \<Rightarrow> ('q, 'u, 'j) sending \<Rightarrow> ('q, 'u, 'j) sending" where
  "settle_turn X policy batch s =
     (case batch_wait batch of
        Inl e \<Rightarrow> fail_sender (crawl_error_of_storage e) s
      | Inr processed \<Rightarrow>
          let (added, skips, dropped) = settle_batch (map (\<lambda>r. url_string X (req_url r)) (sd_requests (fst s))) processed
                (sd_reservations (fst s));
              sd = (fst s)\<lparr>sd_skipped := sd_skipped (fst s) @ skips, sd_reservations := []\<rparr>
          in (sd\<lparr>sd_outcome := Some (Inr \<lparr>er_added = added, er_skipped = sd_skipped sd\<rparr>)\<rparr>,
              drop_reservations dropped (note_skips policy skips (snd s))))"

text \<open>What the awaited calls of a turn returned.\<close>

record awaited =
  aw_view :: slot_view
  aw_alive :: bool
  aw_timed_out :: bool

definition sender_turn ::
  "('u, 'j) externals \<Rightarrow> ('q, 'u, 'j) add_batch_op \<Rightarrow> crawl_policy \<Rightarrow> 'u enqueue_linker \<Rightarrow> ('u, 'j) enqueue_options
     \<Rightarrow> awaited \<Rightarrow> ('q, 'u, 'j) sending \<Rightarrow> ('q, 'u, 'j) sending" where
  "sender_turn X B policy linker opts w s =
     (case sd_outcome (fst s) of
        Some _ \<Rightarrow> s
      | None \<Rightarrow>
     (case sd_current (fst s) of
        Some (text, request, reserved) \<Rightarrow> transform_turn X policy opts text request reserved s
      | None \<Rightarrow>
     (case sd_todo (fst s) of
        c # rest \<Rightarrow> build_turn X policy linker opts (aw_view w) c ((fst s)\<lparr>sd_todo := rest\<rparr>, snd s)
      | [] \<Rightarrow>
     (case sd_batch (fst s) of
        None \<Rightarrow> add_turn B opts (aw_alive w) (aw_timed_out w) s
      | Some batch \<Rightarrow> settle_turn X policy batch s))))"

section \<open>Concurrent senders\<close>

text \<open>
  The senders of a crawl with the shared state. \<open>A\<close> restricts what awaited calls may return. The queue
  changes at any time, and a sender may be cancelled at any await point.
\<close>

type_synonym ('q, 'u, 'j) world =
  "('u enqueue_linker \<times> ('u, 'j) enqueue_options \<times> ('u, 'j) sender) list \<times> 'q crawler_shared"

inductive enqueue_step ::
  "('u, 'j) externals \<Rightarrow> 'u link_externals \<Rightarrow> ('q, 'u, 'j) add_batch_op \<Rightarrow> crawl_policy \<Rightarrow> (awaited \<Rightarrow> bool)
     \<Rightarrow> ('q, 'u, 'j) world \<Rightarrow> ('q, 'u, 'j) world \<Rightarrow> bool"
  for X L B policy A where
  start: "start_sender X L policy linker opts cs = (Inr sd, cs') \<Longrightarrow>
     enqueue_step X L B policy A (ss, cs) (ss @ [(linker, opts, sd)], cs')"
| turn: "i < length ss \<Longrightarrow> ss ! i = (linker, opts, sd) \<Longrightarrow> A w \<Longrightarrow>
     sender_turn X B policy linker opts w (sd, cs) = (sd', cs') \<Longrightarrow>
     enqueue_step X L B policy A (ss, cs) (ss[i := (linker, opts, sd')], cs')"
| cancel: "i < length ss \<Longrightarrow> ss ! i = (linker, opts, sd) \<Longrightarrow> sd_outcome sd = None \<Longrightarrow>
     fail_sender e (sd, cs) = (sd', cs') \<Longrightarrow>
     enqueue_step X L B policy A (ss, cs) (ss[i := (linker, opts, sd')], cs')"
| queue: "enqueue_step X L B policy A (ss, cs) (ss, cs\<lparr>cs_queue := q\<rparr>)"

end
