(* ===== verification/Enqueue_Limits.thy ===== *)
theory Enqueue_Limits
  imports Enqueue Memory_Queue
begin

text \<open>
  What enqueueing guarantees: all concurrent senders together accept no more requests than the policy
  allows, what is accepted passed the filters, and every candidate is accounted for.
\<close>

section \<open>Reservations\<close>

definition accepted :: "('u, 'j) sender \<Rightarrow> nat" where
  "accepted sd = (case sd_outcome sd of Some (Inr r) \<Rightarrow> length (er_added r) | _ \<Rightarrow> 0)"

abbreviation weight :: "('u, 'j) sender \<Rightarrow> nat" where
  "weight sd \<equiv> outstanding sd + accepted sd"

text \<open>A batch reports one entry per request (the queue trait's \<open>add_batch\<close>).\<close>

definition one_per_request :: "('q, 'u, 'j) add_batch_op \<Rightarrow> bool" where
  "one_per_request B \<longleftrightarrow> (\<forall>rs opts q h q' ps. B rs opts q = (Inr h, q') \<longrightarrow> batch_wait h = Inr ps \<longrightarrow> length ps = length rs)"

text \<open>The queue could be asked and both of its counters could be read.\<close>

definition counts_known :: "awaited \<Rightarrow> bool" where
  "counts_known w \<longleftrightarrow> sv_queue (aw_view w) \<and> sv_handled (aw_view w) \<noteq> None \<and> sv_pending (aw_view w) \<noteq> None"

definition sender_ok :: "('u, 'j) sender \<Rightarrow> bool" where
  "sender_ok sd \<longleftrightarrow> list_all id (sd_reservations sd)
     \<and> (\<forall>text r b. sd_current sd = Some (text, r, b) \<longrightarrow> b)
     \<and> (sd_outcome sd = None \<longrightarrow> length (sd_reservations sd) = length (sd_requests sd)
          \<and> (\<forall>b ps. sd_batch sd = Some b \<longrightarrow> batch_wait b = Inr ps \<longrightarrow> length ps = length (sd_requests sd)))"

lemma filter_id_all: "list_all id bs \<Longrightarrow> length (filter id bs) = length bs"
  by (induction bs) auto

lemma outstanding_ok:
  "sender_ok sd \<Longrightarrow> outstanding sd = length (sd_reservations sd) + (if sd_current sd = None then 0 else 1)"
  by (auto simp: sender_ok_def outstanding_def filter_id_all split: option.splits bool.splits)

lemma settle_batch_counts:
  "settle_batch urls ps rs = (added, skips, dropped) \<Longrightarrow> length added + length skips = length ps
     \<and> (list_all id rs \<longrightarrow> length ps = length rs \<longrightarrow> length added + dropped = length rs)"
proof (induction urls ps rs arbitrary: added skips dropped rule: settle_batch.induct)
  case (1 urls reservations)
  then show ?case by (auto simp: filter_id_all)
next
  case (2 urls p ps reservations)
  obtain a s d where r: "settle_batch (tl urls) ps (tl reservations) = (a, s, d)" by (rule prod_cases3)
  from 2(2) r have "(added, skips, dropped) =
      (if pr_was_already_present p \<or> pr_was_already_handled p then
         (a, (case urls of u # _ \<Rightarrow> u | [] \<Rightarrow> pr_unique_key p, DuplicateUniqueKey) # s,
          if case reservations of r # _ \<Rightarrow> r | [] \<Rightarrow> False then Suc d else d)
       else (p # a, s, d))" by (simp add: Let_def)
  then show ?case using 2(1) [OF refl r] by (cases reservations) (auto split: if_splits)
qed

lemma drop_reservations_admissions:
  "k \<le> unat (cs_admissions cs) \<Longrightarrow> unat (cs_admissions (drop_reservations k cs)) = unat (cs_admissions cs) - k"
proof -
  assume k: "k \<le> unat (cs_admissions cs)"
  moreover have "unat (cs_admissions cs) < 2 ^ 64" using unsigned_less [of "cs_admissions cs"] by simp
  ultimately have "k < 2 ^ 64" by (rule order_le_less_trans)
  then have "unat (word_of_nat k :: u64) = k" by (intro unat_of_nat_small) simp
  then show ?thesis using k by (simp add: drop_reservations_def unat_sub word_le_nat_alt)
qed

text \<open>The sender together with the others (\<open>n\<close>) stays below the counter and below the limit.\<close>

definition within :: "u64 \<Rightarrow> nat \<Rightarrow> ('q, 'u, 'j) sending \<Rightarrow> bool" where
  "within limit n s \<longleftrightarrow> sender_ok (fst s) \<and> weight (fst s) + n \<le> unat (cs_admissions (snd s)) \<and> weight (fst s) + n \<le> unat limit"

lemma note_skips_admissions [simp]: "cs_admissions (note_skips policy skips cs) = cs_admissions cs"
  by (simp add: note_skips_def)

lemma within_skip: "within limit n s \<Longrightarrow> within limit n (report_skip policy url reason s)"
  by (auto simp: within_def report_skip_def sender_ok_def outstanding_def accepted_def)

lemma within_fail:
  assumes "within limit n s" and "sd_outcome (fst s) = None"
  shows "within limit n (fail_sender e s)"
proof -
  have "outstanding (fst s) + n \<le> unat (cs_admissions (snd s))" "outstanding (fst s) + n \<le> unat limit"
    using assms by (auto simp: within_def)
  then show ?thesis using drop_reservations_admissions [of "outstanding (fst s)" "snd s"]
    by (auto simp: within_def fail_sender_def sender_ok_def outstanding_def accepted_def)
qed

lemma within_grow:
  assumes "within limit n (sd, cs)" and "a = cs_admissions cs \<or> cs_admissions cs \<le> a"
  shows "within limit n (sd, cs\<lparr>cs_admissions := a\<rparr>)"
  using assms by (auto simp: within_def word_le_nat_alt)

lemma reserve_request_slot_cases:
  assumes "reserve_request_slot limit v a = (r, a')" and "counts_known w" and "v = aw_view w"
  shows "a \<le> a' \<and> (r = Inr Reserved \<longrightarrow> a' \<le> limit \<and> unat a < unat a') \<and> r \<noteq> Inr Untracked"
proof -
  have inc: "unat (b + 1) = Suc (unat b)" if "\<not> limit \<le> b" for b
    using that unat_inc [of b] unat_not_max [of b] by (metis linorder_not_le max_word_max)
  obtain qc where "request_count (sv_handled v) (sv_pending v) = Some qc" "sv_queue v"
    using assms(2,3) by (auto simp: counts_known_def request_count_def)
  moreover have "unat a < unat (max a qc + 1) \<and> a \<le> max a qc + 1 \<and> max a qc + 1 \<le> limit" if "\<not> limit \<le> max a qc"
    using inc [OF that] that by (simp add: word_le_nat_alt word_less_nat_alt max_def split: if_splits)
  ultimately show ?thesis using assms(1)
    by (auto simp: reserve_request_slot_def synchronize_enqueue_admissions_def reserve_enqueue_admission_def
        split: if_splits intro: max.cobounded1)
qed

lemma within_build:
  assumes "within limit n s" and "cp_max_requests_per_crawl policy = Some limit" and "counts_known w"
    and "sd_outcome (fst s) = None" and "sd_current (fst s) = None"
  shows "within limit n (build_turn X policy linker opts (aw_view w) c s)"
proof -
  obtain r a where r: "reserve_request_slot limit (aw_view w) (cs_admissions (snd s)) = (r, a)" by fastforce
  note c = reserve_request_slot_cases [OF r assms(3) refl]
  have g: "within limit n (fst s, snd s\<lparr>cs_admissions := a\<rparr>)"
    using within_grow [of limit n "fst s" "snd s" a] assms(1) c by simp
  have "within limit n ((fst s)\<lparr>sd_current := Some (u, q, True)\<rparr>, snd s\<lparr>cs_admissions := a\<rparr>)" if "r = Inr Reserved" for u q
    using assms(1,4,5) c that by (auto simp: within_def sender_ok_def outstanding_def accepted_def word_le_nat_alt)
  then show ?thesis using assms c g within_skip [OF assms(1)] within_skip [OF g] within_fail [OF g]
    by (simp add: build_turn_def Let_def r split: sum.splits option.splits admission.splits)
qed

lemma within_transform:
  assumes "within limit n s" and "sd_outcome (fst s) = None" and "sd_batch (fst s) = None"
    and "sd_current (fst s) = Some (text, request, reserved)"
  shows "within limit n (transform_turn X policy opts text request reserved s)"
proof -
  have res: "reserved" and le: "outstanding (fst s) + n \<le> unat (cs_admissions (snd s))" "outstanding (fst s) + n \<le> unat limit"
    using assms by (auto simp: within_def sender_ok_def)
  have o: "outstanding (fst s) = Suc (outstanding ((fst s)\<lparr>sd_current := None\<rparr>))"
    using res assms(4) by (simp add: outstanding_def)
  have d: "within limit n ((fst s)\<lparr>sd_current := None\<rparr>, drop_reservations 1 (snd s))"
    using assms(1,2) le drop_reservations_admissions [of 1 "snd s"] o
    by (auto simp: within_def sender_ok_def accepted_def)
  have "within limit n ((fst s)\<lparr>sd_current := None, sd_requests := sd_requests (fst s) @ [q],
      sd_reservations := sd_reservations (fst s) @ [reserved]\<rparr>, snd s)" for q
    using assms res le by (auto simp: within_def sender_ok_def outstanding_def accepted_def)
  then show ?thesis using res within_skip [OF d]
    by (auto simp: transform_turn_def Let_def split: prod.splits transform_result.splits)
qed

lemma within_add:
  assumes "within limit n s" and "one_per_request B" and "sd_outcome (fst s) = None" and "sd_current (fst s) = None"
  shows "within limit n (add_turn B opts alive timed_out s)"
proof -
  obtain r cs where r: "add_requests_with_options B alive timed_out (sd_requests (fst s))
      \<lparr>add_forefront = lo_forefront opts\<rparr> (snd s) = (r, cs)" by fastforce
  then have cs: "cs_admissions cs = cs_admissions (snd s)"
    by (auto simp: add_requests_with_options_def Let_def split: if_splits prod.splits sum.splits)
  then have w: "within limit n (fst s, cs)" using assms(1) by (simp add: within_def)
  have "length ps = length (sd_requests (fst s))" if h: "r = Inr h" and ps: "batch_wait h = Inr ps" for h ps
  proof -
    obtain h' q where h': "B (map SourceRequest (sd_requests (fst s))) \<lparr>add_forefront = lo_forefront opts\<rparr> (cs_queue (snd s)) = (Inr h', q)"
      "h = fst (notify_on_completion h' (cs_notified (snd s)))"
      using r h by (auto simp: add_requests_with_options_def Let_def split: if_splits prod.splits sum.splits)
    then have "batch_wait h' = Inr ps" using ps notify_on_completion_wait [of h' "cs_notified (snd s)"] by simp
    with h'(1) assms(2) show ?thesis unfolding one_per_request_def by (metis length_map)
  qed
  with w have "within limit n ((fst s)\<lparr>sd_batch := Some h\<rparr>, cs)" if "r = Inr h" for h
    using that by (auto simp: within_def sender_ok_def outstanding_def accepted_def)
  then show ?thesis using within_fail [OF w] assms(3) by (auto simp: add_turn_def r split: sum.splits)
qed

lemma within_settle:
  assumes "within limit n s" and "sd_outcome (fst s) = None" and "sd_current (fst s) = None" and "sd_batch (fst s) = Some batch"
  shows "within limit n (settle_turn X policy batch s)"
proof (cases "batch_wait batch")
  case (Inl e)
  then show ?thesis using within_fail [OF assms(1,2)] by (simp add: settle_turn_def)
next
  case (Inr ps)
  obtain added skips dropped where b:
    "settle_batch (map (\<lambda>r. url_string X (req_url r)) (sd_requests (fst s))) ps (sd_reservations (fst s)) = (added, skips, dropped)"
    by (rule prod_cases3)
  have ok: "sender_ok (fst s)" using assms(1) by (simp add: within_def)
  then have "list_all id (sd_reservations (fst s))" "length ps = length (sd_reservations (fst s))"
    using assms(2,4) Inr unfolding sender_ok_def by auto
  with settle_batch_counts [OF b] have c: "length added + dropped = length (sd_reservations (fst s))" by simp
  have o: "outstanding (fst s) = length (sd_reservations (fst s))" using outstanding_ok [OF ok] assms(3) by simp
  have a: "accepted (fst s) = 0" using assms(2) by (simp add: accepted_def)
  have le: "length added + dropped + n \<le> unat (cs_admissions (snd s))" "length added + dropped + n \<le> unat limit"
    using assms(1) o c a by (simp_all add: within_def)
  then have "unat (cs_admissions (drop_reservations dropped (note_skips policy skips (snd s)))) = unat (cs_admissions (snd s)) - dropped"
    by (subst drop_reservations_admissions) simp_all
  then show ?thesis using le assms(3)
    by (auto simp: settle_turn_def Inr b within_def sender_ok_def outstanding_def accepted_def)
qed

lemma within_turn:
  assumes "within limit n s" and "cp_max_requests_per_crawl policy = Some limit" and "counts_known w" and "one_per_request B"
    and "sd_outcome (fst s) = None \<longrightarrow> sd_current (fst s) \<noteq> None \<longrightarrow> sd_batch (fst s) = None"
  shows "within limit n (sender_turn X B policy linker opts w s)"
proof -
  have t: "within limit n ((fst s)\<lparr>sd_todo := rest\<rparr>, snd s)" for rest
    using assms(1) by (auto simp: within_def sender_ok_def outstanding_def accepted_def)
  have build: "within limit n (build_turn X policy linker opts (aw_view w) c ((fst s)\<lparr>sd_todo := rest\<rparr>, snd s))"
    if "sd_outcome (fst s) = None" "sd_current (fst s) = None" for c rest
    by (rule within_build [OF t assms(2,3)]) (use that in simp_all)
  show ?thesis using assms build within_transform [OF assms(1)] within_add [OF assms(1,4)] within_settle [OF assms(1)]
    by (auto simp: sender_turn_def split: option.splits list.splits)
qed

text \<open>A sender awaits its batch only after the last candidate.\<close>

definition batch_last :: "('u, 'j) sender \<Rightarrow> bool" where
  "batch_last sd \<longleftrightarrow> (sd_outcome sd = None \<longrightarrow> sd_batch sd \<noteq> None \<longrightarrow> sd_current sd = None \<and> sd_todo sd = [])"

lemma batch_last_fail: "batch_last (fst (fail_sender e s))"
  by (simp add: batch_last_def fail_sender_def)

lemma turn_keeps_batch:
  "sd_batch (fst (report_skip policy url reason s)) = sd_batch (fst s)"
  "sd_batch (fst (fail_sender e s)) = sd_batch (fst s)"
  "sd_batch (fst (build_turn X policy linker opts v c s)) = sd_batch (fst s)"
  "sd_batch (fst (transform_turn X policy opts u q b s)) = sd_batch (fst s)"
proof -
  show skip: "sd_batch (fst (report_skip policy url reason s)) = sd_batch (fst s)" for url reason and s :: "('q, 'u, 'j) sending"
    by (simp add: report_skip_def)
  show fail: "sd_batch (fst (fail_sender e s)) = sd_batch (fst s)" for e and s :: "('q, 'u, 'j) sending"
    by (simp add: fail_sender_def)
  show "sd_batch (fst (build_turn X policy linker opts v c s)) = sd_batch (fst s)"
    by (simp add: build_turn_def skip fail Let_def split: sum.split option.split prod.split admission.split)
  show "sd_batch (fst (transform_turn X policy opts u q b s)) = sd_batch (fst s)"
    by (simp add: transform_turn_def skip Let_def split: prod.split transform_result.split)
qed

lemma batch_last_turn:
  assumes "batch_last (fst s)"
  shows "batch_last (fst (sender_turn X B policy linker opts w s))"
proof (cases "sd_outcome (fst s) = None")
  case False
  then show ?thesis using assms by (auto simp: sender_turn_def)
next
  case None: True
  show ?thesis
  proof (cases "sd_current (fst s) = None \<and> sd_todo (fst s) = []")
    case True
    have "batch_last (fst (add_turn B opts a t s))" for a t
      using True by (auto simp: add_turn_def batch_last_fail split: prod.split sum.split) (simp add: batch_last_def)
    moreover have "batch_last (fst (settle_turn X policy b s))" for b
      by (auto simp: settle_turn_def batch_last_fail Let_def split: prod.split sum.split) (simp add: batch_last_def)
    ultimately show ?thesis using True None by (auto simp: sender_turn_def split: option.split)
  next
    case False
    then have "sd_batch (fst s) = None" using assms None by (auto simp: batch_last_def)
    then have "sd_batch (fst (sender_turn X B policy linker opts w s)) = None"
      using None False by (auto simp: sender_turn_def turn_keeps_batch split: option.splits list.splits)
    then show ?thesis by (simp add: batch_last_def)
  qed
qed

section \<open>All senders together\<close>

definition world_ok :: "u64 \<Rightarrow> ('q, 'u, 'j) world \<Rightarrow> bool" where
  "world_ok limit W \<longleftrightarrow> (\<forall>(_, _, sd) \<in> set (fst W). sender_ok sd \<and> batch_last sd)
     \<and> (\<Sum>(_, _, sd) \<leftarrow> fst W. weight sd) \<le> unat (cs_admissions (snd W))
     \<and> (\<Sum>(_, _, sd) \<leftarrow> fst W. weight sd) \<le> unat limit"

lemma world_update:
  assumes "world_ok limit (ss, cs)" and "i < length ss" and "ss ! i = (linker, opts, sd)"
    and "\<And>n. within limit n (sd, cs) \<Longrightarrow> within limit n (sd', cs')" and "batch_last sd'"
  shows "world_ok limit (ss[i := (linker, opts, sd')], cs')"
proof -
  let ?f = "\<lambda>(_, _, sd). weight sd"
  let ?n = "sum_list (map ?f ss) - weight sd"
  have i: "?f (ss ! i) \<le> sum_list (map ?f ss)" using elem_le_sum_list [of i "map ?f ss"] assms(2) by simp
  have "sender_ok sd" using assms(1-3) nth_mem [OF assms(2)] by (auto simp: world_ok_def)
  then have "within limit ?n (sd, cs)" using assms(1,3) i by (simp add: world_ok_def within_def)
  from assms(4) [OF this] have w: "within limit ?n (sd', cs')" .
  have "sum_list (map ?f (ss[i := (linker, opts, sd')])) = ?n + weight sd'"
    using assms(2,3) i by (simp add: map_update sum_list_update)
  then show ?thesis using w assms(1,5) by (auto simp: world_ok_def within_def dest!: set_update_subset_insert [THEN subsetD])
qed

lemma start_sender_fresh:
  assumes "start_sender X L policy linker opts cs = (Inr sd, cs')"
  shows "sender_ok sd \<and> batch_last sd \<and> weight sd = 0 \<and> cs_admissions cs' = cs_admissions cs"
  using assms by (auto simp: start_sender_def Let_def sender_ok_def batch_last_def outstanding_def accepted_def
      split: sum.splits)

lemma world_step:
  assumes "enqueue_step X L B policy counts_known W W'" and "cp_max_requests_per_crawl policy = Some limit"
    and "one_per_request B" and "world_ok limit W"
  shows "world_ok limit W'"
  using assms(1,4)
proof (cases rule: enqueue_step.cases)
  case (start linker opts cs sd cs' ss)
  then show ?thesis using start_sender_fresh [OF start(3)] assms(4) by (auto simp: world_ok_def)
next
  case (turn i ss linker opts sd w cs sd' cs')
  have b: "batch_last sd" using turn assms(4) nth_mem [OF turn(3)] by (auto simp: world_ok_def)
  have "within limit n (sd, cs) \<Longrightarrow> within limit n (sd', cs')" for n
    using within_turn [of limit n "(sd, cs)" policy w B X linker opts] turn assms(2,3) b by (auto simp: batch_last_def)
  then show ?thesis using world_update [of limit ss cs i linker opts sd sd' cs'] turn assms(4)
      batch_last_turn [of "(sd, cs)" X B policy linker opts w] b by simp
next
  case (cancel i ss linker opts sd e cs sd' cs')
  have "within limit n (sd, cs) \<Longrightarrow> within limit n (sd', cs')" for n
    using within_fail [of limit n "(sd, cs)" e] cancel by simp
  then show ?thesis using world_update [of limit ss cs i linker opts sd sd' cs'] cancel assms(4)
      batch_last_fail [of e "(sd, cs)"] by simp
next
  case (queue ss cs q)
  then show ?thesis using assms(4) by (simp add: world_ok_def)
qed

lemma world_run:
  assumes "(enqueue_step X L B policy counts_known)\<^sup>*\<^sup>* ([], cs) W" and "cp_max_requests_per_crawl policy = Some limit"
    and "one_per_request B"
  shows "world_ok limit W"
  using assms(1)
proof (induction rule: rtranclp_induct)
  case base
  show ?case by (simp add: world_ok_def)
next
  case (step y z)
  then show ?case using world_step assms(2,3) by blast
qed

lemma mem_one_per_request: "one_per_request (mem_add_batch X)"
proof -
  have "length (fst (mem_add_all X rs opts q)) = length rs" for rs opts q
    by (induction X rs opts q rule: mem_add_all.induct) (auto split: prod.splits)
  then show ?thesis unfolding one_per_request_def mem_add_batch_def by (auto split: prod.splits) (metis fst_conv)
qed

section \<open>The life of one sender\<close>

text \<open>One turn of a sender, whatever the shared state has become meanwhile.\<close>

definition progress ::
  "('u, 'j) externals \<Rightarrow> ('q, 'u, 'j) add_batch_op \<Rightarrow> crawl_policy \<Rightarrow> 'u enqueue_linker \<Rightarrow> ('u, 'j) enqueue_options
     \<Rightarrow> ('u, 'j) sender \<Rightarrow> ('u, 'j) sender \<Rightarrow> bool" where
  "progress X B policy linker opts sd sd' \<longleftrightarrow> (\<exists>w cs. sd' = fst (sender_turn X B policy linker opts w (sd, cs)))"

definition tally :: "('u, 'j) sender \<Rightarrow> nat" where
  "tally sd = length (sd_todo sd) + (if sd_current sd = None then 0 else 1) + length (sd_requests sd) + length (sd_skipped sd)"

definition accounted :: "nat \<Rightarrow> (string \<times> skip_reason) list \<Rightarrow> ('u, 'j) sender \<Rightarrow> bool" where
  "accounted n skips sd \<longleftrightarrow> batch_last sd \<and> (\<exists>more. sd_skipped sd = skips @ more)
     \<and> (case sd_outcome sd of
          None \<Rightarrow> tally sd = n \<and> (\<forall>b ps. sd_batch sd = Some b \<longrightarrow> batch_wait b = Inr ps \<longrightarrow> length ps = length (sd_requests sd))
        | Some (Inr res) \<Rightarrow> length (er_added res) + length (er_skipped res) = n \<and> er_skipped res = sd_skipped sd
        | Some (Inl _) \<Rightarrow> True)"

lemma accounted_skip:
  assumes "accounted n skips sd0" and "sd_outcome sd0 = None" and "sd_batch sd0 = None"
    and "Suc (tally (fst s)) = tally sd0" and "sd_skipped (fst s) = sd_skipped sd0"
    and "sd_outcome (fst s) = None" and "sd_batch (fst s) = None"
  shows "accounted n skips (fst (report_skip policy url reason s))"
  using assms by (auto simp: accounted_def batch_last_def report_skip_def tally_def)

lemma accounted_fail: "accounted n skips (fst s) \<Longrightarrow> accounted n skips (fst (fail_sender e s))"
  by (simp add: accounted_def batch_last_def fail_sender_def)

lemma accounted_build:
  fixes cs :: "'q crawler_shared"
  assumes "accounted n skips sd" and "sd_outcome sd = None" and "sd_current sd = None" and "sd_todo sd = c # rest"
  shows "accounted n skips (fst (build_turn X policy linker opts v c (sd\<lparr>sd_todo := rest\<rparr>, cs)))"
proof -
  have b: "sd_batch sd = None" using assms by (auto simp: accounted_def batch_last_def)
  have skip: "accounted n skips (fst (report_skip policy u reason (sd\<lparr>sd_todo := rest\<rparr>, cs')))" for u reason and cs' :: "'q crawler_shared"
    by (rule accounted_skip [OF assms(1,2) b]) (use assms b in \<open>simp_all add: tally_def\<close>)
  have fail: "accounted n skips (fst (fail_sender e (sd\<lparr>sd_todo := rest\<rparr>, cs')))" for e and cs' :: "'q crawler_shared"
    using assms(1) by (simp add: accounted_def batch_last_def fail_sender_def)
  have cur: "accounted n skips (sd\<lparr>sd_todo := rest, sd_current := Some (u, q, r)\<rparr>)" for u q r
    using assms b by (simp add: accounted_def batch_last_def tally_def)
  show ?thesis by (simp add: build_turn_def Let_def skip fail cur split: sum.split option.split prod.split admission.split)
qed

lemma accounted_transform:
  fixes cs :: "'q crawler_shared"
  assumes "accounted n skips sd" and "sd_outcome sd = None" and "sd_current sd = Some (u, q, r)"
  shows "accounted n skips (fst (transform_turn X policy opts u q r (sd, cs)))"
proof -
  have b: "sd_batch sd = None" using assms by (auto simp: accounted_def batch_last_def)
  have "accounted n skips (fst (report_skip policy u reason (sd\<lparr>sd_current := None\<rparr>, cs')))" for u reason and cs' :: "'q crawler_shared"
    by (rule accounted_skip [OF assms(1,2) b]) (use assms b in \<open>simp_all add: tally_def\<close>)
  moreover have "accounted n skips (sd\<lparr>sd_current := None, sd_requests := sd_requests sd @ [x], sd_reservations := y\<rparr>)" for x y
    using assms b by (simp add: accounted_def batch_last_def tally_def)
  ultimately show ?thesis by (simp add: transform_turn_def Let_def split: prod.split transform_result.split)
qed

lemma add_requests_batch:
  assumes "add_requests_with_options B alive timed_out reqs opts cs = (Inr h, cs')" and "one_per_request B"
    and "batch_wait h = Inr ps"
  shows "length ps = length reqs"
proof -
  obtain h' q where h': "B (map SourceRequest reqs) opts (cs_queue cs) = (Inr h', q)"
    "h = fst (notify_on_completion h' (cs_notified cs))"
    using assms(1) by (auto simp: add_requests_with_options_def Let_def split: if_splits prod.splits sum.splits)
  then have "batch_wait h' = Inr ps" using assms(3) notify_on_completion_wait [of h' "cs_notified cs"] by simp
  with h'(1) assms(2) show ?thesis unfolding one_per_request_def by (metis length_map)
qed

lemma accounted_add:
  assumes "accounted n skips sd" and "sd_outcome sd = None" and "sd_current sd = None" and "sd_todo sd = []" and "one_per_request B"
  shows "accounted n skips (fst (add_turn B opts a t (sd, cs)))"
proof -
  obtain r cs' where r: "add_requests_with_options B a t (sd_requests sd) \<lparr>add_forefront = lo_forefront opts\<rparr> cs = (r, cs')"
    by fastforce
  show ?thesis
  proof (cases r)
    case (Inl e)
    then show ?thesis using accounted_fail [of n skips "(sd, cs')"] assms(1) by (simp add: add_turn_def r)
  next
    case (Inr h)
    then show ?thesis using assms add_requests_batch [OF r [unfolded Inr] assms(5)]
      by (auto simp: add_turn_def r accounted_def batch_last_def tally_def)
  qed
qed

lemma accounted_settle:
  assumes "accounted n skips sd" and "sd_outcome sd = None" and "sd_current sd = None" and "sd_todo sd = []" and "sd_batch sd = Some b"
  shows "accounted n skips (fst (settle_turn X policy b (sd, cs)))"
proof (cases "batch_wait b")
  case (Inl e)
  then show ?thesis using accounted_fail [of n skips "(sd, cs)"] assms(1) by (simp add: settle_turn_def)
next
  case (Inr ps)
  obtain added dups dropped where s:
    "settle_batch (map (\<lambda>r. url_string X (req_url r)) (sd_requests sd)) ps (sd_reservations sd) = (added, dups, dropped)"
    by (rule prod_cases3)
  have "length ps = length (sd_requests sd)" using assms Inr by (auto simp: accounted_def)
  then show ?thesis using assms settle_batch_counts [OF s]
    by (auto simp: settle_turn_def Inr s accounted_def batch_last_def tally_def)
qed

lemma accounted_turn:
  assumes "accounted n skips sd" and "one_per_request B"
  shows "accounted n skips (fst (sender_turn X B policy linker opts w (sd, cs)))"
proof (cases "sd_outcome sd")
  case (Some x)
  then show ?thesis using assms(1) by (simp add: sender_turn_def)
next
  case None
  consider u q r where "sd_current sd = Some (u, q, r)" | c rest where "sd_current sd = None" "sd_todo sd = c # rest"
    | "sd_current sd = None" "sd_todo sd = []" "sd_batch sd = None"
    | b where "sd_current sd = None" "sd_todo sd = []" "sd_batch sd = Some b"
    by (cases "sd_current sd"; cases "sd_todo sd"; cases "sd_batch sd") auto
  then show ?thesis
  proof cases
    case 1
    show ?thesis using accounted_transform [OF assms(1) None 1] 1 None by (simp add: sender_turn_def)
  next
    case 2
    show ?thesis using accounted_build [OF assms(1) None 2] 2 None by (simp add: sender_turn_def)
  next
    case 3
    then show ?thesis using accounted_add [OF assms(1) None _ _ assms(2)] None by (simp add: sender_turn_def)
  next
    case 4
    show ?thesis using accounted_settle [OF assms(1) None 4] 4 None by (simp add: sender_turn_def)
  qed
qed

lemma lefts_rights_length: "length (lefts rs) + length (rights rs) = length rs"
  by (induction rs) (auto simp: lefts_def rights_def map_filter_simps split: sum.split)

lemma progress_induct:
  assumes "(progress X B policy linker opts)\<^sup>*\<^sup>* sd sd'" and "P sd"
    and "\<And>sd w (cs :: 'q crawler_shared). P sd \<Longrightarrow> P (fst (sender_turn X (B :: ('q, 'u, 'j) add_batch_op) policy linker opts w (sd, cs)))"
  shows "P sd'"
  using assms(1)
proof (induction rule: rtranclp_induct)
  case base
  show ?case by (rule assms(2))
next
  case (step y z)
  then show ?case using assms(3) unfolding progress_def by blast
qed

section \<open>Filters\<close>

lemma build_url_depth: "build X b = Inr r \<Longrightarrow> rb_url b = Some (Inr (req_url r)) \<and> req_crawl_depth r = rb_crawl_depth b
    \<and> req_id r = from_unique_key (req_unique_key r)"
  by (auto simp: build_def Let_def split: option.splits sum.splits)

lemma build_request_result:
  "build_request X linker opts url ov = Inr r \<Longrightarrow> req_url r = url \<and> req_crawl_depth r = sat_add (el_parent_depth linker) 1
     \<and> req_id r = from_unique_key (req_unique_key r)"
  unfolding build_request_def Let_def
  by (drule build_url_depth)
    (simp add: b_crawl_depth_def b_url_def b_label_def b_user_data_def b_method_def b_headers_def split: option.splits)

lemma screen_candidate_admits:
  assumes "screen_candidate X L strategy linker opts globs excludes c = Inr (url, ov)"
  shows "\<exists>by_strategy. resolve_candidate X linker opts c = (Inr url, by_strategy)
    \<and> (by_strategy \<longrightarrow> strategy_allows X L strategy (el_parent_url linker) url)
    \<and> (\<forall>p \<in> set excludes. \<not> pattern_matches L p (url_string X url))
    \<and> (globs = [] \<and> lo_regex opts = [] \<or> (\<exists>g \<in> set globs. pattern_matches L (fst g) (url_string X url))
       \<or> (\<exists>x \<in> set (lo_regex opts). regex_is_match L x (url_string X url)))"
proof -
  obtain res st where r: "resolve_candidate X linker opts c = (res, st)" by fastforce
  have "find_map f excludes = None \<Longrightarrow> (\<forall>x \<in> set excludes. f x = None)" for f :: "compiled_pattern \<Rightarrow> skip_reason option"
    by (simp add: find_map_None)
  then have ex: "first_exclusion L excludes u = None \<Longrightarrow> \<forall>p \<in> set excludes. \<not> pattern_matches L p u" for u
    unfolding first_exclusion_def by (auto simp: find_map_None split: if_splits)
  show ?thesis
  proof (cases res)
    case (Inl raw)
    with assms r show ?thesis by (simp add: screen_candidate_def)
  next
    case (Inr u)
    from assms have u: "u = url" by (auto simp: screen_candidate_def r Inr Let_def split: if_splits option.splits)
    from assms have s: "st \<longrightarrow> strategy_allows X L strategy (el_parent_url linker) url"
      and e: "first_exclusion L excludes (url_string X url) = None"
      by (auto simp: screen_candidate_def r Inr u Let_def split: if_splits option.splits)
    let ?unmatched = "(globs \<noteq> [] \<or> lo_regex opts \<noteq> [])
      \<and> find (\<lambda>g. pattern_matches L (fst g) (url_string X url)) globs = None
      \<and> \<not> list_ex (\<lambda>r. regex_is_match L r (url_string X url)) (lo_regex opts)"
    have "\<exists>x y. screen_candidate X L strategy linker opts globs excludes c = (if ?unmatched then Inl x else Inr y)"
      using s e by (simp add: screen_candidate_def r Inr u Let_def)
    with assms have "\<not> ?unmatched" by (auto split: if_splits)
    then have "globs = [] \<and> lo_regex opts = [] \<or> (\<exists>g \<in> set globs. pattern_matches L (fst g) (url_string X url))
       \<or> (\<exists>x \<in> set (lo_regex opts). regex_is_match L x (url_string X url))"
      unfolding find_None_iff list_ex_iff by blast
    then show ?thesis using r Inr u s ex [OF e] by blast
  qed
qed

lemma retain_new_set: "set (retain_new f seen xs) \<subseteq> set xs \<and> distinct (map f (retain_new f seen xs))
    \<and> f ` set (retain_new f seen xs) \<inter> set seen = {}"
  by (induction f seen xs rule: retain_new.induct) auto

lemma retained_facts:
  "set (retained X limit cs) \<subseteq> set cs" "distinct (map (\<lambda>c. url_string X (fst c)) (retained X limit cs))"
  "limit = Some n \<Longrightarrow> length (retained X limit cs) \<le> n"
  using retain_new_set [of "\<lambda>c. url_string X (fst c)" "[]" cs]
  by (auto simp: retained_def Let_def take_map [symmetric] split: option.splits dest: in_set_takeD)

text \<open>What the requests of a sender without a transform are built from.\<close>

definition built_from ::
  "('u, 'j) externals \<Rightarrow> crawl_policy \<Rightarrow> 'u enqueue_linker \<Rightarrow> ('u, 'j) enqueue_options \<Rightarrow> 'u list \<Rightarrow> ('u, 'j) request \<Rightarrow> bool" where
  "built_from X policy linker opts urls r \<longleftrightarrow> req_url r \<in> set urls
     \<and> req_crawl_depth r = sat_add (el_parent_depth linker) 1
     \<and> (\<forall>limit. cp_max_crawl_depth policy = Some limit \<longrightarrow> req_crawl_depth r \<le> limit)
     \<and> req_id r = from_unique_key (req_unique_key r)"

definition sources ::
  "('u, 'j) externals \<Rightarrow> crawl_policy \<Rightarrow> 'u enqueue_linker \<Rightarrow> ('u, 'j) enqueue_options \<Rightarrow> 'u list \<Rightarrow> ('u, 'j) sender \<Rightarrow> bool" where
  "sources X policy linker opts urls sd \<longleftrightarrow>
     subseq (map req_url (sd_requests sd) @ (case sd_current sd of Some (_, q, _) \<Rightarrow> [req_url q] | None \<Rightarrow> [])
       @ map fst (sd_todo sd)) urls
     \<and> (\<forall>r \<in> set (sd_requests sd). built_from X policy linker opts urls r)
     \<and> (\<forall>u q b. sd_current sd = Some (u, q, b) \<longrightarrow> built_from X policy linker opts urls q)"

lemma subseq_drop_mid: "subseq (xs @ y # zs) us \<Longrightarrow> subseq (xs @ zs) us"
  by (rule subseq_order.trans [rotated]) (auto intro: list_emb_append_mono)

lemma sources_skip:
  "sources X policy linker opts urls (fst s) \<Longrightarrow> sources X policy linker opts urls (fst (report_skip policy' u reason s))"
  by (simp add: sources_def report_skip_def)

lemma sources_drop_todo:
  assumes "sources X policy linker opts urls sd" and "sd_current sd = None" and "sd_todo sd = c # rest"
  shows "sources X policy linker opts urls (sd\<lparr>sd_todo := rest\<rparr>)"
  using assms subseq_drop_mid [of "map req_url (sd_requests sd)" "fst c" "map fst rest" urls] by (simp add: sources_def)

lemma sources_fail:
  assumes "sources X policy linker opts urls (fst s)"
  shows "sources X policy linker opts urls (fst (fail_sender e s))"
proof (cases "sd_current (fst s)")
  case None
  then show ?thesis using assms by (simp add: sources_def fail_sender_def)
next
  case (Some p)
  obtain u q b where "p = (u, q, b)" by (rule prod_cases3)
  then show ?thesis using assms Some subseq_drop_mid [of "map req_url (sd_requests (fst s))" "req_url q" "map fst (sd_todo (fst s))" urls]
    by (simp add: sources_def fail_sender_def)
qed

lemma sources_build:
  fixes cs :: "'q crawler_shared"
  assumes "sources X policy linker opts urls sd" and "sd_current sd = None" and "sd_todo sd = c # rest"
  shows "sources X policy linker opts urls (fst (build_turn X policy linker opts v c (sd\<lparr>sd_todo := rest\<rparr>, cs)))"
proof -
  note d = sources_drop_todo [OF assms]
  have mem: "fst c \<in> set urls" using assms list_emb_set [of "(=)" _ urls "fst c"] unfolding sources_def by fastforce
  have cur: "sources X policy linker opts urls (sd\<lparr>sd_todo := rest, sd_current := Some (u, q, r)\<rparr>)"
    if "build_request X linker opts (fst c) (snd c) = Inr q"
      "\<forall>limit. cp_max_crawl_depth policy = Some limit \<longrightarrow> sat_add (el_parent_depth linker) 1 \<le> limit" for u q r
    using assms build_request_result [OF that(1)] that(2) mem by (auto simp: sources_def built_from_def)
  have skip: "sources X policy linker opts urls (fst (report_skip policy u reason (sd\<lparr>sd_todo := rest\<rparr>, cs')))" for u reason and cs' :: "'q crawler_shared"
    using sources_skip [of X policy linker opts urls "(sd\<lparr>sd_todo := rest\<rparr>, cs')"] d by simp
  have fail: "sources X policy linker opts urls (fst (fail_sender e (sd\<lparr>sd_todo := rest\<rparr>, cs')))" for e and cs' :: "'q crawler_shared"
    using sources_fail [of X policy linker opts urls "(sd\<lparr>sd_todo := rest\<rparr>, cs')"] d by simp
  show ?thesis
    by (auto simp: build_turn_def Let_def skip fail split: sum.split option.split prod.split admission.split if_splits
        intro!: cur)
qed

lemma rekey_own: "rekey X (req_unique_key r) r = r\<lparr>req_unique_key := compute_unique_key X (req_url r) (req_method r) (req_body r),
    req_id := from_unique_key (compute_unique_key X (req_url r) (req_method r) (req_body r))\<rparr>"
  by (simp add: rekey_def Let_def)

lemma sources_turn:
  assumes "sources X policy linker opts urls sd" and "lo_transform opts = None"
  shows "sources X policy linker opts urls (fst (sender_turn X B policy linker opts w (sd, cs)))"
proof (cases "sd_outcome sd")
  case (Some x)
  then show ?thesis using assms(1) by (simp add: sender_turn_def)
next
  case None
  have tr: "sources X policy linker opts urls (fst (transform_turn X policy opts u q r (sd, cs)))"
    if "sd_current sd = Some (u, q, r)" for u q r
    using assms that by (auto simp: transform_turn_def sources_def built_from_def rekey_own)
  have add: "sources X policy linker opts urls (fst (add_turn B opts a t (sd, cs)))" for a t
    using sources_fail [of X policy linker opts urls "(sd, _)"] assms(1)
    by (auto simp: add_turn_def split: prod.split sum.split) (auto simp: sources_def)
  have settle: "sources X policy linker opts urls (fst (settle_turn X policy b (sd, cs)))" for b
    using sources_fail [of X policy linker opts urls "(sd, _)"] assms(1)
    by (auto simp: settle_turn_def Let_def split: prod.split sum.split) (auto simp: sources_def)
  have bt: "sources X policy linker opts urls (fst (build_turn X policy linker opts (aw_view w) c (sd\<lparr>sd_todo := rest\<rparr>, cs)))"
    if "sd_current sd = None" "sd_todo sd = c # rest" for c rest by (rule sources_build [OF assms(1) that])
  show ?thesis using None tr add settle bt
    by (auto simp: sender_turn_def split: option.split list.split)
qed

section \<open>A sample crawl\<close>

definition sample_linker :: "string enqueue_linker" where
  "sample_linker = \<lparr>el_parent_url = ''https://a/'', el_parent_depth = 0, el_extractor = None\<rparr>"

definition sample_enqueue :: "string \<Rightarrow> (string, string) enqueue_options" where
  "sample_enqueue u = opt_urls [u] enqueue_options_new"

definition sample_shared :: "(string, string) memory_queue crawler_shared" where
  "sample_shared = \<lparr>cs_queue = mem_new, cs_admissions = 0, cs_notified = 0, cs_skip_calls = []\<rparr>"

definition sample_policy :: crawl_policy where
  "sample_policy = policy_max_requests 1 crawl_policy_new"

definition sample_awaited :: "(string, string) memory_queue \<Rightarrow> awaited" where
  "sample_awaited q = \<lparr>aw_view = queue_view (memory_ops sample_externals) q, aw_alive = True, aw_timed_out = False\<rparr>"

text \<open>Executable choices of the concurrent system.\<close>

datatype sender_choice = StartSender "(string, string) enqueue_options" | TurnOf nat

fun sample_choice :: "sender_choice \<Rightarrow> ((string, string) memory_queue, string, string) world \<Rightarrow> ((string, string) memory_queue, string, string) world" where
  "sample_choice (StartSender opts) (ss, cs) =
     (case start_sender sample_externals sample_links sample_policy sample_linker opts cs of
        (Inr sd, cs') \<Rightarrow> (ss @ [(sample_linker, opts, sd)], cs')
      | (Inl _, _) \<Rightarrow> (ss, cs\<lparr>cs_queue := cs_queue cs\<rparr>))"
| "sample_choice (TurnOf i) (ss, cs) =
     (if i < length ss then
        case ss ! i of (linker, opts, sd) \<Rightarrow>
        (case sender_turn sample_externals (mem_add_batch sample_externals) sample_policy linker opts (sample_awaited (cs_queue cs)) (sd, cs) of
           (sd', cs') \<Rightarrow> (ss[i := (linker, opts, sd')], cs'))
      else (ss, cs\<lparr>cs_queue := cs_queue cs\<rparr>))"

lemma sample_awaited_known: "counts_known (sample_awaited q)"
  by (simp add: counts_known_def sample_awaited_def queue_view_def)

lemma sample_choice_step:
  "enqueue_step sample_externals sample_links (mem_add_batch sample_externals) sample_policy counts_known W (sample_choice ch W)"
proof (cases ch; cases W)
  fix opts ss cs assume c: "ch = StartSender opts" "W = (ss, cs)"
  have "enqueue_step sample_externals sample_links (mem_add_batch sample_externals) sample_policy counts_known (ss, cs) (ss, cs)"
    using enqueue_step.queue [where ss = ss and cs = cs and q = "cs_queue cs"] by simp
  then show ?thesis by (auto simp: c split: prod.split sum.split intro: enqueue_step.start)
next
  fix i ss cs assume c: "ch = TurnOf i" "W = (ss, cs)"
  show ?thesis
  proof (cases "i < length ss")
    case True
    obtain linker opts sd where e: "ss ! i = (linker, opts, sd)" by (rule prod_cases3)
    obtain sd' cs' where t: "sender_turn sample_externals (mem_add_batch sample_externals) sample_policy linker opts
        (sample_awaited (cs_queue cs)) (sd, cs) = (sd', cs')" by (rule prod.exhaust)
    show ?thesis using enqueue_step.turn [where A = counts_known, OF True e sample_awaited_known t] by (simp add: c e t True)
  next
    case False
    then show ?thesis using enqueue_step.queue [where ss = ss and cs = cs and q = "cs_queue cs"] by (simp add: c)
  qed
qed

lemma sample_run:
  "(enqueue_step sample_externals sample_links (mem_add_batch sample_externals) sample_policy counts_known)\<^sup>*\<^sup>* W (fold sample_choice chs W)"
proof (induction chs arbitrary: W)
  case (Cons ch chs)
  show ?case using converse_rtranclp_into_rtranclp [OF sample_choice_step Cons.IH] by simp
qed simp

lemmas sample_sender_eval = sample_links_def sample_linker_def sample_enqueue_def sample_shared_def sample_policy_def
  sample_awaited_def opt_urls_def enqueue_options_new_def policy_max_requests_def crawl_policy_new_def start_sender_def
  gather_candidates_def compile_include_patterns_def compile_patterns_def screen_candidate_def first_exclusion_def
  lefts_def rights_def map_filter_simps retained_def note_skips_def sender_turn_def build_turn_def build_request_def
  build_def b_url_def b_crawl_depth_def builder_def reserve_request_slot_def queue_view_def memory_ops_def
  request_count_def synchronize_enqueue_admissions_def reserve_enqueue_admission_def transform_turn_def rekey_def
  report_skip_def add_turn_def add_requests_with_options_def mem_add_batch_def mem_add_locked_def notify_on_completion_def
  batch_ready_def settle_turn_def batch_wait_def drop_reservations_def compute_unique_key_def sample_externals_def
  mem_new_def mem_with_policy_def mem_handled_count_def mem_pending_count_def mem_push_def
  default_overrides_def sat_add_def Let_def

text \<open>A sender that runs undisturbed, on its own.\<close>

lemma progress_alone:
  "(progress X B policy linker opts)\<^sup>*\<^sup>* (fst s) (fst ((sender_turn X B policy linker opts w ^^ n) s))"
proof (induction n)
  case (Suc n)
  have "progress X B policy linker opts (fst ((sender_turn X B policy linker opts w ^^ n) s)) (fst ((sender_turn X B policy linker opts w ^^ Suc n) s))"
    unfolding progress_def funpow.simps comp_def by (metis prod.collapse)
  with Suc show ?case by (rule rtranclp.rtrancl_into_rtrancl)
qed simp

lemma funpow_four: "(f ^^ 4) x = f (f (f (f x)))"
  by (simp add: eval_nat_numeral)

definition sample_mixed :: "(string, string) enqueue_options" where
  "sample_mixed = opt_raw_urls [''https://b/1''] (opt_urls [''https://a/1'', ''https://a/1''] enqueue_options_new)"

definition sample_started :: "(string, string) sender" where
  "sample_started = \<lparr>sd_todo = [(''https://a/1'', default_overrides)], sd_current = None, sd_requests = [], sd_reservations = [],
     sd_skipped = [(''https://b/1'', StrategyExcluded)], sd_batch = None, sd_outcome = None\<rparr>"

definition sample_sent :: "nat \<Rightarrow> (string, string) sender" where
  "sample_sent n = fst ((sender_turn sample_externals (mem_add_batch sample_externals) crawl_policy_new sample_linker sample_mixed
     (sample_awaited mem_new) ^^ n) (sample_started, sample_shared))"

lemma sample_mixed_start:
  "gather_candidates sample_linker sample_mixed = Inr [Absolute ''https://a/1'', Absolute ''https://a/1'', Raw ''https://b/1'' None]"
  "compile_include_patterns sample_links (lo_globs sample_mixed) = Inr []"
  "compile_patterns sample_links (lo_exclude sample_mixed) = Inr []"
  "lo_transform sample_mixed = None" "lo_strategy sample_mixed = None" "lo_limit sample_mixed = None"
  "lo_regex sample_mixed = []" "lo_base_url sample_mixed = None"
  "start_sender sample_externals sample_links crawl_policy_new sample_linker sample_mixed sample_shared = (Inr sample_started, sample_shared)"
  by (simp_all add: sample_mixed_def opt_raw_urls_def sample_started_def sample_sender_eval resolve_raw_url_def
      strategy_allows_def hosts_equal_def eq_ignore_ascii_case_def to_ascii_lowercase_def ascii_lower_def)

lemma sample_sent_result:
  "\<exists>res. sd_outcome (sample_sent 4) = Some (Inr res) \<and> map pr_unique_key (er_added res) = [''https://a/1'']
     \<and> er_skipped res = [(''https://b/1'', StrategyExcluded)]"
  "map req_url (sd_requests (sample_sent 4)) = [''https://a/1'']"
  by (simp_all add: sample_sent_def sample_started_def sample_mixed_def opt_raw_urls_def funpow_four sample_sender_eval)

definition sample_race :: "((string, string) memory_queue, string, string) world" where
  "sample_race = fold sample_choice [StartSender (sample_enqueue ''https://a/1''), StartSender (sample_enqueue ''https://a/2''),
     TurnOf 0, TurnOf 1, TurnOf 0, TurnOf 1, TurnOf 0, TurnOf 0, TurnOf 1] ([], sample_shared)"

lemma sample_race_result:
  "map (\<lambda>(_, _, sd). (accepted sd, map snd (sd_skipped sd), sd_outcome sd = None)) (fst sample_race)
     = [(1, [], False), (0, [MaxRequestsReached 1], False)]"
  unfolding sample_race_def by (simp add: sample_sender_eval accepted_def)

section \<open>Properties\<close>





text \<open>
  C14. Only what passed the filters is enqueued: without a transform, every request a \<open>send\<close> hands to the
  queue has the URL of a candidate that the strategy allows (explicit URLs apart), that no exclusion
  matches and, with includes, that some include matches; it is one deeper than its parent and not deeper
  than the policy allows; the URLs are distinct and no more than the caller's limit; and its identifier
  is that of its key.
\<close>

theorem enqueue_filters:
  assumes "gather_candidates linker opts = Inr cands" and "compile_include_patterns L (lo_globs opts) = Inr globs"
    and "compile_patterns L (lo_exclude opts) = Inr excludes" and "lo_transform opts = None"
    and "start_sender X L policy linker opts cs = (Inr sd, cs')"
    and "(progress X B policy linker opts)\<^sup>*\<^sup>* sd sd'" and "r \<in> set (sd_requests sd')"
  defines "strategy \<equiv> (case lo_strategy opts of Some s \<Rightarrow> s | None \<Rightarrow> cp_strategy policy)"
  shows "(\<exists>c \<in> set cands. \<exists>by_strategy. resolve_candidate X linker opts c = (Inr (req_url r), by_strategy)
       \<and> (by_strategy \<longrightarrow> strategy_allows X L strategy (el_parent_url linker) (req_url r)))
    \<and> (\<forall>p \<in> set excludes. \<not> pattern_matches L p (url_string X (req_url r)))
    \<and> (globs = [] \<and> lo_regex opts = [] \<or> (\<exists>g \<in> set globs. pattern_matches L (fst g) (url_string X (req_url r)))
       \<or> (\<exists>x \<in> set (lo_regex opts). regex_is_match L x (url_string X (req_url r))))
    \<and> req_crawl_depth r = sat_add (el_parent_depth linker) 1
    \<and> (\<forall>limit. cp_max_crawl_depth policy = Some limit \<longrightarrow> req_crawl_depth r \<le> limit)
    \<and> distinct (map (url_string X \<circ> req_url) (sd_requests sd'))
    \<and> (\<forall>n. lo_limit opts = Some n \<longrightarrow> length (sd_requests sd') \<le> n)
    \<and> req_id r = from_unique_key (req_unique_key r)"
proof -
  let ?screened = "map (screen_candidate X L strategy linker opts globs excludes) cands"
  let ?kept = "retained X (lo_limit opts) (rights ?screened)"
  have todo: "sd_todo sd = ?kept" "sd_current sd = None" "sd_requests sd = []"
    using assms(1-3,5) by (auto simp: start_sender_def Let_def strategy_def)
  have "sources X policy linker opts (map fst ?kept) sd" by (simp add: sources_def todo)
  then have s: "sources X policy linker opts (map fst ?kept) sd'"
    by (rule progress_induct [OF assms(6)]) (rule sources_turn [OF _ assms(4)])
  then have b: "built_from X policy linker opts (map fst ?kept) r" using assms(7) by (simp add: sources_def)
  then obtain ov where "(req_url r, ov) \<in> set ?kept" by (auto simp: built_from_def)
  then have "(req_url r, ov) \<in> set (rights ?screened)" using retained_facts(1) by blast
  then obtain c where c: "c \<in> set cands" "screen_candidate X L strategy linker opts globs excludes c = Inr (req_url r, ov)"
    by (auto simp: rights_def List.map_filter_def split: sum.splits)
  have sub: "subseq (map req_url (sd_requests sd')) (map fst ?kept)"
    using s unfolding sources_def by (elim conjE) (rule subseq_order.order_trans [OF subseq_rev_drop_many [OF subseq_order.order_refl]])
  then have "subseq (map (url_string X \<circ> req_url) (sd_requests sd')) (map (\<lambda>c. url_string X (fst c)) ?kept)"
    using subseq_map [of "map req_url (sd_requests sd')" "map fst ?kept" "url_string X"] by (simp add: comp_def)
  then have "distinct (map (url_string X \<circ> req_url) (sd_requests sd'))"
    using retained_facts(2) [of X "lo_limit opts" "rights ?screened"] unfolding subseq_conv_nths by (auto intro: distinct_nthsI)
  moreover have "length (sd_requests sd') \<le> n" if "lo_limit opts = Some n" for n
    using list_emb_length [OF sub] retained_facts(3) [OF that, of X "rights ?screened"] by simp
  ultimately show ?thesis using screen_candidate_admits [OF c(2)] c(1) b unfolding built_from_def by blast
qed

theorem enqueue_filters_witness:
  "\<exists>r. sd_requests (sample_sent 4) = [r] \<and> req_url r = ''https://a/1'' \<and> req_crawl_depth r = 1
     \<and> req_id r = from_unique_key (req_unique_key r)"
proof -
  obtain r where r: "sd_requests (sample_sent 4) = [r]" "req_url r = ''https://a/1''"
    using sample_sent_result(2) by (cases "sd_requests (sample_sent 4)") auto
  have run: "(progress sample_externals (mem_add_batch sample_externals) crawl_policy_new sample_linker sample_mixed)\<^sup>*\<^sup>* sample_started (sample_sent 4)"
    unfolding sample_sent_def using progress_alone by (metis fst_conv)
  have "req_crawl_depth r = sat_add (el_parent_depth sample_linker) 1 \<and> req_id r = from_unique_key (req_unique_key r)"
    using enqueue_filters [OF sample_mixed_start(1-4,9) run, of r] r(1) by simp
  then show ?thesis using r by (simp add: sample_linker_def sat_add_def)
qed

section \<open>Two defects\<close>

definition busy_queue :: "(string, string) memory_queue" where
  "busy_queue = snd (mem_fetch_next 0 (snd (mem_add sample_externals (sample_request ''https://a/'' ''https://a/'')
     \<lparr>add_forefront = False\<rparr> mem_new)))"

definition busy_sent :: "((string, string) memory_queue, string, string) sending" where
  "busy_sent = (sender_turn sample_externals (mem_add_batch sample_externals) sample_policy sample_linker (sample_enqueue ''https://a/1'')
     (sample_awaited busy_queue) ^^ 4) (sample_started\<lparr>sd_skipped := []\<rparr>, sample_shared\<lparr>cs_queue := busy_queue\<rparr>)"

text \<open>
  The admission check adds the queue's handled and pending requests, and a request that is being
  handled is neither. The handler of the only request of a crawl limited to one request still gets a
  request accepted, and the queue then knows two.
\<close>

theorem admission_ignores_leased:
  "cp_max_requests_per_crawl sample_policy = Some 1 \<and> length (mq_dedup busy_queue) = 1 \<and> length (mq_in_flight busy_queue) = 1
   \<and> accepted (fst busy_sent) = 1 \<and> length (mq_dedup (cs_queue (snd busy_sent))) = 2"
proof -
  have q: "busy_queue = mem_new\<lparr>mq_dedup := [(''https://a/'', req_id (sample_request ''https://a/'' ''https://a/''))],
      mq_in_flight := [(0, \<lparr>lr_request = sample_request ''https://a/'' ''https://a/'', lr_expires_at = LEASE_TTL\<rparr>)],
      mq_next_lease_id := 1\<rparr>"
    by (simp add: busy_queue_def mem_add_def mem_add_locked_def mem_fetch_next_def mem_new_def mem_with_policy_def mem_push_def
        sample_request_def Let_def)
  have "accepted (fst busy_sent) = 1" "length (mq_dedup (cs_queue (snd busy_sent))) = 2"
    unfolding busy_sent_def funpow_four by (simp_all add: q sample_started_def accepted_def sample_sender_eval)
  then show ?thesis by (simp add: q mem_new_def mem_with_policy_def sample_policy_def policy_max_requests_def)
qed

text \<open>
  A transform that sets another unique key keeps the identifier of the old one, which is what the
  file-system queue indexes by.
\<close>

theorem transform_keeps_stale_id:
  "\<exists>r :: (string, string) request. \<exists>sd. fst (transform_turn sample_externals crawl_policy_new
        (sample_mixed\<lparr>lo_transform := Some (\<lambda>r. (TransformEnqueue, r\<lparr>req_unique_key := ''other''\<rparr>))\<rparr>)
        ''https://a/1'' (sample_request ''https://a/1'' ''k'') False (sample_started, sample_shared)) = sd
     \<and> sd_requests sd = [r] \<and> req_unique_key r = ''other'' \<and> req_id r = req_id (sample_request ''https://a/1'' ''k'')"
  by (simp add: transform_turn_def sample_started_def rekey_def sample_request_def)

end
