(* ===== verification/Antibot.thy ===== *)
theory Antibot
  imports Errors "HOL-Library.Sublist"
begin

text \<open>
  Anti-bot detection (\<open>millipede-core/src/antibot.rs\<close>): the signals of a response, the default detector
  with its bounded inspection of the body, and the order in which vendors are recognised. The detector's
  loop over the headers sets flags; the main theorem compares it with a table of rules.
\<close>

section \<open>Third-party operations\<close>

text \<open>
  \<open>hx_to_str\<close> is \<open>HeaderValue::to_str\<close> (\<open>None\<close> unless the value is visible ASCII), \<open>hx_from_str\<close> is
  \<open>HeaderValue::from_str\<close>, \<open>hx_rfc2822\<close> is \<open>OffsetDateTime::parse\<close> with the RFC 2822 format, \<open>hx_hash_bytes\<close>
  and \<open>hx_hash_str\<close> the unspecified algorithm of \<open>DefaultHasher\<close> on a slice and on a string, \<open>hx_lowercase\<close> is \<open>str::to_lowercase\<close>
  (Unicode tables), and \<open>hx_status_text\<close> the display of a \<open>StatusCode\<close>.
\<close>

record http_externals =
  hx_to_str :: "string \<Rightarrow> string option"
  hx_from_str :: "string \<Rightarrow> string + string"
  hx_rfc2822 :: "string \<Rightarrow> wall_time option"
  hx_hash_bytes :: "u8 list \<Rightarrow> u64"
  hx_hash_str :: "string \<Rightarrow> u64"
  hx_lowercase :: "string \<Rightarrow> string"
  hx_status_text :: "u16 \<Rightarrow> string"

section \<open>Lossy decoding\<close>

text \<open>
  \<open>String::from_utf8_lossy\<close>: each maximal invalid sequence becomes one replacement character. For a lead
  byte, \<open>utf8_lead\<close> gives the number of continuation bytes and the range of the first.
\<close>

definition utf8_lead :: "nat \<Rightarrow> (nat \<times> nat \<times> nat) option" where
  "utf8_lead b =
     (if 0xC2 \<le> b \<and> b \<le> 0xDF then Some (1, 0x80, 0xBF)
      else if b = 0xE0 then Some (2, 0xA0, 0xBF)
      else if b = 0xED then Some (2, 0x80, 0x9F)
      else if 0xE1 \<le> b \<and> b \<le> 0xEF then Some (2, 0x80, 0xBF)
      else if b = 0xF0 then Some (3, 0x90, 0xBF)
      else if 0xF1 \<le> b \<and> b \<le> 0xF3 then Some (3, 0x80, 0xBF)
      else if b = 0xF4 then Some (3, 0x80, 0x8F)
      else None)"

fun utf8_continued :: "nat \<Rightarrow> nat \<Rightarrow> nat \<Rightarrow> u8 list \<Rightarrow> nat" where
  "utf8_continued 0 lo hi bs = 0"
| "utf8_continued (Suc k) lo hi [] = 0"
| "utf8_continued (Suc k) lo hi (b # bs) =
     (if lo \<le> unat b \<and> unat b \<le> hi then Suc (utf8_continued k 0x80 0xBF bs) else 0)"

definition replacement_character :: string where
  "replacement_character = [CHR 0xEF, CHR 0xBF, CHR 0xBD]"

fun from_utf8_lossy :: "u8 list \<Rightarrow> string" where
  "from_utf8_lossy [] = []"
| "from_utf8_lossy (b # bs) =
     (if unat b < 0x80 then char_of (unat b) # from_utf8_lossy bs
      else case utf8_lead (unat b) of
        None \<Rightarrow> replacement_character @ from_utf8_lossy bs
      | Some (k, lo, hi) \<Rightarrow>
          let m = utf8_continued k lo hi bs in
          (if m = k then map (\<lambda>c. char_of (unat c)) (b # take k bs) else replacement_character) @ from_utf8_lossy (drop m bs))"

section \<open>The detector\<close>

record 'u anti_bot_signals =
  ab_status :: u16
  ab_headers :: header_map
  ab_body :: "u8 list"
  ab_final_url :: 'u

record default_detector =
  dd_inspection_limit :: nat
  dd_custom_markers :: "(string \<times> anti_bot_tech) list"

definition detector_new :: default_detector where
  "detector_new = \<lparr>dd_inspection_limit = 64 * 1024, dd_custom_markers = []\<rparr>"

definition with_inspection_limit :: "nat \<Rightarrow> default_detector \<Rightarrow> default_detector" where
  "with_inspection_limit limit d = d\<lparr>dd_inspection_limit := limit\<rparr>"

definition with_custom_marker :: "http_externals \<Rightarrow> string \<Rightarrow> string \<Rightarrow> default_detector \<Rightarrow> default_detector" where
  "with_custom_marker H marker label d =
     d\<lparr>dd_custom_markers := dd_custom_markers d @ [(hx_lowercase H marker, CustomTech label)]\<rparr>"

definition contains_any :: "string \<Rightarrow> string list \<Rightarrow> bool" where
  "contains_any haystack needles = list_ex (\<lambda>needle. sublist needle haystack) needles"

text \<open>The local flags of \<open>detect\<close>.\<close>

record header_flags =
  cf_header :: bool
  cloudflare_server :: bool
  cloudflare_cookie :: bool
  datadome_header :: bool
  datadome_cookie :: bool
  perimeterx_cookie :: bool
  kasada_header :: bool
  imperva_header :: bool
  imperva_cookie :: bool
  akamai_header :: bool
  akamai_cookie :: bool

definition no_flags :: header_flags where
  "no_flags = \<lparr>cf_header = False, cloudflare_server = False, cloudflare_cookie = False, datadome_header = False,
     datadome_cookie = False, perimeterx_cookie = False, kasada_header = False, imperva_header = False,
     imperva_cookie = False, akamai_header = False, akamai_cookie = False\<rparr>"

definition scan_name :: "string \<Rightarrow> header_flags \<Rightarrow> header_flags" where
  "scan_name name f = f\<lparr>
     cf_header := cf_header f \<or> name = ''cf-ray'' \<or> name = ''cf-mitigated'',
     datadome_header := datadome_header f \<or> name = ''x-datadome'' \<or> name = ''x-dd-b'',
     kasada_header := kasada_header f \<or> name = ''x-kpsdk-ct'' \<or> name = ''x-kpsdk-cd'',
     imperva_header := imperva_header f \<or> name = ''x-iinfo'',
     akamai_header := akamai_header f \<or> prefix ''x-akamai'' name\<rparr>"

definition scan_value :: "string \<Rightarrow> string \<Rightarrow> header_flags \<Rightarrow> header_flags" where
  "scan_value name v f =
     (let f1 = (if name = ''server'' \<and> sublist ''cloudflare'' v then f\<lparr>cloudflare_server := True\<rparr> else f) in
      if name = ''set-cookie'' then f1\<lparr>
        cloudflare_cookie := cloudflare_cookie f1 \<or> sublist ''__cf_bm'' v \<or> sublist ''cf_clearance'' v,
        datadome_cookie := datadome_cookie f1 \<or> sublist ''datadome'' v,
        perimeterx_cookie := perimeterx_cookie f1 \<or> sublist ''_px'' v \<or> sublist ''_pxhd'' v,
        imperva_cookie := imperva_cookie f1 \<or> sublist ''visid_incap'' v \<or> sublist ''incap_ses'' v,
        akamai_cookie := akamai_cookie f1 \<or> sublist ''_abck'' v \<or> sublist ''ak_bmsc'' v\<rparr>
      else f1)"

definition scan_header :: "http_externals \<Rightarrow> string \<times> string \<Rightarrow> header_flags \<Rightarrow> header_flags" where
  "scan_header H h f =
     (let name = to_ascii_lowercase (fst h); f1 = scan_name name f in
      case hx_to_str H (snd h) of
        None \<Rightarrow> f1
      | Some v \<Rightarrow> scan_value name (to_ascii_lowercase v) f1)"

definition inspected :: "default_detector \<Rightarrow> u8 list \<Rightarrow> string" where
  "inspected d bytes =
     to_ascii_lowercase (from_utf8_lossy (take (min (length bytes) (dd_inspection_limit d)) bytes))"

definition detect :: "http_externals \<Rightarrow> default_detector \<Rightarrow> 'u anti_bot_signals \<Rightarrow> anti_bot_tech option" where
  "detect H d s =
     (let body = inspected d (ab_body s); f = fold (scan_header H) (ab_headers s) no_flags in
      if cf_header f \<or> cloudflare_server f \<or> cloudflare_cookie f
         \<or> contains_any body [''just a moment'', ''cf-chl'', ''challenges.cloudflare.com'', ''checking your browser'']
      then Some Cloudflare
      else if datadome_header f \<or> datadome_cookie f \<or> contains_any body [''datadome'', ''geo.captcha-delivery.com'']
      then Some DataDome
      else if perimeterx_cookie f \<or> contains_any body [''px-captcha'', ''perimeterx'', ''/_px'']
      then Some PerimeterX
      else if kasada_header f \<or> contains_any body [''kpsdk'', ''kasada''] then Some Kasada
      else if imperva_header f \<or> imperva_cookie f \<or> contains_any body [''incapsula'', ''_incap_'', ''incident id'']
      then Some Imperva
      else if akamai_cookie f \<or> akamai_header f \<or> contains_any body [''akamai bot manager'', ''akamaighost'']
      then Some Akamai
      else case find (\<lambda>(marker, _). sublist marker body) (dd_custom_markers d) of
        Some (_, technology) \<Rightarrow> Some technology
      | None \<Rightarrow>
          if sublist ''captcha'' body
             \<and> contains_any body [''access denied'', ''verify you are human'', ''are you a human'']
          then Some UnknownTech else None)"

section \<open>The detector as a table of rules\<close>

text \<open>
  What gives a vendor away: a header's name, a needle in the value of a named header, a needle in the
  inspected part of the body. The rules are in the order of precedence.
\<close>

record vendor_rule =
  vr_tech :: anti_bot_tech
  vr_name :: "string \<Rightarrow> bool"
  vr_values :: "(string \<times> string list) list"
  vr_body :: "string list"

definition vendor_rules :: "vendor_rule list" where
  "vendor_rules =
    [\<lparr>vr_tech = Cloudflare, vr_name = (\<lambda>n. n \<in> {''cf-ray'', ''cf-mitigated''}),
      vr_values = [(''server'', [''cloudflare'']), (''set-cookie'', [''__cf_bm'', ''cf_clearance''])],
      vr_body = [''just a moment'', ''cf-chl'', ''challenges.cloudflare.com'', ''checking your browser'']\<rparr>,
     \<lparr>vr_tech = DataDome, vr_name = (\<lambda>n. n \<in> {''x-datadome'', ''x-dd-b''}),
      vr_values = [(''set-cookie'', [''datadome''])], vr_body = [''datadome'', ''geo.captcha-delivery.com'']\<rparr>,
     \<lparr>vr_tech = PerimeterX, vr_name = (\<lambda>_. False),
      vr_values = [(''set-cookie'', [''_px'', ''_pxhd''])], vr_body = [''px-captcha'', ''perimeterx'', ''/_px'']\<rparr>,
     \<lparr>vr_tech = Kasada, vr_name = (\<lambda>n. n \<in> {''x-kpsdk-ct'', ''x-kpsdk-cd''}),
      vr_values = [], vr_body = [''kpsdk'', ''kasada'']\<rparr>,
     \<lparr>vr_tech = Imperva, vr_name = (\<lambda>n. n = ''x-iinfo''),
      vr_values = [(''set-cookie'', [''visid_incap'', ''incap_ses''])],
      vr_body = [''incapsula'', ''_incap_'', ''incident id'']\<rparr>,
     \<lparr>vr_tech = Akamai, vr_name = prefix ''x-akamai'',
      vr_values = [(''set-cookie'', [''_abck'', ''ak_bmsc''])], vr_body = [''akamai bot manager'', ''akamaighost'']\<rparr>]"

definition header_matches :: "http_externals \<Rightarrow> vendor_rule \<Rightarrow> string \<times> string \<Rightarrow> bool" where
  "header_matches H r h \<longleftrightarrow> vr_name r (to_ascii_lowercase (fst h))
     \<or> (\<exists>v. hx_to_str H (snd h) = Some v
          \<and> (\<exists>(n, needles) \<in> set (vr_values r). to_ascii_lowercase (fst h) = n
               \<and> contains_any (to_ascii_lowercase v) needles))"

definition rule_applies :: "http_externals \<Rightarrow> header_map \<Rightarrow> string \<Rightarrow> vendor_rule \<Rightarrow> bool" where
  "rule_applies H headers body r \<longleftrightarrow> (\<exists>h \<in> set headers. header_matches H r h) \<or> contains_any body (vr_body r)"

definition detect_spec :: "http_externals \<Rightarrow> default_detector \<Rightarrow> header_map \<Rightarrow> string \<Rightarrow> anti_bot_tech option" where
  "detect_spec H d headers body =
     (case find (rule_applies H headers body) vendor_rules of
        Some r \<Rightarrow> Some (vr_tech r)
      | None \<Rightarrow>
     (case find (\<lambda>(marker, _). sublist marker body) (dd_custom_markers d) of
        Some (_, technology) \<Rightarrow> Some technology
      | None \<Rightarrow>
          if sublist ''captcha'' body \<and> contains_any body [''access denied'', ''verify you are human'', ''are you a human'']
          then Some UnknownTech else None))"


lemma fold_flag:
  assumes "\<And>h f. p (scan h f) \<longleftrightarrow> p f \<or> Q h"
  shows "p (fold scan hs f) \<longleftrightarrow> p f \<or> (\<exists>h \<in> set hs. Q h)"
  by (induction hs arbitrary: f) (auto simp: assms)

lemmas scan_defs = scan_header_def scan_name_def scan_value_def header_matches_def contains_any_def Let_def

lemma scan_flags:
  fixes H :: http_externals and h :: "string \<times> string" and f :: header_flags
  defines "f' \<equiv> scan_header H h f"
  shows "(cf_header f' \<or> cloudflare_server f' \<or> cloudflare_cookie f')
     \<longleftrightarrow> (cf_header f \<or> cloudflare_server f \<or> cloudflare_cookie f) \<or> header_matches H (vendor_rules ! 0) h"
    "(datadome_header f' \<or> datadome_cookie f')
     \<longleftrightarrow> (datadome_header f \<or> datadome_cookie f) \<or> header_matches H (vendor_rules ! 1) h"
    "perimeterx_cookie f' \<longleftrightarrow> perimeterx_cookie f \<or> header_matches H (vendor_rules ! 2) h"
    "kasada_header f' \<longleftrightarrow> kasada_header f \<or> header_matches H (vendor_rules ! 3) h"
    "(imperva_header f' \<or> imperva_cookie f')
     \<longleftrightarrow> (imperva_header f \<or> imperva_cookie f) \<or> header_matches H (vendor_rules ! 4) h"
    "(akamai_cookie f' \<or> akamai_header f')
     \<longleftrightarrow> (akamai_cookie f \<or> akamai_header f) \<or> header_matches H (vendor_rules ! 5) h"
  unfolding f'_def by (auto simp: scan_defs vendor_rules_def split: option.splits)


lemma inspected_bounded:
  "dd_inspection_limit d \<le> length body \<Longrightarrow> inspected d (take (dd_inspection_limit d) body @ rest) = inspected d body"
  by (simp add: inspected_def min_def)

lemma detect_table: "detect H d s = detect_spec H d (ab_headers s) (inspected d (ab_body s))"
proof -
  let ?f = "fold (scan_header H) (ab_headers s) no_flags" and ?body = "inspected d (ab_body s)"
  let ?m = "\<lambda>i. \<exists>h \<in> set (ab_headers s). header_matches H (vendor_rules ! i) h"
  have flags: "(cf_header ?f \<or> cloudflare_server ?f \<or> cloudflare_cookie ?f) = ?m 0"
    "(datadome_header ?f \<or> datadome_cookie ?f) = ?m 1" "perimeterx_cookie ?f = ?m 2" "kasada_header ?f = ?m 3"
    "(imperva_header ?f \<or> imperva_cookie ?f) = ?m 4" "(akamai_cookie ?f \<or> akamai_header ?f) = ?m 5"
    using fold_flag [of "\<lambda>f. cf_header f \<or> cloudflare_server f \<or> cloudflare_cookie f" "scan_header H", OF scan_flags(1)]
      fold_flag [of "\<lambda>f. datadome_header f \<or> datadome_cookie f" "scan_header H", OF scan_flags(2)]
      fold_flag [of "perimeterx_cookie" "scan_header H", OF scan_flags(3)]
      fold_flag [of "kasada_header" "scan_header H", OF scan_flags(4)]
      fold_flag [of "\<lambda>f. imperva_header f \<or> imperva_cookie f" "scan_header H", OF scan_flags(5)]
      fold_flag [of "\<lambda>f. akamai_cookie f \<or> akamai_header f" "scan_header H", OF scan_flags(6)]
    by (simp_all add: no_flags_def)
  show ?thesis
    unfolding detect_def detect_spec_def Let_def disj_assoc [symmetric] flags [unfolded disj_assoc [symmetric]]
    by (simp add: vendor_rules_def rule_applies_def)
qed

definition sample_http :: http_externals where
  "sample_http = \<lparr>hx_to_str = Some, hx_from_str = Inr, hx_rfc2822 = (\<lambda>_. None), hx_hash_bytes = fnv1a64, hx_hash_str = (\<lambda>s. fnv1a64 (as_bytes s)),
     hx_lowercase = map (\<lambda>c. if c = CHR 0x89 then CHR 0xA9 else ascii_lower c),
     hx_status_text = (\<lambda>s. nat_text (unat s))\<rparr>"

definition sample_signals :: "header_map \<Rightarrow> string \<Rightarrow> string anti_bot_signals" where
  "sample_signals headers body = \<lparr>ab_status = 403, ab_headers = headers, ab_body = as_bytes body, ab_final_url = ''https://a/''\<rparr>"

lemmas text_evals = to_ascii_lowercase_def ascii_lower_def char_of_def bit_Suc_0_iff as_bytes_def utf8_lead_def replacement_character_def

lemma sample_bodies:
  "inspected detector_new (as_bytes ''hello'') = ''hello''"
  "inspected (with_custom_marker H m l detector_new) (as_bytes [CHR 0xC3, CHR 0x89]) = [CHR 0xC3, CHR 0x89]"
  by (simp_all add: inspected_def detector_new_def with_custom_marker_def text_evals)

lemma sample_headers:
  "fold (scan_header sample_http) [(''Set-Cookie'', ''_abck=1''), (''X-DataDome'', ''1'')] no_flags
     = no_flags\<lparr>akamai_cookie := True, datadome_header := True\<rparr>"
  by (simp add: scan_defs no_flags_def sample_http_def to_ascii_lowercase_def ascii_lower_def char_of_def bit_Suc_0_iff sublist_code)

section \<open>Properties\<close>



text \<open>
  A custom marker is stored through \<open>to_lowercase\<close>, the body is lowered by \<open>to_ascii_lowercase\<close>: a marker
  with an upper-case letter outside ASCII is not found in a body that contains it verbatim.
\<close>

theorem custom_marker_not_case_insensitive:
  "detect sample_http (with_custom_marker sample_http [CHR 0xC3, CHR 0x89] ''label'' detector_new)
     (sample_signals [] [CHR 0xC3, CHR 0x89]) = None"
  unfolding detect_def sample_signals_def anti_bot_signals.simps sample_bodies
  by (simp add: no_flags_def contains_any_def sublist_code with_custom_marker_def detector_new_def sample_http_def ascii_lower_def)

end
