(* ===== verification/Http_Kind.thy ===== *)
theory Http_Kind
  imports Antibot Attempt Enqueue
begin

text \<open>
  The HTTP crawler kind (\<open>millipede-http/src/kind.rs\<close>, \<open>nav.rs\<close>), the request and response types and
  the errors of the HTTP client (\<open>millipede-core/src/http_client.rs\<close>) and the proxy buckets
  (\<open>proxy.rs\<close>). \<open>execute\<close> runs with other attempts: at each await point, the \<open>n\<close>-th of the attempt, the
  argument \<open>I n\<close> says what they do to the shared state. The client, the hooks and a detector are
  arguments. A session is its address in the pool's store, which also stands for its cookie jar.
\<close>

section \<open>The HTTP client's types\<close>

datatype http_client_error =
    ClientBuild anyhow | InvalidRequest anyhow | Connect anyhow | ClientTimeout anyhow
  | Redirect anyhow | Decode anyhow | ClientIo anyhow | ClientOther anyhow

fun is_connect :: "http_client_error \<Rightarrow> bool" where
  "is_connect (Connect _) = True"
| "is_connect _ = False"

fun is_timeout :: "http_client_error \<Rightarrow> bool" where
  "is_timeout (ClientTimeout _) = True"
| "is_timeout _ = False"

text \<open>The error as an \<open>anyhow\<close> chain: its own text, then the chain of its source.\<close>

fun client_error_chain :: "http_client_error \<Rightarrow> anyhow" where
  "client_error_chain (ClientBuild e) = anyhow_msg (''failed to build HTTP client: '' @ anyhow_text e) @ e"
| "client_error_chain (InvalidRequest e) = anyhow_msg (''invalid HTTP request: '' @ anyhow_text e) @ e"
| "client_error_chain (Connect e) = anyhow_msg (''HTTP connection failed: '' @ anyhow_text e) @ e"
| "client_error_chain (ClientTimeout e) = anyhow_msg (''HTTP request timed out: '' @ anyhow_text e) @ e"
| "client_error_chain (Redirect e) = anyhow_msg (''HTTP redirect failed: '' @ anyhow_text e) @ e"
| "client_error_chain (Decode e) = anyhow_msg (''HTTP response decode failed: '' @ anyhow_text e) @ e"
| "client_error_chain (ClientIo e) = anyhow_msg (''HTTP I/O failed: '' @ anyhow_text e) @ e"
| "client_error_chain (ClientOther e) = anyhow_msg (''HTTP client error: '' @ anyhow_text e) @ e"

record ('u, 'j) http_request =
  hr_url :: 'u
  hr_method :: http_method
  hr_headers :: header_map
  hr_body :: "'j request_body option"
  hr_cookie_jar :: "nat option"
  hr_proxy :: "'u option"
  hr_timeout :: "duration option"
  hr_max_redirects :: u32
  hr_use_header_generator :: bool
  hr_session_token :: "string option"

definition http_request_new :: "'u \<Rightarrow> ('u, 'j) http_request" where
  "http_request_new u = \<lparr>hr_url = u, hr_method = ''GET'', hr_headers = [], hr_body = None, hr_cookie_jar = None,
     hr_proxy = None, hr_timeout = None, hr_max_redirects = 10, hr_use_header_generator = False,
     hr_session_token = None\<rparr>"

definition from_request :: "('u, 'j) request \<Rightarrow> ('u, 'j) http_request" where
  "from_request r = (http_request_new (req_url r))
     \<lparr>hr_method := req_method r, hr_headers := req_headers r, hr_body := req_body r\<rparr>"

record 'u http_response =
  rp_url :: 'u
  rp_status :: u16
  rp_headers :: header_map
  rp_body :: "u8 list"
  rp_redirect_chain :: "'u list"

definition http_response_new :: "'u \<Rightarrow> u16 \<Rightarrow> header_map \<Rightarrow> u8 list \<Rightarrow> 'u http_response" where
  "http_response_new u status headers body =
     \<lparr>rp_url = u, rp_status = status, rp_headers = headers, rp_body = body, rp_redirect_chain = []\<rparr>"

definition response_text :: "'u http_response \<Rightarrow> string" where
  "response_text r = from_utf8_lossy (rp_body r)"

text \<open>\<open>HeaderMap::insert\<close>: the value replaces every value of the name.\<close>

definition header_insert :: "string \<Rightarrow> string \<Rightarrow> header_map \<Rightarrow> header_map" where
  "header_insert name v hs = filter (\<lambda>h. fst h \<noteq> name) hs @ [(name, v)]"

section \<open>Proxy buckets\<close>

record ('u, 'j) proxy_buckets =
  pb_default :: "('u, 'j) proxy_configuration option"
  pb_media :: "('u, 'j) proxy_configuration option"
  pb_custom :: "(string \<times> ('u, 'j) proxy_configuration) list"

definition no_buckets :: "('u, 'j) proxy_buckets" where
  "no_buckets = \<lparr>pb_default = None, pb_media = None, pb_custom = []\<rparr>"

definition with_default :: "('u, 'j) proxy_configuration \<Rightarrow> ('u, 'j) proxy_buckets \<Rightarrow> ('u, 'j) proxy_buckets" where
  "with_default c b = b\<lparr>pb_default := Some c\<rparr>"

definition with_media :: "('u, 'j) proxy_configuration \<Rightarrow> ('u, 'j) proxy_buckets \<Rightarrow> ('u, 'j) proxy_buckets" where
  "with_media c b = b\<lparr>pb_media := Some c\<rparr>"

definition with_custom :: "string \<Rightarrow> ('u, 'j) proxy_configuration \<Rightarrow> ('u, 'j) proxy_buckets \<Rightarrow> ('u, 'j) proxy_buckets" where
  "with_custom name c b = b\<lparr>pb_custom := AList.update name c (pb_custom b)\<rparr>"

text \<open>
  \<open>for_kind\<close> returns a reference to a bucket: here the bucket's place, the kind whose own bucket it is.
\<close>

definition bucket :: "('u, 'j) proxy_buckets \<Rightarrow> proxy_kind \<Rightarrow> ('u, 'j) proxy_configuration option" where
  "bucket b place = (case place of DefaultProxy \<Rightarrow> pb_default b | MediaAsset \<Rightarrow> pb_media b
     | CustomProxy name \<Rightarrow> map_of (pb_custom b) name)"

definition for_kind :: "('u, 'j) proxy_buckets \<Rightarrow> proxy_kind \<Rightarrow> proxy_kind option" where
  "for_kind b kind =
     (if bucket b kind \<noteq> None then Some kind
      else if pb_default b \<noteq> None then Some DefaultProxy
      else None)"

definition set_bucket ::
  "proxy_kind \<Rightarrow> ('u, 'j) proxy_configuration \<Rightarrow> ('u, 'j) proxy_buckets \<Rightarrow> ('u, 'j) proxy_buckets" where
  "set_bucket place c b = (case place of DefaultProxy \<Rightarrow> with_default c b | MediaAsset \<Rightarrow> with_media c b
     | CustomProxy name \<Rightarrow> with_custom name c b)"

section \<open>Retry-After\<close>

text \<open>\<open>str::trim\<close> on the visible ASCII that \<open>to_str\<close> yields.\<close>

definition is_ascii_space :: "char \<Rightarrow> bool" where
  "is_ascii_space c = (let n = of_char c :: nat in n = 32 \<or> 9 \<le> n \<and> n \<le> 13)"

definition ascii_trim :: "string \<Rightarrow> string" where
  "ascii_trim s = rev (dropWhile is_ascii_space (rev (dropWhile is_ascii_space s)))"

text \<open>\<open>parse::<u64>\<close> of a text of digits, \<open>unwrap_or(u64::MAX)\<close>.\<close>

definition parse_u64_or_max :: "string \<Rightarrow> nat" where
  "parse_u64_or_max s = (if decimal s < 2 ^ 64 then decimal s else 2 ^ 64 - 1)"

definition gmt_to_offset :: "string \<Rightarrow> string" where
  "gmt_to_offset s = (if suffix '' GMT'' s then take (length s - 4) s @ '' +0000'' else s)"

definition parse_retry_after :: "http_externals \<Rightarrow> header_map \<Rightarrow> wall_time \<Rightarrow> duration option" where
  "parse_retry_after H headers now =
     (case map_of headers ''retry-after'' of None \<Rightarrow> None
      | Some raw \<Rightarrow>
     (case hx_to_str H raw of None \<Rightarrow> None
      | Some s \<Rightarrow>
          let v = ascii_trim s in
          if v \<noteq> [] \<and> list_all is_digit v then Some (secs (min (parse_u64_or_max v) 600))
          else
            (case hx_rfc2822 H (gmt_to_offset v) of None \<Rightarrow> None
             | Some date \<Rightarrow> if date \<le> now then Some 0 else Some (min (nat (date - now)) (secs 600)))))"

section \<open>The kind\<close>

datatype ('c, 'j) session_mode = Disabled | Owned "('c, 'j) session_pool" | Shared "('c, 'j) session_pool"

text \<open>What a hook sees; a hook may change the outgoing request and the shared session.\<close>

record ('u, 'j, 'c) http_pre_hook_ctx =
  ph_request :: "('u, 'j) request"
  ph_http_request :: "('u, 'j) http_request"
  ph_session :: "('c, 'j) session option"
  ph_proxy :: "'u proxy_info option"

record ('u, 'j, 'c) http_post_hook_ctx =
  qh_request :: "('u, 'j) request"
  qh_response :: "'u http_response"
  qh_session :: "('c, 'j) session option"
  qh_proxy :: "'u proxy_info option"

type_synonym ('u, 'j, 'c) http_pre_hook =
  "('u, 'j, 'c) http_pre_hook_ctx \<Rightarrow> (crawl_error + unit) \<times> ('u, 'j) http_request \<times> ('c, 'j) session option"

type_synonym ('u, 'j, 'c) http_post_hook =
  "('u, 'j, 'c) http_post_hook_ctx \<Rightarrow> (crawl_error + unit) \<times> ('c, 'j) session option"

type_synonym ('u, 'j) proxy_strategy = "('u, 'j) request \<Rightarrow> u32 \<Rightarrow> string option \<Rightarrow> proxy_kind"

text \<open>\<open>hk_rng\<close> is the process-wide random state. \<open>hk_storage\<close> says whether \<open>start\<close> opened the storage.\<close>

record ('u, 'j, 'c) http_kind =
  hk_sessions :: "('c, 'j) session_mode"
  hk_proxies :: "('u, 'j) proxy_buckets"
  hk_proxy_strategy :: "('u, 'j) proxy_strategy option"
  hk_user_agents :: "string list"
  hk_ua_cursor :: u64
  hk_retry_status_codes :: "u16 list"
  hk_retry_server_errors :: bool
  hk_session_status_codes :: "u16 list"
  hk_request_timeout :: duration
  hk_max_redirects :: u32
  hk_detect_anti_bot :: "('u anti_bot_signals \<Rightarrow> anti_bot_tech option) option"
  hk_header_generator :: bool
  hk_snapshot_errors :: bool
  hk_pre_hooks :: "('u, 'j, 'c) http_pre_hook list"
  hk_post_hooks :: "('u, 'j, 'c) http_post_hook list"
  hk_storage :: bool
  hk_persist_task :: bool
  hk_rng :: u64

record ('u, 'j, 'c) http_kind_builder =
  kb_coalesce_in_flight :: bool
  kb_session_pool :: "session_pool_options option"
  kb_shared_session_pool :: "('c, 'j) session_pool option"
  kb_proxies :: "('u, 'j) proxy_buckets"
  kb_proxy_strategy :: "('u, 'j) proxy_strategy option"
  kb_user_agents :: "string list"
  kb_retry_status_codes :: "u16 list"
  kb_retry_server_errors :: bool
  kb_session_status_codes :: "u16 list"
  kb_request_timeout :: duration
  kb_max_redirects :: u32
  kb_detect_anti_bot :: "('u anti_bot_signals \<Rightarrow> anti_bot_tech option) option"
  kb_header_generator :: bool
  kb_snapshot_errors :: bool
  kb_pre_hooks :: "('u, 'j, 'c) http_pre_hook list"
  kb_post_hooks :: "('u, 'j, 'c) http_post_hook list"

definition http_kind_builder_default :: "('u, 'j, 'c) http_kind_builder" where
  "http_kind_builder_default = \<lparr>kb_coalesce_in_flight = False,
     kb_session_pool = Some session_pool_options_default, kb_shared_session_pool = None, kb_proxies = no_buckets,
     kb_proxy_strategy = None, kb_user_agents = [''millipede/0.1 (+https://github.com/satvik007/millipede)''],
     kb_retry_status_codes = [408, 429], kb_retry_server_errors = True, kb_session_status_codes = [401, 403],
     kb_request_timeout = secs 30, kb_max_redirects = 10, kb_detect_anti_bot = None, kb_header_generator = False,
     kb_snapshot_errors = False, kb_pre_hooks = [], kb_post_hooks = []\<rparr>"

definition kb_set_session_pool :: "session_pool_options \<Rightarrow> ('u, 'j, 'c) http_kind_builder \<Rightarrow> ('u, 'j, 'c) http_kind_builder" where
  "kb_set_session_pool options b = b\<lparr>kb_session_pool := Some options\<rparr>"

definition kb_set_shared_session_pool ::
  "('c, 'j) session_pool \<Rightarrow> ('u, 'j, 'c) http_kind_builder \<Rightarrow> ('u, 'j, 'c) http_kind_builder" where
  "kb_set_shared_session_pool pool b = b\<lparr>kb_shared_session_pool := Some pool\<rparr>"

definition kb_disable_sessions :: "('u, 'j, 'c) http_kind_builder \<Rightarrow> ('u, 'j, 'c) http_kind_builder" where
  "kb_disable_sessions b = b\<lparr>kb_session_pool := None\<rparr>"

definition kb_proxy :: "('u, 'j) proxy_configuration \<Rightarrow> ('u, 'j, 'c) http_kind_builder \<Rightarrow> ('u, 'j, 'c) http_kind_builder" where
  "kb_proxy c b = b\<lparr>kb_proxies := with_default c (kb_proxies b)\<rparr>"

definition kb_detect_anti_bot_default :: "http_externals \<Rightarrow> ('u, 'j, 'c) http_kind_builder \<Rightarrow> ('u, 'j, 'c) http_kind_builder" where
  "kb_detect_anti_bot_default H b = b\<lparr>kb_detect_anti_bot := Some (detect H detector_new)\<rparr>"

definition kb_pre_navigation_hook ::
  "('u, 'j, 'c) http_pre_hook \<Rightarrow> ('u, 'j, 'c) http_kind_builder \<Rightarrow> ('u, 'j, 'c) http_kind_builder" where
  "kb_pre_navigation_hook hook b = b\<lparr>kb_pre_hooks := kb_pre_hooks b @ [hook]\<rparr>"

definition kb_post_navigation_hook ::
  "('u, 'j, 'c) http_post_hook \<Rightarrow> ('u, 'j, 'c) http_kind_builder \<Rightarrow> ('u, 'j, 'c) http_kind_builder" where
  "kb_post_navigation_hook hook b = b\<lparr>kb_post_hooks := kb_post_hooks b @ [hook]\<rparr>"

text \<open>
  \<open>build\<close>, with the client given or built elsewhere: \<open>client\<close> is the result of \<open>ReqwestClient::new\<close> when none
  was injected.
\<close>

definition http_kind_build ::
  "http_client_error + unit \<Rightarrow> u64 \<Rightarrow> ('u, 'j, 'c) http_kind_builder \<Rightarrow> http_client_error + ('u, 'j, 'c) http_kind" where
  "http_kind_build client rng b =
     (case client of Inl e \<Rightarrow> Inl e
      | Inr _ \<Rightarrow> Inr \<lparr>
          hk_sessions = (case kb_shared_session_pool b of Some pool \<Rightarrow> Shared pool
            | None \<Rightarrow> (case kb_session_pool b of Some options \<Rightarrow> Owned (pool_new options rng) | None \<Rightarrow> Disabled)),
          hk_proxies = kb_proxies b, hk_proxy_strategy = kb_proxy_strategy b, hk_user_agents = kb_user_agents b,
          hk_ua_cursor = 0, hk_retry_status_codes = kb_retry_status_codes b,
          hk_retry_server_errors = kb_retry_server_errors b, hk_session_status_codes = kb_session_status_codes b,
          hk_request_timeout = kb_request_timeout b, hk_max_redirects = kb_max_redirects b,
          hk_detect_anti_bot = kb_detect_anti_bot b, hk_header_generator = kb_header_generator b,
          hk_snapshot_errors = kb_snapshot_errors b, hk_pre_hooks = kb_pre_hooks b, hk_post_hooks = kb_post_hooks b,
          hk_storage = False, hk_persist_task = False, hk_rng = rng\<rparr>)"

section \<open>Sessions and proxies of an attempt\<close>

definition session_pool :: "('u, 'j, 'c) http_kind \<Rightarrow> ('c, 'j) session_pool option" where
  "session_pool k = (case hk_sessions k of Owned p \<Rightarrow> Some p | Shared p \<Rightarrow> Some p | Disabled \<Rightarrow> None)"

fun with_pool :: "('c, 'j) session_pool \<Rightarrow> ('c, 'j) session_mode \<Rightarrow> ('c, 'j) session_mode" where
  "with_pool p Disabled = Disabled"
| "with_pool p (Owned _) = Owned p"
| "with_pool p (Shared _) = Shared p"

definition on_pool ::
  "(('c, 'j) session_pool \<Rightarrow> ('c, 'j) session_pool) \<Rightarrow> ('u, 'j, 'c) http_kind \<Rightarrow> ('u, 'j, 'c) http_kind" where
  "on_pool f k = (case session_pool k of None \<Rightarrow> k | Some p \<Rightarrow> k\<lparr>hk_sessions := with_pool (f p) (hk_sessions k)\<rparr>)"

text \<open>The session at an address, and an update of it.\<close>

definition session_at :: "('u, 'j, 'c) http_kind \<Rightarrow> nat \<Rightarrow> ('c, 'j) session option" where
  "session_at k a = Option.bind (session_pool k) (\<lambda>p. if a < length (sp_store p) then Some (sp_store p ! a) else None)"

definition touch :: "(('c, 'j) session \<Rightarrow> ('c, 'j) session) \<Rightarrow> nat option \<Rightarrow> ('u, 'j, 'c) http_kind \<Rightarrow> ('u, 'j, 'c) http_kind" where
  "touch f session k = (case session of None \<Rightarrow> k | Some a \<Rightarrow> on_pool (on_session f a) k)"

definition acquire_session ::
  "'c jar_ops \<Rightarrow> wall_time \<Rightarrow> ('u, 'j, 'c) http_kind \<Rightarrow> nat option \<times> ('u, 'j, 'c) http_kind" where
  "acquire_session J now k =
     (case session_pool k of None \<Rightarrow> (None, k)
      | Some p \<Rightarrow>
          let (a, p') = pool_session J now None (p\<lparr>sp_rng := hk_rng k\<rparr>)
          in (Some a, k\<lparr>hk_sessions := with_pool p' (hk_sessions k), hk_rng := sp_rng p'\<rparr>))"

definition route_kind ::
  "('u, 'j, 'c) http_kind \<Rightarrow> ('u, 'j) request \<Rightarrow> attempt_overrides \<Rightarrow> proxy_kind" where
  "route_kind k request overrides =
     (case ov_proxy_kind overrides of Some kind \<Rightarrow> kind
      | None \<Rightarrow> (case hk_proxy_strategy k of
          Some strategy \<Rightarrow> strategy request (req_retry_count request) (ov_user_agent_profile overrides)
        | None \<Rightarrow> DefaultProxy))"

definition resolve_proxy ::
  "('u, 'j) externals \<Rightarrow> ('u, 'j) request \<Rightarrow> string option \<Rightarrow> proxy_kind option \<Rightarrow> ('u, 'j, 'c) http_kind
     \<Rightarrow> (crawl_error + 'u proxy_info option) \<times> ('u, 'j, 'c) http_kind" where
  "resolve_proxy X request session_id place k =
     (case Option.bind place (bucket (hk_proxies k)) of
        None \<Rightarrow> (Inr None, k)
      | Some c \<Rightarrow>
          let (r, c', rng) = new_proxy_info X \<lparr>rx_request = Some request, rx_session_id = session_id,
                rx_attempt = req_retry_count request\<rparr> c (hk_rng k)
          in (r, k\<lparr>hk_proxies := set_bucket (the place) c' (hk_proxies k), hk_rng := rng\<rparr>))"

text \<open>A report about the target to the bucket the attempt used.\<close>

definition report_proxy ::
  "(('u, 'j) proxy_configuration \<Rightarrow> ('u, 'j) proxy_configuration) \<Rightarrow> proxy_kind option
     \<Rightarrow> ('u, 'j, 'c) http_kind \<Rightarrow> ('u, 'j, 'c) http_kind" where
  "report_proxy f place k =
     (case Option.bind place (bucket (hk_proxies k)) of
        None \<Rightarrow> k
      | Some c \<Rightarrow> k\<lparr>hk_proxies := set_bucket (the place) (f c) (hk_proxies k)\<rparr>)"

section \<open>Classification\<close>

definition classify_client_error :: "http_client_error \<Rightarrow> crawl_error" where
  "classify_client_error e =
     (case e of
        Connect _ \<Rightarrow> Retry (client_error_chain e)
      | ClientTimeout _ \<Rightarrow> Retry (client_error_chain e)
      | ClientIo _ \<Rightarrow> Retry (client_error_chain e)
      | _ \<Rightarrow> NonRetryable (client_error_chain e))"

definition status_error :: "http_externals \<Rightarrow> u16 \<Rightarrow> duration option \<Rightarrow> anyhow" where
  "status_error H status retry =
     [\<lparr>cause_text = ''HTTP status '' @ hx_status_text H status,
       cause_status = Some (case retry of
          Some d \<Rightarrow> with_retry_after (http_status_error_new status) d
        | None \<Rightarrow> http_status_error_new status)\<rparr>]"

definition is_server_error :: "u16 \<Rightarrow> bool" where
  "is_server_error status \<longleftrightarrow> 500 \<le> status \<and> status < 600"

definition is_success :: "u16 \<Rightarrow> bool" where
  "is_success status \<longleftrightarrow> 200 \<le> status \<and> status < 300"

definition is_redirection :: "u16 \<Rightarrow> bool" where
  "is_redirection status \<longleftrightarrow> 300 \<le> status \<and> status < 400"

definition classify_status ::
  "('u, 'j) externals \<Rightarrow> http_externals \<Rightarrow> u16 \<Rightarrow> duration option \<Rightarrow> nat option \<Rightarrow> proxy_kind option \<Rightarrow> 'u
     \<Rightarrow> ('u, 'j, 'c) http_kind \<Rightarrow> (crawl_error + unit) \<times> ('u, 'j, 'c) http_kind" where
  "classify_status X H status retry session place target k =
     (if status \<in> set (hk_session_status_codes k)
      then (Inl (Session (status_error H status retry)),
            report_proxy (report_blocked X target) place (touch mark_bad session k))
      else if status \<in> set (hk_retry_status_codes k) \<or> hk_retry_server_errors k \<and> is_server_error status
      then (Inl (Retry (status_error H status retry)), k)
      else if \<not> is_success status \<and> \<not> is_redirection status
      then (Inl (NonRetryable (status_error H status retry)), k)
      else (Inr (), report_proxy (report_success X target) place (touch mark_good session k)))"

section \<open>Executing a request\<close>

datatype await_point = AtSession | AtProxy | AtPreHook nat | AtSend | AtDetected | AtPostHook nat | AtStatus

record ('u, 'j) opened =
  op_session :: "nat option"
  op_place :: "proxy_kind option"
  op_proxy_info :: "'u proxy_info option"
  op_http_request :: "('u, 'j) http_request"

record ('u, 'j) http_context =
  hc_request :: "('u, 'j) request"
  hc_response :: "'u http_response"
  hc_session :: "nat option"
  hc_proxy_info :: "'u proxy_info option"
  hc_enqueue :: "'u enqueue_linker"

definition base_request ::
  "('u, 'j, 'c) http_kind \<Rightarrow> ('u, 'j) request \<Rightarrow> nat option \<Rightarrow> 'u proxy_info option \<Rightarrow> ('u, 'j) http_request" where
  "base_request k request session info = (from_request request)
     \<lparr>hr_timeout := Some (hk_request_timeout k), hr_max_redirects := hk_max_redirects k,
      hr_cookie_jar := session, hr_proxy := map_option pi_url info\<rparr>"

definition insert_user_agent :: "http_externals \<Rightarrow> string \<Rightarrow> ('u, 'j) http_request \<Rightarrow> crawl_error + ('u, 'j) http_request" where
  "insert_user_agent H agent req =
     (case hx_from_str H agent of
        Inl e \<Rightarrow> Inl (NonRetryable (client_error_chain (InvalidRequest (anyhow_msg e))))
      | Inr v \<Rightarrow> Inr (req\<lparr>hr_headers := header_insert ''user-agent'' v (hr_headers req)\<rparr>))"

definition set_user_agent ::
  "http_externals \<Rightarrow> attempt_overrides \<Rightarrow> string option \<Rightarrow> ('u, 'j) http_request \<Rightarrow> ('u, 'j, 'c) http_kind
     \<Rightarrow> (crawl_error + ('u, 'j) http_request) \<times> ('u, 'j, 'c) http_kind" where
  "set_user_agent H overrides session_id req k =
     (case ov_user_agent_profile overrides of
        Some agent \<Rightarrow> (insert_user_agent H agent req, k)
      | None \<Rightarrow>
          if map_of (hr_headers req) ''user-agent'' = None \<and> hk_user_agents k \<noteq> [] then
            (case session_id of
               Some i \<Rightarrow>
                 (insert_user_agent H (hk_user_agents k ! (unat (hx_hash_bytes H (as_bytes i)) mod length (hk_user_agents k))) req, k)
             | None \<Rightarrow>
                 (insert_user_agent H (hk_user_agents k ! (unat (hk_ua_cursor k) mod length (hk_user_agents k))) req,
                  k\<lparr>hk_ua_cursor := hk_ua_cursor k + 1\<rparr>))
          else (Inr req, k))"

definition set_header_token ::
  "bool \<Rightarrow> ('u, 'j) request \<Rightarrow> string option \<Rightarrow> ('u, 'j) http_request \<Rightarrow> ('u, 'j) http_request" where
  "set_header_token generator request session_id req =
     (if generator then req\<lparr>hr_use_header_generator := True,
        hr_session_token := Some (case session_id of Some i \<Rightarrow> i | None \<Rightarrow> req_unique_key request)\<rparr>
      else req)"

text \<open>From the checkout of a session to the outgoing request.\<close>

definition open_attempt ::
  "('u, 'j) externals \<Rightarrow> http_externals \<Rightarrow> 'c jar_ops \<Rightarrow> (await_point \<Rightarrow> ('u, 'j, 'c) http_kind \<Rightarrow> ('u, 'j, 'c) http_kind)
     \<Rightarrow> wall_time \<Rightarrow> ('u, 'j) request \<Rightarrow> attempt_overrides \<Rightarrow> ('u, 'j, 'c) http_kind
     \<Rightarrow> (crawl_error + ('u, 'j) opened) \<times> ('u, 'j, 'c) http_kind" where
  "open_attempt X H J I now request overrides k =
     (let (session, k1) = acquire_session J now (I AtSession k);
          session_id = map_option sess_id (Option.bind session (session_at k1));
          place = for_kind (hk_proxies k1) (route_kind k1 request overrides);
          (resolved, k2) = resolve_proxy X request session_id place (I AtProxy k1)
      in case resolved of
           Inl e \<Rightarrow> (Inl e, k2)
         | Inr info \<Rightarrow>
             (case set_user_agent H overrides session_id (base_request k2 request session info) k2 of
                (Inl e, k3) \<Rightarrow> (Inl e, k3)
              | (Inr req, k3) \<Rightarrow>
                  (Inr \<lparr>op_session = session, op_place = place, op_proxy_info = info,
                     op_http_request = set_header_token (hk_header_generator k3) request session_id req\<rparr>, k3)))"

text \<open>A hook runs; what it leaves in the session it was shown is written back.\<close>

definition write_session :: "nat option \<Rightarrow> ('c, 'j) session option \<Rightarrow> ('u, 'j, 'c) http_kind \<Rightarrow> ('u, 'j, 'c) http_kind" where
  "write_session session s k = (case s of None \<Rightarrow> k | Some s' \<Rightarrow> touch (\<lambda>_. s') session k)"

fun run_pre_hooks ::
  "(await_point \<Rightarrow> ('u, 'j, 'c) http_kind \<Rightarrow> ('u, 'j, 'c) http_kind) \<Rightarrow> ('u, 'j) request \<Rightarrow> nat
     \<Rightarrow> ('u, 'j, 'c) http_pre_hook list \<Rightarrow> ('u, 'j) opened \<Rightarrow> ('u, 'j, 'c) http_kind
     \<Rightarrow> (crawl_error + ('u, 'j) opened) \<times> ('u, 'j, 'c) http_kind" where
  "run_pre_hooks I request n [] op k = (Inr op, k)"
| "run_pre_hooks I request n (hook # hooks) op k =
     (let k1 = I (AtPreHook n) k;
          (r, req, s) = hook \<lparr>ph_request = request, ph_http_request = op_http_request op,
            ph_session = Option.bind (op_session op) (session_at k1), ph_proxy = op_proxy_info op\<rparr>;
          k2 = write_session (op_session op) s k1
      in case r of Inl e \<Rightarrow> (Inl e, k2)
         | Inr _ \<Rightarrow> run_pre_hooks I request (Suc n) hooks (op\<lparr>op_http_request := req\<rparr>) k2)"

fun run_post_hooks ::
  "(await_point \<Rightarrow> ('u, 'j, 'c) http_kind \<Rightarrow> ('u, 'j, 'c) http_kind) \<Rightarrow> ('u, 'j) request \<Rightarrow> 'u http_response \<Rightarrow> nat
     \<Rightarrow> ('u, 'j, 'c) http_post_hook list \<Rightarrow> ('u, 'j) opened \<Rightarrow> ('u, 'j, 'c) http_kind
     \<Rightarrow> (crawl_error + unit) \<times> ('u, 'j, 'c) http_kind" where
  "run_post_hooks I request response n [] op k = (Inr (), k)"
| "run_post_hooks I request response n (hook # hooks) op k =
     (let k1 = I (AtPostHook n) k;
          (r, s) = hook \<lparr>qh_request = request, qh_response = response,
            qh_session = Option.bind (op_session op) (session_at k1), qh_proxy = op_proxy_info op\<rparr>;
          k2 = write_session (op_session op) s k1
      in case r of Inl e \<Rightarrow> (Inl e, k2)
         | Inr _ \<Rightarrow> run_post_hooks I request response (Suc n) hooks op k2)"

text \<open>From the response to the context.\<close>

definition detected :: "('u, 'j, 'c) http_kind \<Rightarrow> 'u http_response \<Rightarrow> anti_bot_tech option" where
  "detected k response = Option.bind (hk_detect_anti_bot k) (\<lambda>d. d \<lparr>ab_status = rp_status response,
     ab_headers = rp_headers response, ab_body = rp_body response, ab_final_url = rp_url response\<rparr>)"

definition receive ::
  "('u, 'j) externals \<Rightarrow> http_externals \<Rightarrow> (await_point \<Rightarrow> ('u, 'j, 'c) http_kind \<Rightarrow> ('u, 'j, 'c) http_kind)
     \<Rightarrow> wall_time \<Rightarrow> ('u, 'j) request \<Rightarrow> ('u, 'j) opened \<Rightarrow> 'u http_response \<Rightarrow> ('u, 'j, 'c) http_kind
     \<Rightarrow> (crawl_error + ('u, 'j) http_context) \<times> ('u, 'j, 'c) http_kind" where
  "receive X H I now request op response k =
     (case detected k response of
        Some tech \<Rightarrow>
          (Inl (AntiBotDetected tech (anyhow_msg ''response body matched a known anti-bot challenge marker'')),
           touch mark_bad (op_session op) (I AtDetected k))
      | None \<Rightarrow>
     (case run_post_hooks I request response 0 (hk_post_hooks k) op k of
        (Inl e, k1) \<Rightarrow> (Inl e, k1)
      | (Inr _, k1) \<Rightarrow>
     (case classify_status X H (rp_status response) (parse_retry_after H (rp_headers response) now)
             (op_session op) (op_place op) (req_url request) (I AtStatus k1) of
        (Inl e, k2) \<Rightarrow> (Inl e, k2)
      | (Inr _, k2) \<Rightarrow>
          if hk_storage k2
          then (Inr \<lparr>hc_request = request, hc_response = response, hc_session = op_session op,
                 hc_proxy_info = op_proxy_info op, hc_enqueue = linker_new request\<rparr>, k2)
          else (Inl (Critical (anyhow_msg ''HttpKind::execute before start'')), k2))))"

text \<open>The client gets the outgoing request and the jar it names, and may change the jar.\<close>

definition send_request ::
  "(('u, 'j) http_request \<Rightarrow> 'c option \<Rightarrow> (http_client_error + 'u http_response) \<times> 'c option)
     \<Rightarrow> ('u, 'j) http_request \<Rightarrow> ('u, 'j, 'c) http_kind \<Rightarrow> (http_client_error + 'u http_response) \<times> ('u, 'j, 'c) http_kind" where
  "send_request client req k =
     (let (r, jar) = client req (map_option sess_cookies (Option.bind (hr_cookie_jar req) (session_at k)))
      in (r, case jar of None \<Rightarrow> k | Some c \<Rightarrow> touch (\<lambda>s. s\<lparr>sess_cookies := c\<rparr>) (hr_cookie_jar req) k))"

definition execute ::
  "('u, 'j) externals \<Rightarrow> http_externals \<Rightarrow> 'c jar_ops
     \<Rightarrow> (('u, 'j) http_request \<Rightarrow> 'c option \<Rightarrow> (http_client_error + 'u http_response) \<times> 'c option)
     \<Rightarrow> (await_point \<Rightarrow> ('u, 'j, 'c) http_kind \<Rightarrow> ('u, 'j, 'c) http_kind) \<Rightarrow> wall_time \<Rightarrow> wall_time
     \<Rightarrow> ('u, 'j) request \<Rightarrow> attempt_overrides \<Rightarrow> ('u, 'j, 'c) http_kind
     \<Rightarrow> (crawl_error + ('u, 'j) http_context) \<times> ('u, 'j, 'c) http_kind" where
  "execute X H J client I now1 now2 request overrides k =
     (case open_attempt X H J I now1 request overrides k of
        (Inl e, k1) \<Rightarrow> (Inl e, k1)
      | (Inr op, k1) \<Rightarrow>
     (case run_pre_hooks I request 0 (hk_pre_hooks k1) op k1 of
        (Inl e, k2) \<Rightarrow> (Inl e, k2)
      | (Inr op', k2) \<Rightarrow>
     (case send_request client (op_http_request op') (I AtSend k2) of
        (Inl e, k3) \<Rightarrow> (Inl (classify_client_error e), k3)
      | (Inr response, k3) \<Rightarrow> receive X H I now2 request op' response k3)))"

definition observe :: "('u, 'j, 'c) http_kind \<Rightarrow> ('u, 'j) http_context \<Rightarrow> 'u attempt_observation" where
  "observe k ctx = \<lparr>ob_status = Some (rp_status (hc_response ctx)), ob_loaded_url = Some (rp_url (hc_response ctx)),
     ob_session_id = map_option sess_id (Option.bind (hc_session ctx) (session_at k)),
     ob_proxy_info = hc_proxy_info ctx, ob_response_bytes = Some (length (rp_body (hc_response ctx)))\<rparr>"

section \<open>Cleanup, start and stop\<close>

text \<open>
  The key of a snapshot (\<open>snapshot.rs\<close>) and what \<open>cleanup\<close> stores: the response body of a failed handler.
  An error of the store is only logged.
\<close>

definition snapshot_base_key :: "http_externals \<Rightarrow> ('u, 'j) request \<Rightarrow> string" where
  "snapshot_base_key H request = ''ERROR_SNAPSHOT_'' @ hex16 (hx_hash_str H (req_unique_key request))"

record snapshot_capture =
  sc_key :: string
  sc_bytes :: "u8 list"
  sc_content_type :: string

definition capture_of :: "http_externals \<Rightarrow> ('u, 'j) http_context \<Rightarrow> snapshot_capture" where
  "capture_of H ctx = \<lparr>sc_key = snapshot_base_key H (hc_request ctx) @ ''.body'', sc_bytes = rp_body (hc_response ctx),
     sc_content_type = (case Option.bind (map_of (rp_headers (hc_response ctx)) ''content-type'') (hx_to_str H) of
        Some t \<Rightarrow> t | None \<Rightarrow> ''application/octet-stream'')\<rparr>"

definition cleanup ::
  "http_externals \<Rightarrow> ('u, 'j, ('u, 'j) http_context) request_outcome \<Rightarrow> ('u, 'j, 'c) http_kind
     \<Rightarrow> (crawl_error + unit) \<times> snapshot_capture list \<times> ('u, 'j, 'c) http_kind" where
  "cleanup H outcome k =
     (case outcome of
        HandlerFailed ctx e \<Rightarrow>
          (Inr (), if hk_snapshot_errors k then [capture_of H ctx] else [],
           if rotates_session e then touch mark_bad (hc_session ctx) k else k)
      | _ \<Rightarrow> (Inr (), [], k))"

text \<open>
  \<open>start\<close>: \<open>opened\<close> says whether the storage client is there and what opening its stores gave; \<open>kvs\<close> is
  what the key-value store holds for the pool. \<open>stop\<close> ends the persisting task and persists once more.
\<close>

definition start_kind ::
  "'c jar_ops \<Rightarrow> crawl_error + (string \<times> persisted_session list) list \<Rightarrow> storage_error option \<Rightarrow> ('u, 'j, 'c) http_kind
     \<Rightarrow> (crawl_error + unit) \<times> ('u, 'j, 'c) http_kind" where
  "start_kind J opened failure k =
     (case opened of
        Inl e \<Rightarrow> (Inl e, k)
      | Inr kvs \<Rightarrow>
          let k1 = k\<lparr>hk_storage := True\<rparr> in
          (case hk_sessions k1 of
             Owned p \<Rightarrow>
               (case pool_restore J failure (attach_persistence kvs p) of
                  (Inl e, p') \<Rightarrow> (Inl e, k1\<lparr>hk_sessions := Owned p'\<rparr>)
                | (Inr _, p') \<Rightarrow> (Inr (), k1\<lparr>hk_sessions := Owned p', hk_persist_task := True\<rparr>))
           | _ \<Rightarrow> (Inr (), k1)))"

definition stop_kind ::
  "'c jar_ops \<Rightarrow> storage_error option \<Rightarrow> ('u, 'j, 'c) http_kind \<Rightarrow> (crawl_error + unit) \<times> ('u, 'j, 'c) http_kind" where
  "stop_kind J failure k =
     (let k1 = k\<lparr>hk_persist_task := False\<rparr> in
      case hk_sessions k1 of
        Owned p \<Rightarrow> (Inr (), k1\<lparr>hk_sessions := Owned (snd (pool_persist J failure p))\<rparr>)
      | _ \<Rightarrow> (Inr (), k1))"

text \<open>The persisting task of \<open>start\<close>, on one event.\<close>

definition persist_on_event :: "'c jar_ops \<Rightarrow> storage_error option \<Rightarrow> bool \<Rightarrow> ('u, 'j, 'c) http_kind \<Rightarrow> ('u, 'j, 'c) http_kind" where
  "persist_on_event J failure persist_state k =
     (if hk_persist_task k \<and> persist_state
      then (case hk_sessions k of
          Owned p \<Rightarrow> k\<lparr>hk_sessions := Owned (snd (pool_persist J failure p))\<rparr>
        | _ \<Rightarrow> k)
      else k)"

end
