(* ===== verification/Http_Attempt.thy ===== *)
theory Http_Attempt
  imports Http_Kind
begin

text \<open>
  Properties of the HTTP crawler kind: how far a \<open>Retry-After\<close> header is trusted, what a response's status
  makes of an attempt and of the session and proxy it used, which identity an outgoing request carries, and
  that a session rejected often enough is never used again.
\<close>

section \<open>Trimmed numbers\<close>

lemma digit_not_space: "is_digit c \<Longrightarrow> \<not> is_ascii_space c"
  by (auto simp: is_digit_def is_ascii_space_def Let_def)

lemma dropWhile_pad: "list_all P xs \<Longrightarrow> ys = [] \<or> \<not> P (hd ys) \<Longrightarrow> dropWhile P (xs @ ys) = ys"
  by (induction xs) (auto simp: dropWhile_eq_self_iff)

lemma ascii_trim_pad:
  assumes "list_all is_ascii_space a" "list_all is_ascii_space b" "v \<noteq> []" "list_all is_digit v"
  shows "ascii_trim (a @ v @ b) = v"
proof -
  have "\<not> is_ascii_space (hd v)" "\<not> is_ascii_space (hd (rev v))"
    using assms(3,4) by (auto simp: list_all_iff hd_rev digit_not_space)
  then show ?thesis using assms
    by (simp add: ascii_trim_def dropWhile_pad list_all_rev rev_is_Nil_conv)
qed

lemma parse_u64_capped: "min (parse_u64_or_max (nat_text n)) 600 = min n 600"
  by (simp add: parse_u64_or_max_def decimal_nat_text)

section \<open>Properties\<close>

text \<open>
  A \<open>Retry-After\<close> header is trusted for at most ten minutes: the value is never more than 600 seconds;
  a decimal number of seconds, however large and whatever white space surrounds it, counts as that number or
  600; a date counts as the time left until it, nothing when it has passed, and 600 seconds at most.
\<close>

theorem retry_after_trusted:
  "(parse_retry_after H headers now = Some d \<longrightarrow> d \<le> secs 600)
   \<and> (map_of headers ''retry-after'' = Some raw \<and> hx_to_str H raw = Some (a @ nat_text n @ b)
        \<and> list_all is_ascii_space (a @ b) \<longrightarrow> parse_retry_after H headers now = Some (secs (min n 600)))
   \<and> (map_of headers ''retry-after'' = Some raw \<and> hx_to_str H raw = Some v \<and> \<not> list_all is_digit (ascii_trim v)
        \<and> hx_rfc2822 H (gmt_to_offset (ascii_trim v)) = Some date
      \<longrightarrow> parse_retry_after H headers now = Some (nat (min (max 0 (date - now)) (int (secs 600)))))"
proof (intro conjI impI; (elim conjE)?)
  assume "parse_retry_after H headers now = Some d"
  then show "d \<le> secs 600"
    by (auto simp: parse_retry_after_def Let_def secs_def split: option.splits if_splits)
next
  assume "map_of headers ''retry-after'' = Some raw" "hx_to_str H raw = Some (a @ nat_text n @ b)"
    and "list_all is_ascii_space (a @ b)"
  then show "parse_retry_after H headers now = Some (secs (min n 600))"
    using nat_text_digits [of n] by (simp add: parse_retry_after_def ascii_trim_pad parse_u64_capped)
next
  assume "map_of headers ''retry-after'' = Some raw" "hx_to_str H raw = Some v"
    and "\<not> list_all is_digit (ascii_trim v)" and "hx_rfc2822 H (gmt_to_offset (ascii_trim v)) = Some date"
  then show "parse_retry_after H headers now = Some (nat (min (max 0 (date - now)) (int (secs 600))))"
    by (auto simp: parse_retry_after_def Let_def min_def max_def)
qed


theorem retry_after_trusted_witness:
  "parse_retry_after sample_http [(''retry-after'', '' '' @ nat_text (2 ^ 70))] 0 = Some (secs 600)
   \<and> parse_retry_after (sample_http\<lparr>hx_rfc2822 := (\<lambda>_. Some 5)\<rparr>) [(''retry-after'', ''soon'')] 2 = Some 3
   \<and> 3 \<le> secs 600"
proof -
  let ?H = "sample_http\<lparr>hx_rfc2822 := (\<lambda>_. Some 5)\<rparr>"
  have "list_all is_ascii_space ('' '' @ [])" by (simp add: is_ascii_space_def)
  then have "parse_retry_after sample_http [(''retry-after'', '' '' @ nat_text (2 ^ 70))] 0 = Some (secs (min (2 ^ 70) 600))"
    using retry_after_trusted [of sample_http _ _ _ _ "'' ''" "2 ^ 70" "[]"] by (simp add: sample_http_def)
  moreover have "\<not> list_all is_digit (ascii_trim ''soon'')" by code_simp
  then have "parse_retry_after ?H [(''retry-after'', ''soon'')] 2 = Some 3"
    using retry_after_trusted [of ?H "[(''retry-after'', ''soon'')]" 2 _ "''soon''" _ _ _ "''soon''" 5]
    by (simp add: sample_http_def secs_def)
  moreover from this have "3 \<le> secs 600" using retry_after_trusted [of ?H "[(''retry-after'', ''soon'')]" 2 3] by simp
  ultimately show ?thesis by simp
qed

section \<open>Sessions in the kind\<close>

lemma with_pool_simps [simp]: "with_pool p' (with_pool p m) = with_pool p' m" by (cases m) simp_all

lemma session_pool_with [simp]:
  "session_pool k = Some p \<Longrightarrow> session_pool (k\<lparr>hk_sessions := with_pool p' (hk_sessions k)\<rparr>) = Some p'"
  by (auto simp: session_pool_def split: session_mode.splits)

lemma session_pool_touch:
  "session_pool (touch f session k) = (case session of None \<Rightarrow> session_pool k
     | Some a \<Rightarrow> map_option (on_session f a) (session_pool k))"
  by (auto simp: touch_def on_pool_def split: option.splits)

lemma session_at_touch:
  "session_at (touch f session k) b = map_option (if session = Some b then f else id) (session_at k b)"
  by (cases "session_pool k"; cases session) (auto simp: session_at_def session_pool_touch nth_list_update)

lemma report_proxy_sessions [simp]:
  "session_pool (report_proxy f place k) = session_pool k" "session_at (report_proxy f place k) b = session_at k b"
  "hk_storage (report_proxy f place k) = hk_storage k" "hk_session_status_codes (report_proxy f place k) = hk_session_status_codes k"
  by (simp_all add: report_proxy_def session_pool_def session_at_def split: option.splits)

lemma touch_fields [simp]:
  "hk_storage (touch f s k) = hk_storage k" "hk_proxies (touch f s k) = hk_proxies k"
  "hk_session_status_codes (touch f s k) = hk_session_status_codes k"
  by (simp_all add: touch_def on_pool_def split: option.splits)

section \<open>What a status means\<close>

lemma success_range: "is_success s \<or> is_redirection s \<longleftrightarrow> 200 \<le> s \<and> s < 400"
  by (auto simp: is_success_def is_redirection_def word_le_nat_alt word_less_nat_alt)

lemma status_error_carries:
  "http_status (Session (status_error H s ra)) = Some s" "retry_after (Session (status_error H s ra)) = ra"
  "http_status (Retry (status_error H s ra)) = Some s" "retry_after (Retry (status_error H s ra)) = ra"
  "http_status (NonRetryable (status_error H s ra)) = Some s" "retry_after (NonRetryable (status_error H s ra)) = ra"
  by (auto simp: http_status_def retry_after_def status_error_def with_retry_after_def http_status_error_new_def split: option.split)

text \<open>How a status changes the score of the session that met it.\<close>

definition status_mark :: "('u, 'j, 'c) http_kind \<Rightarrow> u16 \<Rightarrow> ('c, 'j) session \<Rightarrow> ('c, 'j) session" where
  "status_mark k status =
     (if status \<in> set (hk_session_status_codes k) then mark_bad
      else if status \<in> set (hk_retry_status_codes k) \<or> hk_retry_server_errors k \<and> is_server_error status
        \<or> \<not> is_success status \<and> \<not> is_redirection status then id
      else mark_good)"



definition sample_kind :: "(string, string, string) http_kind" where
  "sample_kind = \<lparr>hk_sessions = Owned sample_pool, hk_proxies = no_buckets, hk_proxy_strategy = None,
     hk_user_agents = [''a'', ''b''], hk_ua_cursor = 0, hk_retry_status_codes = [408, 429], hk_retry_server_errors = True,
     hk_session_status_codes = [401, 403], hk_request_timeout = secs 30, hk_max_redirects = 10, hk_detect_anti_bot = None,
     hk_header_generator = False, hk_snapshot_errors = False, hk_pre_hooks = [], hk_post_hooks = [], hk_storage = True,
     hk_persist_task = False, hk_rng = 7\<rparr>"

definition sample_opened :: "(string, string) opened" where
  "sample_opened = \<lparr>op_session = Some 0, op_place = None, op_proxy_info = None,
     op_http_request = http_request_new ''https://a/''\<rparr>"

definition sample_response :: "u16 \<Rightarrow> string http_response" where
  "sample_response status = http_response_new ''https://a/'' status [(''retry-after'', ''5'')] []"

lemma sample_pool_store: "length (sp_store sample_pool) = 1" "sp_sessions sample_pool = [0]"
  "sess_error_score_scaled (sp_store sample_pool ! 0) = 0" "sess_config (sp_store sample_pool ! 0) = session_config_default"
  unfolding sample_pool_def sample_new_def pool_new_def
  by (simp_all add: pool_session_def pool_create_def session_new_def Let_def split_def session_pool_options_default_def record_usage_def)


section \<open>A rejected session\<close>

definition excluded :: "nat \<Rightarrow> ('c, 'j) session_pool \<Rightarrow> bool" where
  "excluded a p \<longleftrightarrow> pool_inv p \<and> a < length (sp_store p) \<and> a \<notin> set (sp_sessions p)"

lemma excluded_on_session: "excluded a p \<Longrightarrow> excluded a (on_session f b p)"
  by (simp add: excluded_def pool_inv_on_session)

lemma excluded_checkout:
  assumes "excluded a p" and "pool_session J now sticky p = (b, p')"
  shows "excluded a p' \<and> b \<noteq> a"
proof -
  have inv: "pool_inv p" and a: "a < length (sp_store p)" "a \<notin> set (sp_sessions p)"
    using assms(1) by (simp_all add: excluded_def)
  then show ?thesis using pool_session_cases [OF inv assms(2)] pool_session_inv [OF inv assms(2)]
    by (auto simp: excluded_def served_old_def served_new_def)
qed

lemma excluded_step: "Session_Pool.pool_step J p p' \<Longrightarrow> excluded a p \<Longrightarrow> excluded a p'"
proof (induction rule: Session_Pool.pool_step.induct)
  case (checkout now sticky p b p')
  then show ?case using excluded_checkout by blast
next
  case (retire_id p i)
  then show ?case by (simp add: retire_session_def excluded_on_session split: option.split)
next
  case (attach p kvs)
  then show ?case by (simp add: excluded_def pool_inv_def attach_persistence_def)
next
  case (persist failure p res p')
  then have "sp_store p' = sp_store p \<and> sp_sessions p' = sp_sessions p"
    by (auto simp: pool_persist_def split: option.splits sum.splits)
  with persist.prems show ?case by (simp add: excluded_def pool_inv_def)
qed (simp_all add: excluded_on_session)

lemma excluded_run: "(Session_Pool.pool_step J)\<^sup>*\<^sup>* p p' \<Longrightarrow> excluded a p \<Longrightarrow> excluded a p'"
  by (induction rule: rtranclp_induct) (auto intro: excluded_step)

lemma checkout_drops_unusable:
  assumes "pool_inv p" and "a < length (sp_store p)" and "\<not> is_usable now (sp_store p ! a)"
    and "pool_session J now None p = (b, p')"
  shows "excluded a p' \<and> b \<noteq> a"
proof -
  let ?q = "p\<lparr>sp_sessions := filter (\<lambda>a. is_usable now (sp_store p ! a)) (sp_sessions p)\<rparr>"
  have "pool_session J now None p = pool_session J now None ?q" by (simp add: pool_session_def)
  moreover have "excluded a ?q" using assms(1-3) by (simp add: excluded_def pool_inv_def)
  ultimately show ?thesis using excluded_checkout assms(4) by metis
qed

lemma unat_u32_le: "unat (w :: u32) \<le> 4294967295"
  using unsigned_less [of w, where ?'a = nat] by simp

lemma bad_marks:
  "unat (sess_error_score_scaled ((mark_bad ^^ n) s)) = min (2 ^ 32 - 1) (unat (sess_error_score_scaled s) + 1000 * n)
   \<and> sess_config ((mark_bad ^^ n) s) = sess_config s"
  by (induction n) (auto simp: mark_bad_def unat_sat_add min_absorb2 unat_u32_le)

lemma many_bad_marks_block:
  assumes "unat (max_error_score_scaled (sess_config s)) \<le> 1000 * n"
  shows "\<not> is_usable now ((mark_bad ^^ n) s)"
  using assms bad_marks [of n s] unat_u32_le [of "max_error_score_scaled (sess_config s)"]
  by (simp add: is_usable_def word_less_nat_alt min_def)

lemma rejections_mark:
  assumes "\<forall>s \<in> set statuses. s \<in> set (hk_session_status_codes k)" and "session_pool k = Some p"
  shows "session_pool (fold (\<lambda>s k. snd (classify_status X H s retry (Some a) place target k)) statuses k)
    = Some ((on_session mark_bad a ^^ length statuses) p)"
  using assms
proof (induction statuses arbitrary: k p)
  case (Cons s ss)
  let ?k = "snd (classify_status X H s retry (Some a) place target k)"
  have k: "?k = report_proxy (report_blocked X target) place (touch mark_bad (Some a) k)"
    using Cons.prems(1) by (simp add: classify_status_def)
  then have "session_pool ?k = Some (on_session mark_bad a p)" using Cons.prems(2) by (simp add: session_pool_touch)
  then show ?case using Cons.IH [of ?k] Cons.prems(1) k by (simp add: funpow_swap1)
qed simp

lemma on_session_funpow:
  assumes "a < length (sp_store p)"
  shows "sp_store ((on_session f a ^^ n) p) = (sp_store p)[a := (f ^^ n) (sp_store p ! a)]
    \<and> sp_sessions ((on_session f a ^^ n) p) = sp_sessions p"
  using assms by (induction n) simp_all

lemma acquire_session_pool:
  assumes "session_pool k = Some p" and "acquire_session J now k = (Some b, k')" and "session_pool k' = Some p'"
  shows "pool_session J now None (p\<lparr>sp_rng := hk_rng k\<rparr>) = (b, p')"
  using assms by (cases "hk_sessions k") (auto simp: acquire_session_def Let_def session_pool_def split: prod.splits)



lemma sample_pool_kind: "session_pool sample_kind = Some sample_pool" "hk_session_status_codes sample_kind = [401, 403]"
  by (simp_all add: sample_kind_def session_pool_def)


section \<open>The identity of a request\<close>

lemma map_of_header_insert: "map_of (header_insert n v hs) m = (if m = n then Some v else map_of hs m)"
  by (induction hs) (auto simp: header_insert_def)

lemma acquire_session_some: "session_pool k = Some p \<Longrightarrow> \<exists>a. fst (acquire_session J now k) = Some a"
  by (simp add: acquire_session_def split: prod.split)

lemma insert_user_agent_ok:
  assumes "insert_user_agent H agent req = Inr q"
  shows "hx_from_str H agent = Inr (the (map_of (hr_headers q) ''user-agent'')) \<and> map_of (hr_headers q) ''user-agent'' \<noteq> None
    \<and> (n \<noteq> ''user-agent'' \<longrightarrow> map_of (hr_headers q) n = map_of (hr_headers req) n)
    \<and> (\<exists>hs. q = req\<lparr>hr_headers := hs\<rparr>)"
  using assms by (auto simp: insert_user_agent_def map_of_header_insert split: sum.splits)

lemma set_user_agent_ok:
  assumes "set_user_agent H overrides session_id req k = (Inr q, k')"
  shows "hk_user_agents k' = hk_user_agents k \<and> (\<exists>hs. q = req\<lparr>hr_headers := hs\<rparr>)
    \<and> (n \<noteq> ''user-agent'' \<longrightarrow> map_of (hr_headers q) n = map_of (hr_headers req) n)
    \<and> (case ov_user_agent_profile overrides of
        Some agent \<Rightarrow> hx_from_str H agent = Inr (the (map_of (hr_headers q) ''user-agent''))
      | None \<Rightarrow>
         (case map_of (hr_headers req) ''user-agent'' of
            Some v \<Rightarrow> map_of (hr_headers q) ''user-agent'' = Some v
          | None \<Rightarrow> hk_user_agents k \<noteq> [] \<longrightarrow> (\<exists>i < length (hk_user_agents k).
               hx_from_str H (hk_user_agents k ! i) = Inr (the (map_of (hr_headers q) ''user-agent''))
               \<and> map_of (hr_headers q) ''user-agent'' \<noteq> None
               \<and> (\<forall>sid. session_id = Some sid \<longrightarrow> i = unat (hx_hash_bytes H (as_bytes sid)) mod length (hk_user_agents k)))))"
proof (cases "ov_user_agent_profile overrides")
  case (Some agent)
  then have "insert_user_agent H agent req = Inr q" "k' = k" using assms by (simp_all add: set_user_agent_def)
  then show ?thesis using insert_user_agent_ok [of H agent req q n] Some by simp
next
  case None
  note o = None
  show ?thesis
  proof (cases "map_of (hr_headers req) ''user-agent'' = None \<and> hk_user_agents k \<noteq> []")
    case False
    then have q: "q = req" "k' = k" using assms o by (auto simp: set_user_agent_def)
    have "\<exists>hs. req = req\<lparr>hr_headers := hs\<rparr>" by (rule exI [of _ "hr_headers req"]) simp
    then show ?thesis using False o unfolding q by (auto split: option.splits)
  next
    case True
    let ?i = "unat (case session_id of Some i \<Rightarrow> hx_hash_bytes H (as_bytes i) | None \<Rightarrow> hk_ua_cursor k) mod length (hk_user_agents k)"
    have "insert_user_agent H (hk_user_agents k ! ?i) req = Inr q" "hk_user_agents k' = hk_user_agents k"
      using assms o True by (auto simp: set_user_agent_def split: option.splits)
    moreover have "?i < length (hk_user_agents k)" using True by simp
    ultimately show ?thesis using insert_user_agent_ok [of H _ req q n] o True by (auto intro!: exI [of _ ?i])
  qed
qed

text \<open>
  The identity of an outgoing request. Its cookies are those of the session checked out for the attempt,
  its proxy is the one resolved for it, and its method, URL and body are the request's. Its \<open>User-Agent\<close> is, in
  this order, the one a retry directive asks for, the one the request itself has, or one of the configured
  agents, which with sessions is a function of the session's identifier, so that a session keeps its agent.
  No other header changes.
\<close>

theorem outgoing_identity:
  assumes "open_attempt X H J I now request overrides k = (Inr op, k')"
  defines "session_id \<equiv> map_option sess_id (Option.bind (op_session op) (session_at (snd (acquire_session J now (I AtSession k)))))"
    and "req \<equiv> op_http_request op"
  shows "op_session op = fst (acquire_session J now (I AtSession k)) \<and> hr_cookie_jar req = op_session op
   \<and> hr_proxy req = map_option pi_url (op_proxy_info op)
   \<and> hr_url req = req_url request \<and> hr_method req = req_method request \<and> hr_body req = req_body request
   \<and> (n \<noteq> ''user-agent'' \<longrightarrow> map_of (hr_headers req) n = map_of (req_headers request) n)
   \<and> (case ov_user_agent_profile overrides of
        Some agent \<Rightarrow> hx_from_str H agent = Inr (the (map_of (hr_headers req) ''user-agent''))
      | None \<Rightarrow>
         (case map_of (req_headers request) ''user-agent'' of
            Some v \<Rightarrow> map_of (hr_headers req) ''user-agent'' = Some v
          | None \<Rightarrow> hk_user_agents k' \<noteq> [] \<longrightarrow> (\<exists>i < length (hk_user_agents k').
               hx_from_str H (hk_user_agents k' ! i) = Inr (the (map_of (hr_headers req) ''user-agent''))
               \<and> map_of (hr_headers req) ''user-agent'' \<noteq> None
               \<and> (\<forall>sid. session_id = Some sid \<longrightarrow> i = unat (hx_hash_bytes H (as_bytes sid)) mod length (hk_user_agents k')))))"
proof -
  obtain session k1 where s: "acquire_session J now (I AtSession k) = (session, k1)" by (rule prod.exhaust)
  let ?id = "map_option sess_id (Option.bind session (session_at k1))"
  let ?place = "for_kind (hk_proxies k1) (route_kind k1 request overrides)"
  obtain res k2 where r: "resolve_proxy X request ?id ?place (I AtProxy k1) = (res, k2)" by (rule prod.exhaust)
  obtain info where i: "res = Inr info"
    using assms(1) s r by (cases res) (simp_all add: open_attempt_def)
  let ?base = "base_request k2 request session info"
  obtain q where q: "set_user_agent H overrides ?id ?base k2 = (Inr q, k')"
    and o: "op = \<lparr>op_session = session, op_place = ?place, op_proxy_info = info,
      op_http_request = set_header_token (hk_header_generator k') request ?id q\<rparr>"
    using assms(1) s r i by (auto simp: open_attempt_def Let_def split: prod.splits sum.splits)
  have b: "hr_headers ?base = req_headers request" "hr_cookie_jar ?base = session" "hr_url ?base = req_url request"
    "hr_proxy ?base = map_option pi_url info" "hr_method ?base = req_method request" "hr_body ?base = req_body request"
    by (simp_all add: base_request_def from_request_def http_request_new_def)
  have t: "req = set_header_token (hk_header_generator k') request ?id q" by (simp add: req_def o)
  have f: "hr_headers req = hr_headers q" "hr_cookie_jar req = hr_cookie_jar q" "hr_url req = hr_url q"
    "hr_proxy req = hr_proxy q" "hr_method req = hr_method q" "hr_body req = hr_body q"
    by (simp_all add: t set_header_token_def)
  have id: "session_id = ?id" by (simp add: session_id_def o s)
  have h: "hr_cookie_jar q = session" "hr_url q = req_url request" "hr_proxy q = map_option pi_url info"
    "hr_method q = req_method request" "hr_body q = req_body request"
    using set_user_agent_ok [OF q, of n] b(2-6) by auto
  have "op_session op = session" "op_proxy_info op = info" by (simp_all add: o)
  then show ?thesis unfolding id f s fst_conv using set_user_agent_ok [OF q, of n] h unfolding b
    by (auto split: option.splits)
qed


theorem outgoing_identity_witness:
  "\<exists>op k' i. open_attempt sample_externals sample_http sample_jar (\<lambda>_ k. k) 5 (sample_request ''k'' ''https://a/'') no_overrides sample_kind = (Inr op, k')
     \<and> i < 2 \<and> map_of (hr_headers (op_http_request op)) ''user-agent'' = Some ([''a'', ''b''] ! i) \<and> hr_cookie_jar (op_http_request op) = op_session op"
proof -
  let ?r = "sample_request ''k'' ''https://a/''"
  obtain session k1 where s: "acquire_session sample_jar 5 sample_kind = (session, k1)" by (rule prod.exhaust)
  then have k1: "hk_proxies k1 = no_buckets" "hk_proxy_strategy k1 = None" "hk_user_agents k1 = [''a'', ''b'']"
    by (auto simp: acquire_session_def sample_kind_def session_pool_def split: prod.splits)
  let ?o = "open_attempt sample_externals sample_http sample_jar (\<lambda>_ k. k) 5 ?r no_overrides sample_kind"
  have place: "for_kind no_buckets (route_kind k1 ?r no_overrides) = None"
    by (simp add: for_kind_def bucket_def no_buckets_def split: proxy_kind.split)
  have hs: "req_headers ?r = []" by (simp add: sample_request_def)
  let ?id = "map_option sess_id (Option.bind session (session_at k1))"
  have "\<exists>q k'. set_user_agent sample_http no_overrides ?id (base_request k1 ?r session None) k1 = (Inr q, k')"
    by (simp add: set_user_agent_def insert_user_agent_def sample_http_def split: option.split)
  then obtain op k' where o: "?o = (Inr op, k')"
    by (auto simp: open_attempt_def s k1 place resolve_proxy_def Let_def)
  then have u: "hk_user_agents k' = [''a'', ''b'']"
    using set_user_agent_ok [of sample_http no_overrides ?id "base_request k1 ?r session None" k1]
    by (auto simp: open_attempt_def s k1 place resolve_proxy_def Let_def split: prod.splits sum.splits)
  obtain i where "i < 2" "hx_from_str sample_http ([''a'', ''b''] ! i) = Inr (the (map_of (hr_headers (op_http_request op)) ''user-agent''))"
    "map_of (hr_headers (op_http_request op)) ''user-agent'' \<noteq> None" "hr_cookie_jar (op_http_request op) = op_session op"
    using outgoing_identity [OF o, of "[]"] by (auto simp: u hs no_overrides_def numeral_2_eq_2)
  then show ?thesis using o by (intro exI [of _ op] exI [of _ k'] exI [of _ i]) (auto simp: sample_http_def)
qed

section \<open>Disabling sessions\<close>

text \<open>
  \<open>disable_sessions\<close> clears the options of an owned pool only: a kind built with a shared pool still uses it.
\<close>

theorem disable_sessions_keeps_shared:
  "\<exists>k. http_kind_build (Inr ()) rng (kb_disable_sessions (kb_set_shared_session_pool p http_kind_builder_default)) = Inr k
     \<and> session_pool k = Some p"
  by (simp add: http_kind_build_def kb_disable_sessions_def kb_set_shared_session_pool_def http_kind_builder_default_def session_pool_def)

end
