(* ===== verification/Coalesce.thy ===== *)
theory Coalesce
  imports Http_Kind
begin

text \<open>
  The coalescing client (\<open>millipede-http/src/coalesce.rs\<close>): safe requests that are already in flight are joined. The
  state is the map of requests in flight, the store of the shared \<open>OnceCell\<close>s (an \<open>Arc\<close> is an index of it)
  and the callers of \<open>send\<close>, which run in any order: a caller enters, is polled while it waits for its cell, finishes
  the inner request it leads, or is dropped at an await point. The inner client's answer is chosen by the environment.
\<close>

section \<open>The client\<close>

record coalesce_key =
  ck_unique_key :: string
  ck_proxy :: "string option"
  ck_jar :: "nat option"

text \<open>
  \<open>tokio::sync::OnceCell\<close>: a value set once, and a permit held by the caller that runs the initialiser; a caller that is
  dropped gives the permit back.
\<close>

record 'v once_cell =
  oc_value :: "'v option"
  oc_permit :: bool

definition once_cell_new :: "'v once_cell" where
  "once_cell_new = \<lparr>oc_value = None, oc_permit = True\<rparr>"

type_synonym 'u shared_result = "string + 'u http_response"

type_synonym 'u send_result = "http_client_error + 'u http_response"

datatype 'u phase = Passing | Waiting nat | Leading nat | Returned "'u send_result" | Dropped

record ('u, 'j) caller =
  cl_request :: "('u, 'j) http_request"
  cl_phase :: "'u phase"

record ('u, 'j) coalescing_client =
  cc_in_flight :: "(coalesce_key \<times> nat) list"
  cc_cells :: "'u shared_result once_cell list"
  cc_callers :: "('u, 'j) caller list"

definition coalescing_new :: "('u, 'j) coalescing_client" where
  "coalescing_new = \<lparr>cc_in_flight = [], cc_cells = [], cc_callers = []\<rparr>"

definition coalesces :: "('u, 'j) http_request \<Rightarrow> bool" where
  "coalesces r = ((hr_method r = ''GET'' \<or> hr_method r = ''HEAD'') \<and> hr_body r = None)"

definition coalesce_key_of :: "('u, 'j) externals \<Rightarrow> ('u, 'j) http_request \<Rightarrow> coalesce_key" where
  "coalesce_key_of X r = \<lparr>ck_unique_key = compute_unique_key X (hr_url r) (hr_method r) None,
     ck_proxy = map_option (url_string X) (hr_proxy r), ck_jar = hr_cookie_jar r\<rparr>"

definition set_phase :: "nat \<Rightarrow> 'u phase \<Rightarrow> ('u, 'j) coalescing_client \<Rightarrow> ('u, 'j) coalescing_client" where
  "set_phase i p s = s\<lparr>cc_callers := (cc_callers s)[i := (cc_callers s ! i)\<lparr>cl_phase := p\<rparr>]\<rparr>"

definition set_cell :: "nat \<Rightarrow> 'u shared_result once_cell \<Rightarrow> ('u, 'j) coalescing_client \<Rightarrow> ('u, 'j) coalescing_client" where
  "set_cell c v s = s\<lparr>cc_cells := (cc_cells s)[c := v]\<rparr>"

text \<open>\<open>InFlightGuard::drop\<close>.\<close>

definition guard_drop :: "bool \<Rightarrow> coalesce_key \<Rightarrow> nat \<Rightarrow> ('u, 'j) coalescing_client \<Rightarrow> ('u, 'j) coalescing_client" where
  "guard_drop active key c s =
     (if \<not> active \<or> oc_value (cc_cells s ! c) = None then s
      else if map_of (cc_in_flight s) key = Some c
      then s\<lparr>cc_in_flight := AList.delete key (cc_in_flight s)\<rparr>
      else s)"

text \<open>\<open>send\<close> up to its first await point.\<close>

definition enter :: "('u, 'j) externals \<Rightarrow> ('u, 'j) http_request \<Rightarrow> ('u, 'j) coalescing_client \<Rightarrow> ('u, 'j) coalescing_client" where
  "enter X r s =
     (if \<not> coalesces r then s\<lparr>cc_callers := cc_callers s @ [\<lparr>cl_request = r, cl_phase = Passing\<rparr>]\<rparr>
      else
        let key = coalesce_key_of X r in
        case map_of (cc_in_flight s) key of
          Some c \<Rightarrow> s\<lparr>cc_callers := cc_callers s @ [\<lparr>cl_request = r, cl_phase = Waiting c\<rparr>]\<rparr>
        | None \<Rightarrow>
            let c = length (cc_cells s) in
            s\<lparr>cc_cells := cc_cells s @ [once_cell_new], cc_in_flight := AList.update key c (cc_in_flight s),
              cc_callers := cc_callers s @ [\<lparr>cl_request = r, cl_phase = Waiting c\<rparr>]\<rparr>)"

definition shared_of :: "'u send_result \<Rightarrow> 'u shared_result" where
  "shared_of result = (case result of Inl e \<Rightarrow> Inl (anyhow_text (client_error_chain e)) | Inr response \<Rightarrow> Inr response)"

definition joined :: "'u shared_result \<Rightarrow> 'u send_result" where
  "joined shared = (case shared of
       Inl message \<Rightarrow> Inl (ClientOther (anyhow_msg (''coalesced request failed: '' @ message)))
     | Inr response \<Rightarrow> Inr response)"

text \<open>A waiting caller reads a settled cell, or takes the free permit of an open one and starts the inner request.\<close>

definition poll :: "('u, 'j) externals \<Rightarrow> nat \<Rightarrow> ('u, 'j) coalescing_client \<Rightarrow> ('u, 'j) coalescing_client option" where
  "poll X i s =
     (case cl_phase (cc_callers s ! i) of
        Waiting c \<Rightarrow>
          (case oc_value (cc_cells s ! c) of
             Some v \<Rightarrow> Some (guard_drop False (coalesce_key_of X (cl_request (cc_callers s ! i))) c (set_phase i (Returned (joined v)) s))
           | None \<Rightarrow>
               if oc_permit (cc_cells s ! c)
               then Some (set_phase i (Leading c) (set_cell c ((cc_cells s ! c)\<lparr>oc_permit := False\<rparr>) s))
               else None)
      | _ \<Rightarrow> None)"

text \<open>The inner request is answered: the cell is set, the guard dropped, and the leader keeps the result itself.\<close>

definition finish :: "('u, 'j) externals \<Rightarrow> nat \<Rightarrow> 'u send_result \<Rightarrow> ('u, 'j) coalescing_client \<Rightarrow> ('u, 'j) coalescing_client option" where
  "finish X i result s =
     (case cl_phase (cc_callers s ! i) of
        Passing \<Rightarrow> Some (set_phase i (Returned result) s)
      | Leading c \<Rightarrow>
          Some (guard_drop True (coalesce_key_of X (cl_request (cc_callers s ! i))) c
            (set_phase i (Returned result) (set_cell c ((cc_cells s ! c)\<lparr>oc_value := Some (shared_of result)\<rparr>) s)))
      | _ \<Rightarrow> None)"

definition cancel :: "('u, 'j) externals \<Rightarrow> nat \<Rightarrow> ('u, 'j) coalescing_client \<Rightarrow> ('u, 'j) coalescing_client option" where
  "cancel X i s =
     (case cl_phase (cc_callers s ! i) of
        Passing \<Rightarrow> Some (set_phase i Dropped s)
      | Waiting c \<Rightarrow> Some (guard_drop False (coalesce_key_of X (cl_request (cc_callers s ! i))) c (set_phase i Dropped s))
      | Leading c \<Rightarrow>
          Some (guard_drop True (coalesce_key_of X (cl_request (cc_callers s ! i))) c
            (set_phase i Dropped (set_cell c ((cc_cells s ! c)\<lparr>oc_permit := True\<rparr>) s)))
      | _ \<Rightarrow> None)"

datatype ('u, 'j) cevent = Enter "('u, 'j) http_request" | Poll nat | Finish nat "'u send_result" | Cancel nat

definition coalesce_step :: "('u, 'j) externals \<Rightarrow> ('u, 'j) cevent \<Rightarrow> ('u, 'j) coalescing_client \<Rightarrow> ('u, 'j) coalescing_client option" where
  "coalesce_step X e s =
     (case e of
        Enter r \<Rightarrow> Some (enter X r s)
      | Poll i \<Rightarrow> if i < length (cc_callers s) then poll X i s else None
      | Finish i result \<Rightarrow> if i < length (cc_callers s) then finish X i result s else None
      | Cancel i \<Rightarrow> if i < length (cc_callers s) then cancel X i s else None)"

fun coalesce_run :: "('u, 'j) externals \<Rightarrow> ('u, 'j) cevent list \<Rightarrow> ('u, 'j) coalescing_client \<Rightarrow> ('u, 'j) coalescing_client option" where
  "coalesce_run X [] s = Some s"
| "coalesce_run X (e # es) s = (case coalesce_step X e s of None \<Rightarrow> None | Some s' \<Rightarrow> coalesce_run X es s')"

section \<open>The invariant\<close>

abbreviation phase_of :: "('u, 'j) coalescing_client \<Rightarrow> nat \<Rightarrow> 'u phase" where
  "phase_of s i \<equiv> cl_phase (cc_callers s ! i)"

abbreviation key_at :: "('u, 'j) externals \<Rightarrow> ('u, 'j) coalescing_client \<Rightarrow> nat \<Rightarrow> coalesce_key" where
  "key_at X s i \<equiv> coalesce_key_of X (cl_request (cc_callers s ! i))"

definition map_ok :: "('u, 'j) coalescing_client \<Rightarrow> bool" where
  "map_ok s = (\<forall>k c. map_of (cc_in_flight s) k = Some c \<longrightarrow> c < length (cc_cells s) \<and> oc_value (cc_cells s ! c) = None
     \<and> (\<forall>k'. map_of (cc_in_flight s) k' = Some c \<longrightarrow> k' = k))"

definition caller_ok :: "('u, 'j) externals \<Rightarrow> ('u, 'j) coalescing_client \<Rightarrow> nat \<Rightarrow> bool" where
  "caller_ok X s i =
     (\<forall>c. (phase_of s i = Waiting c \<or> phase_of s i = Leading c) \<longrightarrow>
        coalesces (cl_request (cc_callers s ! i)) \<and> c < length (cc_cells s)
        \<and> (oc_value (cc_cells s ! c) = None \<longrightarrow> map_of (cc_in_flight s) (key_at X s i) = Some c)
        \<and> (phase_of s i = Leading c \<longrightarrow> oc_value (cc_cells s ! c) = None \<and> \<not> oc_permit (cc_cells s ! c)))"

definition permits_ok :: "('u, 'j) coalescing_client \<Rightarrow> bool" where
  "permits_ok s = (\<forall>c < length (cc_cells s). oc_value (cc_cells s ! c) = None \<longrightarrow> \<not> oc_permit (cc_cells s ! c) \<longrightarrow>
     (\<exists>i < length (cc_callers s). phase_of s i = Leading c))"

definition leaders_unique :: "('u, 'j) coalescing_client \<Rightarrow> bool" where
  "leaders_unique s = (\<forall>i < length (cc_callers s). \<forall>j < length (cc_callers s). \<forall>c.
     phase_of s i = Leading c \<longrightarrow> phase_of s j = Leading c \<longrightarrow> i = j)"

definition coalesce_inv :: "('u, 'j) externals \<Rightarrow> ('u, 'j) coalescing_client \<Rightarrow> bool" where
  "coalesce_inv X s = (map_ok s \<and> permits_ok s \<and> leaders_unique s \<and> (\<forall>i < length (cc_callers s). caller_ok X s i))"

lemma set_phase_simps [simp]:
  "cc_in_flight (set_phase i p s) = cc_in_flight s" "cc_cells (set_phase i p s) = cc_cells s"
  "length (cc_callers (set_phase i p s)) = length (cc_callers s)"
  "i < length (cc_callers s) \<Longrightarrow> phase_of (set_phase i p s) j = (if j = i then p else phase_of s j)"
  by (simp_all add: set_phase_def nth_list_update)

lemma set_phase_request [simp]: "cl_request (cc_callers (set_phase i p s) ! j) = cl_request (cc_callers s ! j)"
  by (cases "i < length (cc_callers s)") (simp_all add: set_phase_def nth_list_update list_update_beyond not_less)

lemma set_cell_simps [simp]:
  "cc_in_flight (set_cell c v s) = cc_in_flight s" "length (cc_cells (set_cell c v s)) = length (cc_cells s)"
  "cc_callers (set_cell c v s) = cc_callers s"
  "c < length (cc_cells s) \<Longrightarrow> cc_cells (set_cell c v s) ! d = (if d = c then v else cc_cells s ! d)"
  by (auto simp: set_cell_def nth_list_update)

lemma guard_drop_inactive [simp]: "guard_drop False k c s = s"
  by (simp add: guard_drop_def)

lemma guard_drop_open [simp]: "oc_value (cc_cells s ! c) = None \<Longrightarrow> guard_drop a k c s = s"
  by (simp add: guard_drop_def)

lemma guard_drop_settled:
  "oc_value (cc_cells s ! c) \<noteq> None \<Longrightarrow> map_of (cc_in_flight s) k = Some c \<Longrightarrow>
    guard_drop True k c s = s\<lparr>cc_in_flight := AList.delete k (cc_in_flight s)\<rparr>"
  by (auto simp: guard_drop_def)

lemma new_inv: "coalesce_inv X coalescing_new"
  by (simp add: coalesce_inv_def map_ok_def permits_ok_def leaders_unique_def coalescing_new_def)

text \<open>A caller is added: what it waits for, if anything, is the cell of its key.\<close>

lemma add_caller_inv:
  assumes inv: "coalesce_inv X s" and p: "p = Passing \<or> (\<exists>c. p = Waiting c \<and> coalesces r \<and> map_of (cc_in_flight s) (coalesce_key_of X r) = Some c)"
  shows "coalesce_inv X (s\<lparr>cc_callers := cc_callers s @ [\<lparr>cl_request = r, cl_phase = p\<rparr>]\<rparr>)" (is "coalesce_inv X ?s")
proof -
  have "map_ok ?s" using inv by (simp add: coalesce_inv_def map_ok_def)
  moreover have "permits_ok ?s" using inv by (fastforce simp: coalesce_inv_def permits_ok_def nth_append)
  moreover have "leaders_unique ?s" using inv p by (auto simp: coalesce_inv_def leaders_unique_def nth_append less_Suc_eq)
  moreover have "caller_ok X ?s i" if i: "i < length (cc_callers ?s)" for i
  proof (cases "i < length (cc_callers s)")
    case True
    then have "caller_ok X s i" using inv by (simp add: coalesce_inv_def)
    then show ?thesis using True by (simp add: caller_ok_def nth_append)
  next
    case False
    have "i = length (cc_callers s)" using i False by simp
    then show ?thesis using p inv by (auto simp: caller_ok_def coalesce_inv_def map_ok_def)
  qed
  ultimately show ?thesis by (simp add: coalesce_inv_def)
qed

text \<open>A fresh cell is allocated for a key that has none.\<close>

lemma new_cell_inv:
  assumes inv: "coalesce_inv X s" and k: "map_of (cc_in_flight s) k = None"
  shows "coalesce_inv X (s\<lparr>cc_cells := cc_cells s @ [once_cell_new], cc_in_flight := AList.update k (length (cc_cells s)) (cc_in_flight s)\<rparr>)"
    (is "coalesce_inv X ?s")
proof -
  have m: "map_ok s" using inv by (simp add: coalesce_inv_def)
  have "map_ok ?s" unfolding map_ok_def
  proof (intro allI impI conjI)
    fix k' c
    assume c: "map_of (cc_in_flight ?s) k' = Some c"
    then have old: "k' \<noteq> k \<Longrightarrow> c < length (cc_cells s)" using m by (auto simp: update_conv' map_ok_def)
    show "c < length (cc_cells ?s)" using c old by (cases "k' = k") auto
    show "oc_value (cc_cells ?s ! c) = None" using c m by (cases "k' = k") (auto simp: map_ok_def nth_append once_cell_new_def)
    fix k''
    assume "map_of (cc_in_flight ?s) k'' = Some c"
    then show "k'' = k'" using c m by (cases "k' = k"; cases "k'' = k") (auto simp: map_ok_def)
  qed
  moreover have "permits_ok ?s" using inv by (auto simp: coalesce_inv_def permits_ok_def nth_append once_cell_new_def)
  moreover have "leaders_unique ?s" using inv by (simp add: coalesce_inv_def leaders_unique_def)
  moreover have "caller_ok X ?s i" if i: "i < length (cc_callers s)" for i
  proof -
    have "caller_ok X s i" using inv i by (simp add: coalesce_inv_def)
    moreover have "map_of (cc_in_flight s) (key_at X s i) = Some c \<Longrightarrow> key_at X s i \<noteq> k" for c using k by auto
    ultimately show ?thesis unfolding caller_ok_def by (fastforce simp: nth_append)
  qed
  ultimately show ?thesis by (simp add: coalesce_inv_def)
qed

lemma enter_inv:
  assumes inv: "coalesce_inv X s"
  shows "coalesce_inv X (enter X r s)"
proof (cases "coalesces r \<and> map_of (cc_in_flight s) (coalesce_key_of X r) = None")
  case False
  then show ?thesis using add_caller_inv [OF inv] by (auto simp: enter_def Let_def)
next
  case True
  then show ?thesis using add_caller_inv [OF new_cell_inv [OF inv, of "coalesce_key_of X r"], of "Waiting (length (cc_cells s))" r]
    by (simp add: enter_def Let_def)
qed

text \<open>A caller stops without settling its cell.\<close>

lemma leave_inv:
  assumes inv: "coalesce_inv X s" and i: "i < length (cc_callers s)" and p: "\<And>c. p \<noteq> Waiting c \<and> p \<noteq> Leading c"
    and free: "\<And>c. phase_of s i \<noteq> Leading c"
  shows "coalesce_inv X (set_phase i p s)"
  using assms by (fastforce simp: coalesce_inv_def map_ok_def permits_ok_def leaders_unique_def caller_ok_def)

text \<open>Only the cell \<open>c\<close> and its callers change.\<close>

lemma permits_transfer:
  assumes "permits_ok s" "length (cc_cells t) = length (cc_cells s)" "length (cc_callers t) = length (cc_callers s)"
    and "\<And>d. d \<noteq> c \<Longrightarrow> cc_cells t ! d = cc_cells s ! d"
    and "\<And>j d. j < length (cc_callers s) \<Longrightarrow> d \<noteq> c \<Longrightarrow> phase_of s j = Leading d \<Longrightarrow> phase_of t j = Leading d"
    and "oc_value (cc_cells t ! c) = None \<Longrightarrow> \<not> oc_permit (cc_cells t ! c) \<Longrightarrow> \<exists>i < length (cc_callers s). phase_of t i = Leading c"
  shows "permits_ok t"
  unfolding permits_ok_def
proof (intro allI impI)
  fix d
  assume d: "d < length (cc_cells t)" "oc_value (cc_cells t ! d) = None" "\<not> oc_permit (cc_cells t ! d)"
  show "\<exists>i < length (cc_callers t). phase_of t i = Leading d"
  proof (cases "d = c")
    case True
    then show ?thesis using assms(3,6) d by simp
  next
    case False
    then obtain j where "j < length (cc_callers s)" "phase_of s j = Leading d"
      using assms(1,2,4) d by (auto simp: permits_ok_def)
    then show ?thesis using assms(3,5) False by auto
  qed
qed

text \<open>A waiting caller takes the free permit of its open cell; a leader gives it back.\<close>

lemma lead_inv:
  assumes inv: "coalesce_inv X s" and i: "i < length (cc_callers s)" and w: "phase_of s i = Waiting c"
    and c: "oc_value (cc_cells s ! c) = None" "oc_permit (cc_cells s ! c)"
  shows "coalesce_inv X (set_phase i (Leading c) (set_cell c ((cc_cells s ! c)\<lparr>oc_permit := False\<rparr>) s))" (is "coalesce_inv X ?s")
proof -
  have ok: "caller_ok X s j" if j: "j < length (cc_callers s)" for j using inv j by (simp add: coalesce_inv_def)
  have len: "c < length (cc_cells s)" using ok [OF i] w by (simp add: caller_ok_def)
  have none: "phase_of s j \<noteq> Leading c" if j: "j < length (cc_callers s)" for j using ok [OF j] c(2) by (auto simp: caller_ok_def)
  have "map_ok ?s" using inv len by (auto simp: coalesce_inv_def map_ok_def)
  moreover have "permits_ok ?s" by (rule permits_transfer [of s _ c]) (use inv len i w in \<open>auto simp: coalesce_inv_def\<close>)
  moreover have "leaders_unique ?s" using inv i none by (auto simp: coalesce_inv_def leaders_unique_def)
  moreover have "caller_ok X ?s j" if j: "j < length (cc_callers s)" for j
    using ok [OF j] ok [OF i] len i w c by (auto simp: caller_ok_def)
  ultimately show ?thesis using i by (simp add: coalesce_inv_def)
qed

lemma abandon_inv:
  assumes inv: "coalesce_inv X s" and i: "i < length (cc_callers s)" and l: "phase_of s i = Leading c"
  shows "coalesce_inv X (set_phase i Dropped (set_cell c ((cc_cells s ! c)\<lparr>oc_permit := True\<rparr>) s))" (is "coalesce_inv X ?s")
proof -
  have ok: "caller_ok X s j" if j: "j < length (cc_callers s)" for j using inv j by (simp add: coalesce_inv_def)
  have len: "c < length (cc_cells s)" using ok [OF i] l by (simp add: caller_ok_def)
  have only: "phase_of s j = Leading c \<Longrightarrow> j = i" if j: "j < length (cc_callers s)" for j
    using inv i j l by (auto simp: coalesce_inv_def leaders_unique_def)
  have "map_ok ?s" using inv len by (auto simp: coalesce_inv_def map_ok_def)
  moreover have "permits_ok ?s" by (rule permits_transfer [of s _ c]) (use inv len i l in \<open>auto simp: coalesce_inv_def\<close>)
  moreover have "leaders_unique ?s" using inv i by (auto simp: coalesce_inv_def leaders_unique_def)
  moreover have "caller_ok X ?s j" if j: "j < length (cc_callers s)" for j
    using ok [OF j] only [OF j] len i by (auto simp: caller_ok_def)
  ultimately show ?thesis using i by (simp add: coalesce_inv_def)
qed

text \<open>A leader settles its cell, which leaves the map in the same step.\<close>

lemma settle_inv:
  assumes inv: "coalesce_inv X s" and i: "i < length (cc_callers s)" and l: "phase_of s i = Leading c"
  shows "coalesce_inv X (guard_drop True (key_at X s i) c
    (set_phase i (Returned r) (set_cell c ((cc_cells s ! c)\<lparr>oc_value := Some v\<rparr>) s)))" (is "coalesce_inv X (guard_drop _ _ _ ?t)")
proof -
  have ok: "caller_ok X s j" if j: "j < length (cc_callers s)" for j using inv j by (simp add: coalesce_inv_def)
  have len: "c < length (cc_cells s)" and m: "map_of (cc_in_flight s) (key_at X s i) = Some c"
    using ok [OF i] l by (simp_all add: caller_ok_def)
  let ?s = "?t\<lparr>cc_in_flight := AList.delete (key_at X s i) (cc_in_flight ?t)\<rparr>"
  have s: "guard_drop True (key_at X s i) c ?t = ?s" using len m by (intro guard_drop_settled) simp_all
  have other: "map_of (cc_in_flight s) k = Some c \<Longrightarrow> k = key_at X s i" for k
    using inv m by (auto simp: coalesce_inv_def map_ok_def)
  have only: "phase_of s j = Leading c \<Longrightarrow> j = i" if j: "j < length (cc_callers s)" for j
    using inv i j l by (auto simp: coalesce_inv_def leaders_unique_def)
  have "map_ok ?s" using inv len other unfolding coalesce_inv_def map_ok_def by (auto simp: delete_conv' split: if_splits)
  moreover have "permits_ok ?s" by (rule permits_transfer [of s _ c]) (use inv len i l in \<open>auto simp: coalesce_inv_def\<close>)
  moreover have "leaders_unique ?s" using inv i by (auto simp: coalesce_inv_def leaders_unique_def)
  moreover have "caller_ok X ?s j" if j: "j < length (cc_callers s)" for j
  proof -
    have "oc_value (cc_cells s ! d) = None \<Longrightarrow> d \<noteq> c \<Longrightarrow> phase_of s j = Waiting d \<or> phase_of s j = Leading d \<Longrightarrow> key_at X s j \<noteq> key_at X s i" for d
      using ok [OF j] m by (auto simp: caller_ok_def)
    then show ?thesis using ok [OF j] only [OF j] len i by (auto simp: caller_ok_def delete_conv')
  qed
  ultimately show ?thesis using i by (simp add: coalesce_inv_def s)
qed

lemma coalesce_step_inv:
  assumes inv: "coalesce_inv X s" and step: "coalesce_step X e s = Some s'"
  shows "coalesce_inv X s'"
proof (cases e)
  case (Enter r)
  then show ?thesis using assms enter_inv by (auto simp: coalesce_step_def)
next
  case (Poll i)
  then show ?thesis using assms leave_inv [OF inv, of i] lead_inv [OF inv, of i]
    by (auto simp: coalesce_step_def poll_def split: if_splits phase.splits option.splits)
next
  case (Finish i r)
  then show ?thesis using assms leave_inv [OF inv, of i] settle_inv [OF inv, of i]
    by (auto simp: coalesce_step_def finish_def split: if_splits phase.splits)
next
  case (Cancel i)
  have "c < length (cc_cells s) \<and> oc_value (cc_cells s ! c) = None" if l: "i < length (cc_callers s)" "phase_of s i = Leading c" for c
    using inv l by (auto simp: coalesce_inv_def caller_ok_def)
  then show ?thesis using Cancel assms leave_inv [OF inv, of i] abandon_inv [OF inv, of i]
    by (auto simp: coalesce_step_def cancel_def split: if_splits phase.splits)
qed

lemma coalesce_run_inv: "coalesce_inv X s \<Longrightarrow> coalesce_run X es s = Some s' \<Longrightarrow> coalesce_inv X s'"
  by (induction es arbitrary: s) (auto split: option.splits dest: coalesce_step_inv)

section \<open>Single flight\<close>

lemma leader_cell:
  assumes "coalesce_inv X s" "i < length (cc_callers s)" "phase_of s i = Leading c"
  shows "map_of (cc_in_flight s) (key_at X s i) = Some c \<and> oc_value (cc_cells s ! c) = None \<and> c < length (cc_cells s)
    \<and> coalesces (cl_request (cc_callers s ! i))"
  using assms by (auto simp: coalesce_inv_def caller_ok_def)

lemma waiting_cell:
  assumes "coalesce_inv X s" "i < length (cc_callers s)" "phase_of s i = Waiting c"
  shows "(oc_value (cc_cells s ! c) = None \<longrightarrow> map_of (cc_in_flight s) (key_at X s i) = Some c) \<and> c < length (cc_cells s)
    \<and> coalesces (cl_request (cc_callers s ! i))"
  using assms by (auto simp: coalesce_inv_def caller_ok_def)

lemma same_cell_key:
  "coalesce_inv X s \<Longrightarrow> map_of (cc_in_flight s) k = Some c \<Longrightarrow> map_of (cc_in_flight s) k' = Some c \<Longrightarrow> k' = k"
  by (auto simp: coalesce_inv_def map_ok_def)

text \<open>
  C24. However callers enter, wait, answer and are dropped, two inner requests that are in flight at the same time
  have different keys: of the callers with one key, at most one is sending.
\<close>

theorem single_flight:
  assumes "coalesce_run X es coalescing_new = Some s"
    and "i < length (cc_callers s)" "phase_of s i = Leading c" and "j < length (cc_callers s)" "phase_of s j = Leading d"
    and "coalesce_key_of X (cl_request (cc_callers s ! i)) = coalesce_key_of X (cl_request (cc_callers s ! j))"
  shows "i = j"
proof -
  have inv: "coalesce_inv X s" using coalesce_run_inv [OF new_inv assms(1)] .
  have "c = d" using leader_cell [OF inv assms(2,3)] leader_cell [OF inv assms(4,5)] assms(6) by simp
  then show ?thesis using inv assms by (auto simp: coalesce_inv_def leaders_unique_def)
qed


section \<open>Where a result comes from\<close>

text \<open>\<open>answered\<close>: among the events there is an answer to caller \<open>j\<close>, whose request has the key \<open>k\<close>.\<close>

definition answered :: "('u, 'j) externals \<Rightarrow> ('u, 'j) cevent list \<Rightarrow> ('u, 'j) coalescing_client \<Rightarrow> nat \<Rightarrow> nat \<Rightarrow> 'u send_result \<Rightarrow> bool" where
  "answered X es s i j res =
     (Finish j res \<in> set es \<and> j < length (cc_callers s) \<and> key_at X s j = key_at X s i
      \<and> (j \<noteq> i \<longrightarrow> coalesces (cl_request (cc_callers s ! j)) \<and> coalesces (cl_request (cc_callers s ! i))))"

definition traced :: "('u, 'j) externals \<Rightarrow> ('u, 'j) cevent list \<Rightarrow> ('u, 'j) coalescing_client \<Rightarrow> nat \<Rightarrow> bool" where
  "traced X es s i =
     ((\<forall>c v. phase_of s i = Waiting c \<longrightarrow> oc_value (cc_cells s ! c) = Some v \<longrightarrow> (\<exists>j res. j \<noteq> i \<and> answered X es s i j res \<and> v = shared_of res))
      \<and> (\<forall>out. phase_of s i = Returned out \<longrightarrow>
          (\<exists>j res. answered X es s i j res \<and> out = (if j = i then res else joined (shared_of res)))))"

lemma step_callers:
  assumes "coalesce_step X e s = Some s'"
  shows "length (cc_callers s) \<le> length (cc_callers s')"
    and "j < length (cc_callers s) \<Longrightarrow> cl_request (cc_callers s' ! j) = cl_request (cc_callers s ! j)"
proof -
  have g: "cc_callers (guard_drop a k c t) = cc_callers t" for a k c and t :: "('u, 'j) coalescing_client" by (simp add: guard_drop_def)
  show "length (cc_callers s) \<le> length (cc_callers s')"
    and "j < length (cc_callers s) \<Longrightarrow> cl_request (cc_callers s' ! j) = cl_request (cc_callers s ! j)"
    using assms
    by (auto simp: coalesce_step_def enter_def poll_def finish_def cancel_def g nth_append Let_def
        split: cevent.splits if_splits phase.splits option.splits)
qed

lemma answered_step:
  assumes "coalesce_step X e s = Some s'" and "answered X es s i j res" and "i < length (cc_callers s)"
  shows "answered X (es @ [e]) s' i j res"
  using assms(2,3) step_callers [OF assms(1)] by (auto simp: answered_def)

lemma run_requests:
  "coalesce_run X es s = Some s' \<Longrightarrow> i < length (cc_callers s) \<Longrightarrow> cl_request (cc_callers s' ! i) = cl_request (cc_callers s ! i)"
proof (induction es arbitrary: s)
  case (Cons e es)
  then obtain t where t: "coalesce_step X e s = Some t" "coalesce_run X es t = Some s'" by (auto split: option.splits)
  then show ?case using Cons.IH [of t] Cons.prems(2) step_callers [OF t(1)] by (metis less_le_trans)
qed simp

text \<open>What a step does to a caller that is not the one it is about, and to the cells.\<close>

lemma step_frame:
  assumes "coalesce_step X e s = Some s'" and "i < length (cc_callers s)" and "e \<noteq> Poll i" "e \<noteq> Cancel i" "\<forall>res. e \<noteq> Finish i res"
  shows "phase_of s' i = phase_of s i"
proof -
  have g: "cc_callers (guard_drop a k c t) = cc_callers t" for a k c and t :: "('u, 'j) coalescing_client" by (simp add: guard_drop_def)
  show ?thesis using assms
    by (auto simp: coalesce_step_def enter_def poll_def finish_def cancel_def g nth_append Let_def
        split: cevent.splits if_splits phase.splits option.splits)
qed

lemma step_value:
  assumes inv: "coalesce_inv X s" and step: "coalesce_step X e s = Some s'" and c: "c < length (cc_cells s)"
    and v: "oc_value (cc_cells s' ! c) = Some v"
  shows "oc_value (cc_cells s ! c) = Some v \<or>
    (\<exists>j res. e = Finish j res \<and> j < length (cc_callers s) \<and> phase_of s j = Leading c \<and> v = shared_of res)"
proof -
  have g: "cc_cells (guard_drop a k c t) = cc_cells t" for a k c and t :: "('u, 'j) coalescing_client" by (simp add: guard_drop_def)
  have l: "i < length (cc_callers s) \<Longrightarrow> phase_of s i = Leading d \<Longrightarrow> d < length (cc_cells s)" for i d using leader_cell [OF inv] by blast
  have w: "i < length (cc_callers s) \<Longrightarrow> phase_of s i = Waiting d \<Longrightarrow> d < length (cc_cells s)" for i d using waiting_cell [OF inv] by blast
  show ?thesis using step c v l w
    by (auto simp: coalesce_step_def enter_def poll_def finish_def cancel_def g nth_append Let_def
        split: cevent.splits if_splits phase.splits option.splits)
qed

lemma traced_step:
  assumes inv: "coalesce_inv X s" and step: "coalesce_step X e s = Some s'" and i: "i < length (cc_callers s)" and t: "traced X es s i"
  shows "traced X (es @ [e]) s' i"
proof -
  note keep = answered_step [OF step _ i]
  have own: "answered X (es @ [e]) s' i i res" if f: "e = Finish i res" for res
    using f i step_callers(1) [OF step] by (simp add: answered_def)
  consider (poll) "e = Poll i" | (finish) res where "e = Finish i res" | (cancel) "e = Cancel i"
    | (other) "phase_of s' i = phase_of s i" using step_frame [OF step i] by blast
  then show ?thesis
  proof cases
    case poll
    then show ?thesis using step i t keep unfolding traced_def
      by (auto simp: coalesce_step_def poll_def split: phase.splits option.splits if_splits)
         blast
  next
    case (finish res)
    have "phase_of s' i = Returned res" using step i unfolding finish
      by (auto simp: coalesce_step_def finish_def guard_drop_def split: phase.splits)
    then show ?thesis using own [OF finish] unfolding traced_def by auto
  next
    case cancel
    have "phase_of s' i = Dropped" using step i unfolding cancel
      by (auto simp: coalesce_step_def cancel_def guard_drop_def split: phase.splits)
    then show ?thesis unfolding traced_def by simp
  next
    case other
    show ?thesis unfolding traced_def other
    proof (intro conjI allI impI)
      fix out
      assume "phase_of s i = Returned out"
      then show "\<exists>j res. answered X (es @ [e]) s' i j res \<and> out = (if j = i then res else joined (shared_of res))"
        using t keep unfolding traced_def by metis
    next
      fix c v
      assume w: "phase_of s i = Waiting c" and v: "oc_value (cc_cells s' ! c) = Some v"
      note wc = waiting_cell [OF inv i w]
      have c: "c < length (cc_cells s)" using wc by simp
      from step_value [OF inv step c v]
      show "\<exists>j res. j \<noteq> i \<and> answered X (es @ [e]) s' i j res \<and> v = shared_of res"
      proof (elim disjE exE conjE)
        assume "oc_value (cc_cells s ! c) = Some v"
        then show ?thesis using t w keep unfolding traced_def by metis
      next
        fix j res
        assume j: "e = Finish j res" "j < length (cc_callers s)" "phase_of s j = Leading c" "v = shared_of res"
        note lc = leader_cell [OF inv j(2,3)]
        have "key_at X s j = key_at X s i" using same_cell_key [OF inv] lc wc by blast
        then have "answered X (es @ [e]) s' i j res" using j lc wc step_callers [OF step] i by (simp add: answered_def)
        moreover have "j \<noteq> i" using j(3) w by auto
        ultimately show ?thesis using j(4) by blast
      qed
    qed
  qed
qed

lemma traced_run:
  "coalesce_inv X s \<Longrightarrow> i < length (cc_callers s) \<Longrightarrow> traced X es s i \<Longrightarrow> coalesce_run X es' s = Some s' \<Longrightarrow> traced X (es @ es') s' i"
proof (induction es' arbitrary: s es)
  case (Cons e es')
  then obtain t where t: "coalesce_step X e s = Some t" "coalesce_run X es' t = Some s'" by (auto split: option.splits)
  then have "traced X ((es @ [e]) @ es') s' i"
    using Cons.prems coalesce_step_inv [OF _ t(1)] step_callers(1) [OF t(1)] traced_step [OF _ t(1)] by (intro Cons.IH [of t]) auto
  then show ?case by simp
qed simp


section \<open>Witnesses\<close>

definition sample_get :: "(string, string) http_request" where
  "sample_get = http_request_new ''https://a/''"

definition after_leader :: "(string, string) coalescing_client" where
  "after_leader = \<lparr>cc_in_flight = [(coalesce_key_of sample_externals sample_get, 0)], cc_cells = [\<lparr>oc_value = None, oc_permit = False\<rparr>],
     cc_callers = [\<lparr>cl_request = sample_get, cl_phase = Leading 0\<rparr>, \<lparr>cl_request = sample_get, cl_phase = Waiting 0\<rparr>]\<rparr>"

lemma sample_coalesces: "coalesces sample_get"
  by (simp add: coalesces_def sample_get_def http_request_new_def)

lemma leader_run: "coalesce_run sample_externals [Enter sample_get, Enter sample_get, Poll 0] coalescing_new = Some after_leader"
  by (simp add: coalesce_step_def enter_def poll_def coalescing_new_def sample_coalesces Let_def once_cell_new_def
      set_phase_def set_cell_def after_leader_def)

theorem single_flight_witness: "phase_of after_leader 0 = Leading 0 \<and> phase_of after_leader 1 \<noteq> Leading 0"
proof -
  have "phase_of after_leader 1 \<noteq> Leading 0"
  proof
    assume "phase_of after_leader 1 = Leading 0"
    with single_flight [OF leader_run, of 0 0 1 0] show False by (simp add: after_leader_def)
  qed
  then show ?thesis by (simp add: after_leader_def)
qed



text \<open>
  The client is documented to join identical requests. The key leaves out the headers: of two callers that ask for one
  page in different languages, the second is answered with the page the first asked for.
\<close>

theorem headers_not_in_key:
  "let first = sample_get\<lparr>hr_headers := [(''accept-language'', ''de'')]\<rparr>; second = sample_get\<lparr>hr_headers := [(''accept-language'', ''fr'')]\<rparr>
   in first \<noteq> second \<and> (\<exists>s. coalesce_run sample_externals [Enter first, Poll 0, Enter second, Finish 0 (Inr page), Poll 1] coalescing_new = Some s
        \<and> phase_of s 1 = Returned (Inr page))"
  by (simp add: coalesce_step_def enter_def poll_def finish_def coalescing_new_def coalesces_def Let_def once_cell_new_def
      set_phase_def set_cell_def guard_drop_def sample_get_def http_request_new_def coalesce_key_of_def shared_of_def joined_def)

end
