(* ===== verification/Router.thy ===== *)
theory Router
  imports Request Errors
begin

text \<open>
  The router (\<open>millipede-core/src/router.rs\<close>) with the middleware of \<open>handler.rs\<close>. A handler and a middleware act
  on the state \<open>'s\<close> of the crawl and may fail; \<open>request_of\<close> is the \<open>HasRequest\<close> instance of the context.
\<close>

section \<open>Routes\<close>

datatype method_filter = Any | Only "http_method list"

fun filter_matches :: "method_filter \<Rightarrow> http_method \<Rightarrow> bool" where
  "filter_matches Any m = True"
| "filter_matches (Only ms) m = (m \<in> set ms)"

fun shadows :: "method_filter \<Rightarrow> method_filter \<Rightarrow> bool" where
  "shadows Any _ = True"
| "shadows (Only _) Any = False"
| "shadows (Only earlier) (Only later) = list_all (\<lambda>m. m \<in> set earlier) later"

type_synonym ('c, 's) handler = "'c \<Rightarrow> 's \<Rightarrow> (crawl_error + unit) \<times> 's"

type_synonym ('c, 's) middleware = "'c \<Rightarrow> 's \<Rightarrow> (crawl_error + 'c) \<times> 's"

record ('c, 's) route =
  ro_label :: "string option"
  ro_methods :: method_filter
  ro_handler :: "('c, 's) handler"

record ('c, 's) router =
  rt_routes :: "('c, 's) route list"
  rt_default :: "('c, 's) handler option"
  rt_middleware :: "('c, 's) middleware list"

definition router_new :: "('c, 's) router" where
  "router_new = \<lparr>rt_routes = [], rt_default = None, rt_middleware = []\<rparr>"

text \<open>Whether \<open>push_route\<close> warns that the new route cannot be reached.\<close>

definition warns :: "string option \<Rightarrow> method_filter \<Rightarrow> ('c, 's) router \<Rightarrow> bool" where
  "warns label methods rt =
     list_ex (\<lambda>r. (ro_label r = None \<or> ro_label r = label) \<and> shadows (ro_methods r) methods) (rt_routes rt)"

definition push_route :: "string option \<Rightarrow> method_filter \<Rightarrow> ('c, 's) handler \<Rightarrow> ('c, 's) router \<Rightarrow> ('c, 's) router" where
  "push_route label methods h rt =
     rt\<lparr>rt_routes := rt_routes rt @ [\<lparr>ro_label = label, ro_methods = methods, ro_handler = h\<rparr>]\<rparr>"

definition add_route :: "string \<Rightarrow> ('c, 's) handler \<Rightarrow> ('c, 's) router \<Rightarrow> ('c, 's) router" where
  "add_route label h rt = push_route (Some label) Any h rt"

definition route_methods :: "string \<Rightarrow> http_method list \<Rightarrow> ('c, 's) handler \<Rightarrow> ('c, 's) router \<Rightarrow> ('c, 's) router" where
  "route_methods label methods h rt = push_route (Some label) (Only methods) h rt"

definition route_method :: "string \<Rightarrow> http_method \<Rightarrow> ('c, 's) handler \<Rightarrow> ('c, 's) router \<Rightarrow> ('c, 's) router" where
  "route_method label m h rt = route_methods label [m] h rt"

definition default_route :: "('c, 's) handler \<Rightarrow> ('c, 's) router \<Rightarrow> ('c, 's) router" where
  "default_route h rt = rt\<lparr>rt_default := Some h\<rparr>"

definition add_middleware :: "('c, 's) middleware \<Rightarrow> ('c, 's) router \<Rightarrow> ('c, 's) router" where
  "add_middleware mw rt = rt\<lparr>rt_middleware := rt_middleware rt @ [mw]\<rparr>"

definition route_matches :: "('u, 'j) request \<Rightarrow> ('c, 's) route \<Rightarrow> bool" where
  "route_matches req r = ((ro_label r = None \<or> ro_label r = req_label req) \<and> filter_matches (ro_methods r) (req_method req))"

definition select_handler :: "('u, 'j) request \<Rightarrow> ('c, 's) router \<Rightarrow> ('c, 's) handler option" where
  "select_handler req rt =
     (case find (route_matches req) (rt_routes rt) of Some r \<Rightarrow> Some (ro_handler r) | None \<Rightarrow> rt_default rt)"

fun run_middleware :: "('c, 's) middleware list \<Rightarrow> ('c, 's) middleware" where
  "run_middleware [] ctx s = (Inr ctx, s)"
| "run_middleware (mw # mws) ctx s =
     (case mw ctx s of
        (Inl e, s') \<Rightarrow> (Inl e, s')
      | (Inr ctx', s') \<Rightarrow> run_middleware mws ctx' s')"

definition handle :: "('c \<Rightarrow> ('u, 'j) request) \<Rightarrow> ('c, 's) router \<Rightarrow> ('c, 's) handler" where
  "handle request_of rt ctx s =
     (let req = request_of ctx in
      case select_handler req rt of
        None \<Rightarrow> (Inl (MissingRoute (req_label req) (req_method req)), s)
      | Some h \<Rightarrow>
          (case run_middleware (rt_middleware rt) ctx s of
             (Inl e, s') \<Rightarrow> (Inl e, s')
           | (Inr ctx', s') \<Rightarrow> h ctx' s'))"

section \<open>Which handler runs\<close>

lemma shadowed_matches: "shadows f g \<Longrightarrow> filter_matches g m \<Longrightarrow> filter_matches f m"
  by (cases f; cases g) (auto simp: list_all_iff)

lemma find_append: "find P (xs @ ys) = (case find P xs of Some x \<Rightarrow> Some x | None \<Rightarrow> find P ys)"
  by (induction xs) auto

lemma find_exists: "x \<in> set xs \<Longrightarrow> P x \<Longrightarrow> find P xs \<noteq> None"
  by (auto simp: find_None_iff)

text \<open>
  The warning is sound: a route that \<open>push_route\<close> calls unreachable changes the outcome of no request, so the router
  behaves as if it had not been added.
\<close>

theorem shadowed_route_unreachable:
  assumes "warns label methods rt"
  shows "handle request_of (push_route label methods h rt) ctx s = handle request_of rt ctx s"
proof -
  let ?new = "\<lparr>ro_label = label, ro_methods = methods, ro_handler = h\<rparr>" and ?req = "request_of ctx"
  obtain r where r: "r \<in> set (rt_routes rt)" "ro_label r = None \<or> ro_label r = label" "shadows (ro_methods r) methods"
    using assms by (auto simp: warns_def list_ex_iff)
  have "find (route_matches ?req) (rt_routes rt) \<noteq> None" if m: "route_matches ?req ?new"
    using m r shadowed_matches [OF r(3)] by (intro find_exists [OF r(1)]) (auto simp: route_matches_def)
  then have "select_handler ?req (push_route label methods h rt) = select_handler ?req rt"
    by (auto simp: select_handler_def push_route_def find_append split: option.splits)
  moreover have "rt_middleware (push_route label methods h rt) = rt_middleware rt" by (simp add: push_route_def)
  ultimately show ?thesis by (simp only: handle_def Let_def)
qed



theorem missing_route:
  assumes "\<forall>r \<in> set (rt_routes rt). \<not> route_matches (request_of ctx) r" and "rt_default rt = None"
  shows "handle request_of rt ctx s = (Inl (MissingRoute (req_label (request_of ctx)) (req_method (request_of ctx))), s)"
proof -
  have "find (route_matches (request_of ctx)) (rt_routes rt) = None" using assms(1) by (auto simp: find_None_iff)
  then show ?thesis using assms(2) by (simp add: handle_def select_handler_def Let_def)
qed

end
