(* ===== verification/Kvs.thy ===== *)
theory Kvs
  imports Errors "HOL-Library.List_Lexorder" "HOL-Library.Char_ord"
begin

text \<open>
  Key-value stores (\<open>millipede-core/src/storage/kvs.rs\<close>): the trait as a record of operations and its contract as
  a locale, the typed extension methods, \<open>AutoSaved\<close> (\<open>auto_saved.rs\<close>), and the in-memory store
  (\<open>millipede-storage-memory/src/kvs.rs\<close>). Texts are ordered as Rust orders them, byte by byte.
\<close>

section \<open>The interface\<close>

record kv_entry =
  kv_key :: string
  kv_value :: "u8 list"
  kv_content_type :: string

record list_keys_options =
  lk_limit :: "nat option"
  lk_exclusive_start_key :: "string option"

record key_info =
  ki_key :: string
  ki_size :: nat

record key_list =
  kl_keys :: "key_info list"
  kl_is_truncated :: bool
  kl_next_exclusive_start_key :: "string option"

record 's kv_ops =
  kv_get_bytes :: "string \<Rightarrow> 's \<Rightarrow> storage_error + kv_entry option"
  kv_set_bytes :: "string \<Rightarrow> u8 list \<Rightarrow> string \<Rightarrow> 's \<Rightarrow> (storage_error + unit) \<times> 's"
  kv_delete :: "string \<Rightarrow> 's \<Rightarrow> (storage_error + unit) \<times> 's"
  kv_list_keys :: "list_keys_options \<Rightarrow> 's \<Rightarrow> storage_error + key_list"

text \<open>
  \<open>KeyValueStoreExt\<close>: \<open>from_slice\<close> and \<open>to_vec\<close> are the JSON conversions of the value's type, with the text of the
  error.
\<close>

definition kv_get :: "'s kv_ops \<Rightarrow> (u8 list \<Rightarrow> string + 't) \<Rightarrow> string \<Rightarrow> 's \<Rightarrow> storage_error + 't option" where
  "kv_get K from_slice key s =
     (case kv_get_bytes K key s of
        Inl e \<Rightarrow> Inl e
      | Inr None \<Rightarrow> Inr None
      | Inr (Some entry) \<Rightarrow>
          (case from_slice (kv_value entry) of Inl e \<Rightarrow> Inl (Serialization e) | Inr v \<Rightarrow> Inr (Some v)))"

definition kv_set :: "'s kv_ops \<Rightarrow> ('t \<Rightarrow> string + u8 list) \<Rightarrow> string \<Rightarrow> 't \<Rightarrow> 's \<Rightarrow> (storage_error + unit) \<times> 's" where
  "kv_set K to_vec key v s =
     (case to_vec v of
        Inl e \<Rightarrow> (Inl (Serialization e), s)
      | Inr bytes \<Rightarrow> kv_set_bytes K key bytes ''application/json'' s)"

section \<open>Saved values and snapshots\<close>

text \<open>\<open>AutoSaved\<close>: a value in memory with the key it is saved under.\<close>

record 't auto_saved =
  sv_key :: string
  sv_value :: 't

definition saved_open :: "'s kv_ops \<Rightarrow> (u8 list \<Rightarrow> string + 't) \<Rightarrow> string \<Rightarrow> 't \<Rightarrow> 's \<Rightarrow> storage_error + 't auto_saved" where
  "saved_open K from_slice key dflt s =
     (case kv_get K from_slice key s of
        Inl e \<Rightarrow> Inl e
      | Inr v \<Rightarrow> Inr \<lparr>sv_key = key, sv_value = (case v of Some x \<Rightarrow> x | None \<Rightarrow> dflt)\<rparr>)"

definition saved_update :: "('t \<Rightarrow> 't) \<Rightarrow> 't auto_saved \<Rightarrow> 't auto_saved" where
  "saved_update f a = a\<lparr>sv_value := f (sv_value a)\<rparr>"

definition saved_persist ::
  "'s kv_ops \<Rightarrow> ('t \<Rightarrow> string + u8 list) \<Rightarrow> 't auto_saved \<Rightarrow> 's \<Rightarrow> (storage_error + unit) \<times> 's" where
  "saved_persist K to_vec a s =
     (case to_vec (sv_value a) of
        Inl e \<Rightarrow> (Inl (Serialization e), s)
      | Inr bytes \<Rightarrow> kv_set_bytes K (sv_key a) bytes ''application/json'' s)"

text \<open>\<open>ErrorSnapshotter\<close> (\<open>snapshot.rs\<close>), with the base key as an argument.\<close>

record error_snapshot =
  es_content_type :: string
  es_bytes :: "u8 list"

definition snapshot_store ::
  "'s kv_ops \<Rightarrow> string \<Rightarrow> string \<Rightarrow> u8 list \<Rightarrow> string \<Rightarrow> 's \<Rightarrow> (storage_error + string) \<times> 's" where
  "snapshot_store K base sfx bytes content_type s =
     (let key = base @ ''.'' @ sfx in
      case kv_set_bytes K key bytes content_type s of
        (Inl e, s') \<Rightarrow> (Inl e, s')
      | (Inr _, s') \<Rightarrow> (Inr key, s'))"

definition snapshot_load :: "'s kv_ops \<Rightarrow> string \<Rightarrow> 's \<Rightarrow> storage_error + error_snapshot option" where
  "snapshot_load K key s =
     (case kv_get_bytes K key s of
        Inl e \<Rightarrow> Inl e
      | Inr entry \<Rightarrow> Inr (map_option (\<lambda>e. \<lparr>es_content_type = kv_content_type e, es_bytes = kv_value e\<rparr>) entry))"

section \<open>Pages of keys\<close>

text \<open>
  What both stores do with their sorted keys: skip to the cursor, cut at the limit, and say whether more follow.
\<close>

definition empty_page :: key_list where
  "empty_page = \<lparr>kl_keys = [], kl_is_truncated = False, kl_next_exclusive_start_key = None\<rparr>"

definition key_page :: "list_keys_options \<Rightarrow> (string \<times> nat) list \<Rightarrow> key_list" where
  "key_page opts entries =
     (let filtered = filter (\<lambda>(k, _). case lk_exclusive_start_key opts of None \<Rightarrow> True | Some start \<Rightarrow> start < k) entries;
          limit = (case lk_limit opts of Some n \<Rightarrow> n | None \<Rightarrow> length filtered);
          selected = take limit filtered;
          is_truncated = (drop limit filtered \<noteq> [])
      in \<lparr>kl_keys = map (\<lambda>(k, n). \<lparr>ki_key = k, ki_size = n\<rparr>) selected, kl_is_truncated = is_truncated,
          kl_next_exclusive_start_key = (if is_truncated \<and> selected \<noteq> [] then Some (fst (List.last selected)) else None)\<rparr>)"

section \<open>The contract\<close>

text \<open>
  What a store holds is a map from keys to bytes and a content type. \<open>valid\<close> are the keys it accepts and \<open>kept\<close>
  is what it keeps of a content type.
\<close>

type_synonym kv_view = "string \<Rightarrow> (u8 list \<times> string) option"

definition view_entries :: "kv_view \<Rightarrow> (string \<times> nat) list" where
  "view_entries v = map (\<lambda>k. (k, length (fst (the (v k))))) (sorted_list_of_set (dom v))"

definition list_page :: "list_keys_options \<Rightarrow> kv_view \<Rightarrow> key_list" where
  "list_page opts v = (if lk_limit opts = Some 0 then empty_page else key_page opts (view_entries v))"

locale key_value_store =
  fixes K :: "'s kv_ops" and inv :: "'s \<Rightarrow> bool" and view :: "'s \<Rightarrow> kv_view"
    and valid :: "string \<Rightarrow> bool" and kept :: "string \<Rightarrow> string"
  assumes view_finite: "inv s \<Longrightarrow> finite (dom (view s))"
    and get_law: "inv s \<Longrightarrow> valid k \<Longrightarrow> kv_get_bytes K k s =
      Inr (map_option (\<lambda>(b, t). \<lparr>kv_key = k, kv_value = b, kv_content_type = t\<rparr>) (view s k))"
    and set_law: "inv s \<Longrightarrow> valid k \<Longrightarrow> \<exists>s'. kv_set_bytes K k b t s = (Inr (), s') \<and> inv s'
      \<and> view s' = (view s)(k \<mapsto> (b, kept t))"
    and delete_law: "inv s \<Longrightarrow> valid k \<Longrightarrow> \<exists>s'. kv_delete K k s = (Inr (), s') \<and> inv s' \<and> view s' = (view s)(k := None)"
    and list_law: "inv s \<Longrightarrow> kv_list_keys K opts s = Inr (list_page opts (view s))"
    and json_norm: "kept ''application/json'' = ''application/json''"
begin

lemma get_set_same:
  assumes "inv s" "valid k" and "kv_set_bytes K k b t s = (r, s')"
  shows "r = Inr () \<and> inv s' \<and> kv_get_bytes K k s' = Inr (Some \<lparr>kv_key = k, kv_value = b, kv_content_type = kept t\<rparr>)"
  using set_law [OF assms(1,2), of b t] get_law [of s' k] assms(2,3) by auto

lemma get_set_other:
  assumes "inv s" "valid k" "valid k'" "k \<noteq> k'" and "kv_set_bytes K k b t s = (r, s')"
  shows "kv_get_bytes K k' s' = kv_get_bytes K k' s"
  using set_law [OF assms(1,2), of b t] get_law [of s' k'] get_law [of s k'] assms by auto

lemma typed_roundtrip:
  assumes "inv s" "valid k" and "to_vec v = Inr b" and "from_slice b = Inr v" and "kv_set K to_vec k v s = (r, s')"
  shows "r = Inr () \<and> inv s' \<and> kv_get K from_slice k s' = Inr (Some v)"
  using get_set_same [OF assms(1,2), of b "''application/json''" r s'] assms(3-5) by (simp add: kv_set_def kv_get_def)

lemma saved_roundtrip:
  assumes "inv s" "valid (sv_key a)" and "to_vec (sv_value a) = Inr b" and "from_slice b = Inr (sv_value a)"
    and "saved_persist K to_vec a s = (r, s')"
  shows "r = Inr () \<and> saved_open K from_slice (sv_key a) dflt s' = Inr a"
  using get_set_same [OF assms(1,2), of b "''application/json''" r s'] assms(3-5)
  by (simp add: saved_persist_def saved_open_def kv_get_def)

lemma snapshot_roundtrip:
  assumes "inv s" "valid (base @ ''.'' @ sfx)" and "snapshot_store K base sfx bytes t s = (Inr key, s')"
  shows "snapshot_load K key s' = Inr (Some \<lparr>es_content_type = kept t, es_bytes = bytes\<rparr>)"
proof -
  have "kv_set_bytes K (base @ ''.'' @ sfx) bytes t s = (Inr (), s') \<and> key = base @ ''.'' @ sfx"
    using assms(3) by (auto simp: snapshot_store_def Let_def split: prod.splits sum.splits)
  then show ?thesis using get_set_same [OF assms(1,2)] by (auto simp: snapshot_load_def)
qed

end

section \<open>Walking the pages\<close>

text \<open>
  A client that lists all keys page by page, continuing at the cursor of the last page. The fuel bounds the
  number of pages.
\<close>

fun walk_pages :: "nat \<Rightarrow> 's kv_ops \<Rightarrow> nat option \<Rightarrow> string option \<Rightarrow> 's \<Rightarrow> (string list) option" where
  "walk_pages 0 K limit start s = None"
| "walk_pages (Suc fuel) K limit start s =
     (case kv_list_keys K \<lparr>lk_limit = limit, lk_exclusive_start_key = start\<rparr> s of
        Inl e \<Rightarrow> None
      | Inr page \<Rightarrow>
          (case kl_next_exclusive_start_key page of
             None \<Rightarrow> Some (map ki_key (kl_keys page))
           | Some next \<Rightarrow> map_option (\<lambda>rest. map ki_key (kl_keys page) @ rest) (walk_pages fuel K limit (Some next) s)))"

definition keys_after :: "'a::linorder option \<Rightarrow> 'a list \<Rightarrow> 'a list" where
  "keys_after start ks = filter (\<lambda>k. case start of None \<Rightarrow> True | Some s \<Rightarrow> s < k) ks"

lemma key_page_keys:
  assumes "limit \<noteq> Some 0"
  shows "let ks = keys_after start (map fst entries);
      n = (case limit of Some n \<Rightarrow> n | None \<Rightarrow> length ks);
      page = key_page \<lparr>lk_limit = limit, lk_exclusive_start_key = start\<rparr> entries
    in map ki_key (kl_keys page) = take n ks
     \<and> kl_next_exclusive_start_key page = (if drop n ks = [] then None else Some (List.last (take n ks)))"
proof -
  let ?P = "\<lambda>k. case start of None \<Rightarrow> True | Some s \<Rightarrow> s < k"
  let ?f = "filter (\<lambda>(k, _). ?P k) entries"
  have m: "map fst ?f = keys_after start (map fst entries)" by (simp add: keys_after_def filter_map comp_def split_def)
  then have l: "length ?f = length (keys_after start (map fst entries))" by (metis length_map)
  have d: "(drop n ?f = []) = (drop n (keys_after start (map fst entries)) = [])" for n by (simp add: l)
  have t: "map fst (take n ?f) = take n (keys_after start (map fst entries))" for n by (simp add: m take_map [symmetric])
  have e: "take n ?f \<noteq> [] \<Longrightarrow> fst (List.last (take n ?f)) = List.last (take n (keys_after start (map fst entries)))" for n
    using t [of n] by (metis last_map)
  have k: "map ki_key (map (\<lambda>(k, n). \<lparr>ki_key = k, ki_size = n\<rparr>) xs) = map fst xs" for xs :: "(string \<times> nat) list"
    by (simp add: case_prod_beta)
  have z: "?f = [] \<Longrightarrow> keys_after start (map fst entries) = []" using m by simp
  show ?thesis using assms unfolding key_page_def Let_def list_keys_options.simps key_list.simps k t
    by (cases limit) (auto simp: d e l z)
qed

lemma filter_above_last:
  assumes "sorted_wrt (<) xs" and "n \<le> length xs" "0 < n"
  shows "filter ((<) (List.last (take n xs))) xs = drop n (xs :: 'a::linorder list)"
proof -
  let ?l = "List.last (take n xs)"
  have l: "?l = xs ! (n - 1)" using assms(2,3) last_conv_nth [of "take n xs"] by (cases xs) (auto simp: min_def)
  have "\<not> ?l < x" if x: "x \<in> set (take n xs)" for x
  proof -
    obtain i where "i < n" "i < length xs" "x = xs ! i" using x by (auto simp: in_set_conv_nth)
    then have "i = n - 1 \<or> xs ! i < ?l" using assms l
      by (cases "i = n - 1") (auto simp: sorted_wrt_iff_nth_less)
    then show ?thesis using l \<open>x = xs ! i\<close> by (auto dest: less_asym)
  qed
  then have 1: "filter ((<) ?l) (take n xs) = []" by (simp add: filter_empty_conv)
  have "?l < x" if x: "x \<in> set (drop n xs)" for x
  proof -
    obtain i where "i < length xs - n" "x = xs ! (n + i)" using x by (auto simp: in_set_conv_nth)
    then show ?thesis using assms l by (auto simp: sorted_wrt_iff_nth_less)
  qed
  then have 2: "filter ((<) ?l) (drop n xs) = drop n xs" by (simp add: filter_id_conv)
  have "filter ((<) ?l) xs = filter ((<) ?l) (take n xs @ drop n xs)" by simp
  then show ?thesis unfolding filter_append 1 2 by simp
qed

lemma keys_after_next:
  assumes "sorted_wrt (<) S" and "n < length (keys_after start S)" "0 < n"
  shows "keys_after (Some (List.last (take n (keys_after start S)))) S = drop n (keys_after start S)"
proof -
  let ?P = "\<lambda>k. case start of None \<Rightarrow> True | Some s \<Rightarrow> s < k"
  define ks where "ks = keys_after start S"
  define l where "l = List.last (take n ks)"
  have n: "n < length ks" using assms(2) by (simp add: ks_def)
  then have "take n ks \<noteq> []" using assms(3) by (cases ks) simp_all
  then have "l \<in> set ks" unfolding l_def by (rule in_set_takeD [OF last_in_set])
  then have l: "?P l" by (simp add: ks_def keys_after_def)
  have P: "?P x" if x: "l < x" for x using less_trans [OF _ x] l by (cases start) simp_all
  have "filter ((<) l) ks = filter (\<lambda>x. ?P x \<and> l < x) S" by (simp add: ks_def keys_after_def)
  also have "\<dots> = filter ((<) l) S" using P by (intro filter_cong) auto
  finally have "filter ((<) l) S = filter ((<) l) ks" by simp
  moreover have "sorted_wrt (<) ks" using assms(1) by (simp add: ks_def keys_after_def sorted_wrt_filter)
  then have "filter ((<) l) ks = drop n ks" unfolding l_def using n assms(3) by (intro filter_above_last) simp_all
  ultimately have "filter ((<) l) S = drop n ks" by simp
  then show ?thesis unfolding l_def ks_def by (simp add: keys_after_def [of "Some _"])
qed

context key_value_store
begin

lemma walk_complete:
  assumes "inv s" and "limit \<noteq> Some 0"
  shows "length (keys_after start (sorted_list_of_set (dom (view s)))) < fuel \<Longrightarrow>
    walk_pages fuel K limit start s = Some (keys_after start (sorted_list_of_set (dom (view s))))"
proof (induction fuel arbitrary: start)
  case (Suc fuel)
  let ?S = "sorted_list_of_set (dom (view s))" and ?page = "list_page \<lparr>lk_limit = limit, lk_exclusive_start_key = start\<rparr> (view s)"
  let ?ks = "keys_after start ?S"
  let ?n = "case limit of Some n \<Rightarrow> n | None \<Rightarrow> length ?ks"
  have f: "map fst (view_entries (view s)) = ?S" by (simp add: view_entries_def comp_def)
  have p: "map ki_key (kl_keys ?page) = take ?n ?ks"
    "kl_next_exclusive_start_key ?page = (if drop ?n ?ks = [] then None else Some (List.last (take ?n ?ks)))"
    using key_page_keys [OF assms(2), of start "view_entries (view s)"] assms(2)
    by (simp_all add: f list_page_def Let_def)
  have w: "walk_pages (Suc fuel) K limit start s = (case kl_next_exclusive_start_key ?page of
      None \<Rightarrow> Some (map ki_key (kl_keys ?page))
    | Some next \<Rightarrow> map_option (\<lambda>rest. map ki_key (kl_keys ?page) @ rest) (walk_pages fuel K limit (Some next) s))"
    by (simp add: list_law [OF assms(1)])
  show ?case
  proof (cases "drop ?n ?ks = []")
    case True
    then show ?thesis unfolding w p by simp
  next
    case False
    then have n: "?n < length ?ks" "0 < ?n" using assms(2) by (auto split: option.splits)
    have "keys_after (Some (List.last (take ?n ?ks))) ?S = drop ?n ?ks"
      by (rule keys_after_next [OF _ n]) (simp add: strict_sorted_list_of_set)
    then show ?thesis using Suc.IH [of "Some (List.last (take ?n ?ks))"] Suc.prems False n unfolding w p by simp
  qed
qed simp

end

section \<open>The in-memory store\<close>

type_synonym memory_kvs = "(string \<times> kv_entry) list"

definition mem_kv_get_bytes :: "string \<Rightarrow> memory_kvs \<Rightarrow> storage_error + kv_entry option" where
  "mem_kv_get_bytes key s = Inr (map_of s key)"

definition mem_kv_set_bytes :: "string \<Rightarrow> u8 list \<Rightarrow> string \<Rightarrow> memory_kvs \<Rightarrow> (storage_error + unit) \<times> memory_kvs" where
  "mem_kv_set_bytes key v content_type s =
     (Inr (), AList.update key \<lparr>kv_key = key, kv_value = v, kv_content_type = content_type\<rparr> s)"

definition mem_kv_delete :: "string \<Rightarrow> memory_kvs \<Rightarrow> (storage_error + unit) \<times> memory_kvs" where
  "mem_kv_delete key s = (Inr (), AList.delete key s)"

definition mem_kv_clear :: "memory_kvs \<Rightarrow> memory_kvs" where
  "mem_kv_clear s = []"

definition mem_kv_list_keys :: "list_keys_options \<Rightarrow> memory_kvs \<Rightarrow> storage_error + key_list" where
  "mem_kv_list_keys opts s =
     (if lk_limit opts = Some 0 then Inr empty_page
      else Inr (key_page opts (map (\<lambda>k. (k, length (kv_value (the (map_of s k))))) (sort (map fst s)))))"

definition memory_kv_ops :: "memory_kvs kv_ops" where
  "memory_kv_ops = \<lparr>kv_get_bytes = mem_kv_get_bytes, kv_set_bytes = mem_kv_set_bytes, kv_delete = mem_kv_delete,
     kv_list_keys = mem_kv_list_keys\<rparr>"

definition mem_kv_inv :: "memory_kvs \<Rightarrow> bool" where
  "mem_kv_inv s \<longleftrightarrow> distinct (map fst s) \<and> (\<forall>(k, e) \<in> set s. kv_key e = k)"

definition mem_kv_view :: "memory_kvs \<Rightarrow> kv_view" where
  "mem_kv_view s k = map_option (\<lambda>e. (kv_value e, kv_content_type e)) (map_of s k)"

lemma mem_kv_dom: "dom (mem_kv_view s) = set (map fst s)"
proof -
  have "dom (mem_kv_view s) = dom (map_of s)" by (auto simp: mem_kv_view_def dom_def)
  then show ?thesis by (simp add: dom_map_of_conv_image_fst)
qed

lemma mem_kv_entries:
  assumes "mem_kv_inv s"
  shows "map (\<lambda>k. (k, length (kv_value (the (map_of s k))))) (sort (map fst s)) = view_entries (mem_kv_view s)"
proof -
  have "sort (map fst s) = sorted_list_of_set (dom (mem_kv_view s))"
    using assms sorted_list_of_set_sort_remdups [of "map fst s"]
    by (simp add: mem_kv_dom mem_kv_inv_def distinct_remdups_id)
  moreover have "map_of s k \<noteq> None" if "k \<in> set (sort (map fst s))" for k using that by (auto simp: map_of_eq_None_iff)
  ultimately show ?thesis by (auto simp: view_entries_def mem_kv_view_def option.map_sel)
qed

interpretation mkv: key_value_store memory_kv_ops mem_kv_inv mem_kv_view "\<lambda>_. True" "\<lambda>t. t"
proof unfold_locales
  fix s :: memory_kvs and k b t opts
  assume inv: "mem_kv_inv s"
  show "finite (dom (mem_kv_view s))" by (simp add: mem_kv_dom)
  have "kv_key e = k" if "map_of s k = Some e" for e using inv map_of_SomeD [OF that] by (auto simp: mem_kv_inv_def)
  then show "kv_get_bytes memory_kv_ops k s =
      Inr (map_option (\<lambda>(b, t). \<lparr>kv_key = k, kv_value = b, kv_content_type = t\<rparr>) (mem_kv_view s k))"
    by (cases "map_of s k") (auto simp: memory_kv_ops_def mem_kv_get_bytes_def mem_kv_view_def)
  have "mem_kv_inv (AList.update k \<lparr>kv_key = k, kv_value = b, kv_content_type = t\<rparr> s)" using inv
    by (auto simp: mem_kv_inv_def distinct_update set_update_alist)
  then show "\<exists>s'. kv_set_bytes memory_kv_ops k b t s = (Inr (), s') \<and> mem_kv_inv s' \<and> mem_kv_view s' = (mem_kv_view s)(k \<mapsto> (b, t))"
    by (auto simp: memory_kv_ops_def mem_kv_set_bytes_def mem_kv_view_def update_conv' fun_eq_iff)
  show "\<exists>s'. kv_delete memory_kv_ops k s = (Inr (), s') \<and> mem_kv_inv s' \<and> mem_kv_view s' = (mem_kv_view s)(k := None)"
    using inv by (auto simp: memory_kv_ops_def mem_kv_delete_def mem_kv_view_def mem_kv_inv_def delete_conv' fun_eq_iff
        distinct_delete set_delete_alist)
  show "kv_list_keys memory_kv_ops opts s = Inr (list_page opts (mem_kv_view s))"
    by (simp add: memory_kv_ops_def mem_kv_list_keys_def list_page_def mem_kv_entries [OF inv])
qed simp

end
