(* ===== verification/Fs_Kvs.thy ===== *)
theory Fs_Kvs
  imports Kvs Statistics "HOL-Library.Sublist"
begin

text \<open>
  The file-system key-value store (\<open>millipede-storage-fs/src/kvs.rs\<close>) and the names of its files
  (\<open>layout.rs\<close>). A store is a directory: the names of its files, in the order \<open>read_dir\<close> gives, with their bytes.
  An operation takes the outcome of each of its system calls as an argument, so that a call that fails, or a
  process that stops there, is a branch.
\<close>

section \<open>Names\<close>

text \<open>\<open>str::rsplit_once\<close>: split at the last occurrence.\<close>

definition rsplit_once :: "string \<Rightarrow> string \<Rightarrow> (string \<times> string) option" where
  "rsplit_once pat s =
     map_option (\<lambda>i. (take i s, drop (i + length pat) s)) (find (\<lambda>i. prefix pat (drop i s)) (rev [0..<Suc (length s)]))"

definition validate_component :: "(string \<Rightarrow> string) \<Rightarrow> string \<Rightarrow> string \<Rightarrow> storage_error + unit" where
  "validate_component dbg v kind =
     (if v = [] \<or> CHR ''/'' \<in> set v \<or> CHR 0x5C \<in> set v \<or> sublist ''..'' v \<or> CHR 0x00 \<in> set v
      then Inl (Backend (anyhow_msg (''invalid '' @ kind @ '' '' @ dbg v
        @ '': must be non-empty and contain no '/', ''  @ [CHR 0x27, CHR 0x5C, CHR 0x27] @ '', '..', or NUL'')))
      else Inr ())"

definition validate_key :: "(string \<Rightarrow> string) \<Rightarrow> string \<Rightarrow> storage_error + unit" where
  "validate_key dbg key = validate_component dbg key ''key''"

definition store_name :: "(string \<Rightarrow> string) \<Rightarrow> string option \<Rightarrow> storage_error + string" where
  "store_name dbg name =
     (let n = (case name of Some n \<Rightarrow> n | None \<Rightarrow> ''default'') in
      case validate_component dbg n ''storage name'' of Inl e \<Rightarrow> Inl e | Inr _ \<Rightarrow> Inr n)"

text \<open>The random part of a temporary name is an argument.\<close>

definition temporary_suffix :: "u64 \<Rightarrow> string" where
  "temporary_suffix random = ''tmp-'' @ hex16 random"

definition is_temporary_file :: "string \<Rightarrow> bool" where
  "is_temporary_file name =
     (case rsplit_once ''.tmp-'' name of
        None \<Rightarrow> False
      | Some (destination, sfx) \<Rightarrow>
          (case rsplit_once ''.'' destination of
             None \<Rightarrow> False
           | Some (key, extension) \<Rightarrow>
               key \<noteq> [] \<and> extension \<noteq> [] \<and> length sfx = 16 \<and> list_all is_hexdigit sfx))"

text \<open>\<open>str::trim\<close>: \<open>all_space\<close> says that a text is white space.\<close>

function all_space :: "string \<Rightarrow> bool" where
  "all_space s = (if s = [] then True else if whitespace_len s = 0 then False else all_space (drop (whitespace_len s) s))"
  by pat_completeness auto
termination by (relation "measure length") (auto simp: length_greater_0_conv)

function trim_start :: "string \<Rightarrow> string" where
  "trim_start s = (if s = [] \<or> whitespace_len s = 0 then s else trim_start (drop (whitespace_len s) s))"
  by pat_completeness auto
termination by (relation "measure length") (auto simp: length_greater_0_conv)

declare all_space.simps [simp del] trim_start.simps [simp del]

definition trim_end :: "string \<Rightarrow> string" where
  "trim_end s = (case find (\<lambda>n. all_space (drop n s)) [0..<length s] of Some n \<Rightarrow> take n s | None \<Rightarrow> s)"

definition extension_for_content_type :: "string \<Rightarrow> string" where
  "extension_for_content_type content_type =
     (let t = to_ascii_lowercase (trim_end (trim_start (takeWhile (\<lambda>c. c \<noteq> CHR '';'') content_type))) in
      if t = ''application/json'' then ''json''
      else if t = ''text/plain'' then ''txt''
      else if t = ''text/html'' then ''html''
      else if t = ''application/xml'' \<or> t = ''text/xml'' then ''xml''
      else if t = ''image/png'' then ''png''
      else if t = ''image/jpeg'' then ''jpeg''
      else if t = ''application/octet-stream'' then ''bin''
      else ''bin'')"

definition content_type_for_extension :: "string \<Rightarrow> string" where
  "content_type_for_extension extension =
     (let e = to_ascii_lowercase extension in
      if e = ''json'' then ''application/json''
      else if e = ''txt'' then ''text/plain''
      else if e = ''html'' then ''text/html''
      else if e = ''xml'' then ''application/xml''
      else if e = ''png'' then ''image/png''
      else if e = ''jpeg'' then ''image/jpeg''
      else ''application/octet-stream'')"

section \<open>The store\<close>

type_synonym directory = "(string \<times> u8 list) list"

definition fs_rename :: "string \<Rightarrow> string \<Rightarrow> directory \<Rightarrow> directory" where
  "fs_rename a b d = (case map_of d a of Some bytes \<Rightarrow> AList.update b bytes (AList.delete a d) | None \<Rightarrow> d)"

text \<open>The key and the extension of a file that holds a value; a temporary file holds none.\<close>

definition stored_key :: "string \<Rightarrow> (string \<times> string) option" where
  "stored_key name =
     (if is_temporary_file name then None
      else case rsplit_once ''.'' name of
        None \<Rightarrow> None
      | Some (key, extension) \<Rightarrow> if extension = [] then None else Some (key, extension))"

definition matching_files :: "string \<Rightarrow> directory \<Rightarrow> (string \<times> string) list" where
  "matching_files key d = sort_key snd
     (List.map_filter (\<lambda>(name, _). case stored_key name of
        Some (k, e) \<Rightarrow> if k = key then Some (e, name) else None
      | None \<Rightarrow> None) d)"

text \<open>
  \<open>io n\<close> is the error of the \<open>n\<close>-th system call of an operation, if it fails. A failed write leaves \<open>torn\<close>
  in the temporary file, if anything.
\<close>

type_synonym io = "nat \<Rightarrow> storage_error option"

definition fs_kv_get_bytes :: "(string \<Rightarrow> string) \<Rightarrow> io \<Rightarrow> string \<Rightarrow> directory \<Rightarrow> storage_error + kv_entry option" where
  "fs_kv_get_bytes dbg io key d =
     (case validate_key dbg key of Inl e \<Rightarrow> Inl e
      | Inr _ \<Rightarrow>
     (case io 0 of Some e \<Rightarrow> Inl e
      | None \<Rightarrow>
     (case matching_files key d of
        [] \<Rightarrow> Inr None
      | (extension, name) # _ \<Rightarrow>
          (case io 1 of Some e \<Rightarrow> Inl e
           | None \<Rightarrow> Inr (Some \<lparr>kv_key = key, kv_value = the (map_of d name),
                kv_content_type = content_type_for_extension extension\<rparr>)))))"

fun remove_files :: "io \<Rightarrow> nat \<Rightarrow> string list \<Rightarrow> directory \<Rightarrow> (storage_error + unit) \<times> directory" where
  "remove_files io n [] d = (Inr (), d)"
| "remove_files io n (name # names) d =
     (case io n of Some e \<Rightarrow> (Inl e, d)
      | None \<Rightarrow> remove_files io (Suc n) names (AList.delete name d))"

definition fs_kv_set_bytes ::
  "(string \<Rightarrow> string) \<Rightarrow> io \<Rightarrow> u8 list option \<Rightarrow> bool \<Rightarrow> u64 \<Rightarrow> string \<Rightarrow> u8 list \<Rightarrow> string \<Rightarrow> directory
     \<Rightarrow> (storage_error + unit) \<times> directory" where
  "fs_kv_set_bytes dbg io torn left random key bytes content_type d =
     (case validate_key dbg key of Inl e \<Rightarrow> (Inl e, d)
      | Inr _ \<Rightarrow>
     (case io 0 of Some e \<Rightarrow> (Inl e, d)
      | None \<Rightarrow>
     (let extension = extension_for_content_type content_type;
          destination = key @ ''.'' @ extension;
          temporary = key @ ''.'' @ extension @ ''.'' @ temporary_suffix random
      in case io 1 of Some e \<Rightarrow> (Inl e, case torn of None \<Rightarrow> d | Some t \<Rightarrow> AList.update temporary t d)
      | None \<Rightarrow>
     (let d1 = AList.update temporary bytes d in
      case io 2 of Some e \<Rightarrow> (Inl e, if left then d1 else AList.delete temporary d1)
      | None \<Rightarrow>
     (let d2 = fs_rename temporary destination d1 in
      case io 3 of Some e \<Rightarrow> (Inl e, d2)
      | None \<Rightarrow> remove_files io 4 (filter (\<lambda>name. name \<noteq> destination) (map snd (matching_files key d2))) d2)))))"

definition fs_kv_delete :: "(string \<Rightarrow> string) \<Rightarrow> io \<Rightarrow> string \<Rightarrow> directory \<Rightarrow> (storage_error + unit) \<times> directory" where
  "fs_kv_delete dbg io key d =
     (case validate_key dbg key of Inl e \<Rightarrow> (Inl e, d)
      | Inr _ \<Rightarrow>
     (case io 0 of Some e \<Rightarrow> (Inl e, d)
      | None \<Rightarrow> remove_files io 1 (map snd (matching_files key d)) d))"

text \<open>The sizes by key: the first file of a key counts. The map is then read in the order of its keys.\<close>

definition key_size :: "string \<times> u8 list \<Rightarrow> (string \<times> nat) list \<Rightarrow> (string \<times> nat) list" where
  "key_size f m =
     (case stored_key (fst f) of
        Some (k, e) \<Rightarrow> if k = [] \<or> map_of m k \<noteq> None then m else m @ [(k, length (snd f))]
      | None \<Rightarrow> m)"

definition fs_kv_list_keys :: "io \<Rightarrow> list_keys_options \<Rightarrow> directory \<Rightarrow> storage_error + key_list" where
  "fs_kv_list_keys io opts d =
     (if lk_limit opts = Some 0 then Inr empty_page
      else case io 0 of Some e \<Rightarrow> Inl e
      | None \<Rightarrow> Inr (key_page opts (sort_key fst (fold key_size d []))))"

definition fs_kv_ops :: "(string \<Rightarrow> string) \<Rightarrow> u64 \<Rightarrow> directory kv_ops" where
  "fs_kv_ops dbg random = \<lparr>kv_get_bytes = fs_kv_get_bytes dbg (\<lambda>_. None),
     kv_set_bytes = fs_kv_set_bytes dbg (\<lambda>_. None) None False random,
     kv_delete = fs_kv_delete dbg (\<lambda>_. None), kv_list_keys = fs_kv_list_keys (\<lambda>_. None)\<rparr>"

section \<open>Splitting names\<close>

lemma rsplit_once_Some:
  assumes "rsplit_once pat s = Some (a, b)"
  shows "s = a @ pat @ b"
proof -
  obtain i where "prefix pat (drop i s)" "a = take i s" "b = drop (i + length pat) s"
    using assms by (auto simp: rsplit_once_def find_Some_iff simp del: upt_Suc)
  then show ?thesis by (metis append_eq_conv_conj append_take_drop_id drop_drop add.commute prefix_def)
qed

lemma find_rev_upt:
  assumes "P i" and "i \<le> n" and "\<And>j. i < j \<Longrightarrow> j \<le> n \<Longrightarrow> \<not> P j"
  shows "find P (rev [0..<Suc n]) = Some i"
  using assms
proof (induction n)
  case (Suc n)
  show ?case
  proof (cases "i = Suc n")
    case False
    then have "\<not> P (Suc n)" "i \<le> n" using Suc.prems(2,3) by auto
    then show ?thesis using Suc by simp
  qed (use Suc.prems(1) in simp)
qed simp

lemma rsplit_once_last:
  assumes "CHR ''.'' \<notin> set p" and "CHR ''.'' \<notin> set e"
  shows "rsplit_once (CHR ''.'' # p) (k @ (CHR ''.'' # p) @ e) = Some (k, e)"
proof -
  let ?s = "k @ (CHR ''.'' # p) @ e"
  have "\<not> prefix (CHR ''.'' # p) (drop j ?s)" if j: "length k < j" for j
  proof -
    have "drop j ?s = drop (j - Suc (length k)) (p @ e)" using j by (simp add: drop_Cons' Suc_diff_Suc)
    then have "set (drop j ?s) \<subseteq> set p \<union> set e" using set_drop_subset by fastforce
    moreover have "CHR ''.'' \<in> set xs" if "prefix (CHR ''.'' # p) xs" for xs using that by (cases xs) auto
    ultimately show ?thesis using assms by blast
  qed
  then have "find (\<lambda>i. prefix (CHR ''.'' # p) (drop i ?s)) (rev [0..<Suc (length ?s)]) = Some (length k)"
    by (intro find_rev_upt) simp_all
  then show ?thesis by (simp add: rsplit_once_def)
qed

lemmas rsplit_once_dot = rsplit_once_last [of "[]", simplified]

definition known_extensions :: "string list" where
  "known_extensions = [''json'', ''txt'', ''html'', ''xml'', ''png'', ''jpeg'', ''bin'']"

lemma extension_known: "extension_for_content_type t \<in> set known_extensions"
  by (simp add: extension_for_content_type_def known_extensions_def Let_def)

lemma known_extension_plain: "e \<in> set known_extensions \<Longrightarrow> CHR ''.'' \<notin> set e \<and> e \<noteq> [] \<and> length e < 16"
  by (auto simp: known_extensions_def)

lemma hex16_plain: "CHR ''.'' \<notin> set (hex16 w)" "list_all is_hexdigit (hex16 w)"
proof -
  have "\<forall>c \<in> set ''0123456789abcdef''. is_hexdigit c" by (simp add: is_hexdigit_def)
  then show "list_all is_hexdigit (hex16 w)" using hex_digits_range [of 16 "unat w"] by (auto simp: hex16_def list_all_iff)
  show "CHR ''.'' \<notin> set (hex16 w)" using hex_digits_range [of 16 "unat w"] by (auto simp: hex16_def)
qed

lemma temporary_recognised:
  assumes "k \<noteq> []" and "e \<in> set known_extensions"
  shows "is_temporary_file (k @ ''.'' @ e @ ''.'' @ temporary_suffix random)"
proof -
  have "rsplit_once ''.tmp-'' ((k @ ''.'' @ e) @ ''.tmp-'' @ hex16 random) = Some (k @ ''.'' @ e, hex16 random)"
    using hex16_plain(1) by (intro rsplit_once_last) simp_all
  then show ?thesis using assms known_extension_plain [OF assms(2)] hex16_plain(2)
    by (simp add: is_temporary_file_def temporary_suffix_def rsplit_once_dot)
qed

lemma destination_stored:
  assumes "e \<in> set known_extensions"
  shows "stored_key (k @ ''.'' @ e) = Some (k, e)"
proof -
  note e = known_extension_plain [OF assms]
  have "\<not> is_temporary_file (k @ ''.'' @ e)"
  proof
    assume "is_temporary_file (k @ ''.'' @ e)"
    then obtain d h where "rsplit_once ''.tmp-'' (k @ ''.'' @ e) = Some (d, h)" and h: "length h = 16" "list_all is_hexdigit h"
      by (auto simp: is_temporary_file_def split: option.splits)
    then have "(d @ ''.tmp-'') @ h = k @ ''.'' @ e" using rsplit_once_Some by fastforce
    then have "suffix h (k @ ''.'' @ e)" by (metis suffixI)
    moreover have "suffix (''.'' @ e) (k @ ''.'' @ e)" by (rule suffixI [of _ k]) simp
    moreover have "length (''.'' @ e) \<le> length h" using e h(1) by simp
    ultimately have "suffix (''.'' @ e) h" using suffix_length_suffix by blast
    then have "CHR ''.'' \<in> set h" by (auto simp: suffix_def)
    then show False using h(2) by (auto simp: list_all_iff is_hexdigit_def)
  qed
  then show ?thesis using e by (simp add: stored_key_def rsplit_once_dot)
qed

lemma stored_key_name: "stored_key n = Some (k, e) \<Longrightarrow> n = k @ ''.'' @ e"
  by (auto simp: stored_key_def split: if_splits option.splits dest: rsplit_once_Some)

lemma temporary_not_stored: "is_temporary_file n \<Longrightarrow> stored_key n = None"
  by (simp add: stored_key_def)

section \<open>Files of a key\<close>

definition fs_kv_inv :: "directory \<Rightarrow> bool" where
  "fs_kv_inv d \<longleftrightarrow> distinct (map fst d) \<and> (\<forall>n n' k e e'. map_of d n \<noteq> None \<longrightarrow> map_of d n' \<noteq> None
     \<longrightarrow> stored_key n = Some (k, e) \<longrightarrow> stored_key n' = Some (k, e') \<longrightarrow> n = n')"

lemma mem_matching: "(e, n) \<in> set (matching_files k d) \<longleftrightarrow> map_of d n \<noteq> None \<and> stored_key n = Some (k, e)"
proof -
  have "(e, n) \<in> set (matching_files k d) \<longleftrightarrow> (\<exists>b. (n, b) \<in> set d) \<and> stored_key n = Some (k, e)"
    by (force simp: matching_files_def List.map_filter_def split: option.splits if_splits)
  moreover have "(\<exists>b. (n, b) \<in> set d) \<longleftrightarrow> map_of d n \<noteq> None" by (force simp: map_of_eq_None_iff)
  ultimately show ?thesis by simp
qed

lemma distinct_matching:
  assumes "distinct (map fst d)"
  shows "distinct (matching_files k d)"
proof -
  let ?f = "\<lambda>(name, _). case stored_key name of Some (k', e) \<Rightarrow> if k' = k then Some (e, name) else None | None \<Rightarrow> None"
  have s: "snd ` set (List.map_filter ?f xs) \<subseteq> fst ` set xs" for xs :: directory
    by (force simp: List.map_filter_def split: option.splits if_splits)
  have "distinct (List.map_filter ?f d)" using assms
  proof (induction d)
    case (Cons p d)
    then show ?case using s [of d] by (cases p) (force simp: List.map_filter_simps split: option.splits if_splits)
  qed (simp add: List.map_filter_simps)
  then show ?thesis by (simp add: matching_files_def)
qed

lemma matching_one:
  assumes "distinct (map fst d)" and "map_of d n = Some b" and "stored_key n = Some (k, e)"
    and "\<And>n' e'. map_of d n' \<noteq> None \<Longrightarrow> stored_key n' = Some (k, e') \<Longrightarrow> n' = n"
  shows "matching_files k d = [(e, n)]"
proof -
  have "p = (e, n)" if p: "p \<in> set (matching_files k d)" for p
  proof -
    obtain e' n' where q: "p = (e', n')" by (rule prod.exhaust)
    then have m: "map_of d n' \<noteq> None" "stored_key n' = Some (k, e')" using p mem_matching [of e' n' k d] by simp_all
    have "n' = n" by (rule assms(4) [OF m])
    then show ?thesis using assms(3) m(2) q by simp
  qed
  moreover have "(e, n) \<in> set (matching_files k d)" using mem_matching [of e n k d] assms(2,3) by simp
  ultimately have "set (matching_files k d) = {(e, n)}" by blast
  moreover have "length (matching_files k d) = card (set (matching_files k d))"
    using distinct_card [OF distinct_matching [OF assms(1), of k]] by simp
  ultimately have s: "set (matching_files k d) = {(e, n)}" and "length (matching_files k d) = 1" by simp_all
  then obtain p where "matching_files k d = [p]" by (auto simp: length_Suc_conv)
  then show ?thesis using s by simp
qed

lemma matching_none:
  assumes "\<And>n e. map_of d n \<noteq> None \<Longrightarrow> stored_key n \<noteq> Some (k, e)"
  shows "matching_files k d = []"
proof (cases "matching_files k d")
  case (Cons p ps)
  then show ?thesis using mem_matching [of "fst p" "snd p" k d] assms [of "snd p" "fst p"] by simp
qed

text \<open>What a directory holds for a key.\<close>

definition fs_kv_view :: "directory \<Rightarrow> kv_view" where
  "fs_kv_view d k = (if k = [] then None else
     (case matching_files k d of
        [] \<Rightarrow> None
      | (e, n) # _ \<Rightarrow> Some (the (map_of d n), content_type_for_extension e)))"

lemma inv_matching:
  assumes "fs_kv_inv d" and "map_of d n = Some b" and "stored_key n = Some (k, e)"
  shows "matching_files k d = [(e, n)]"
proof (rule matching_one [OF _ assms(2,3)])
  show "distinct (map fst d)" using assms(1) by (simp add: fs_kv_inv_def)
  show "n' = n" if "map_of d n' \<noteq> None" "stored_key n' = Some (k, e')" for n' e'
    using assms that unfolding fs_kv_inv_def by (metis option.distinct(1))
qed

lemma fs_view_Some:
  assumes "fs_kv_inv d" and "k \<noteq> []" and "map_of d n = Some b" and "stored_key n = Some (k, e)"
  shows "fs_kv_view d k = Some (b, content_type_for_extension e)"
  using inv_matching [OF assms(1,3,4)] assms(2,3) by (simp add: fs_kv_view_def)

lemma fs_view_None:
  assumes "\<And>n e. map_of d n \<noteq> None \<Longrightarrow> stored_key n \<noteq> Some (k, e)"
  shows "fs_kv_view d k = None"
  using matching_none [OF assms] by (simp add: fs_kv_view_def)

lemma fs_view_file:
  assumes "fs_kv_view d k = Some (b, t)"
  shows "\<exists>n e. map_of d n = Some b \<and> stored_key n = Some (k, e) \<and> t = content_type_for_extension e \<and> k \<noteq> []"
proof -
  obtain e n ps where m: "matching_files k d = (e, n) # ps" and k: "k \<noteq> []"
    using assms by (auto simp: fs_kv_view_def split: if_splits list.splits)
  then show ?thesis using assms mem_matching [of e n k d] by (auto simp: fs_kv_view_def)
qed

text \<open>Two directories with the same files of a key hold the same for it.\<close>

lemma fs_view_cong:
  assumes "fs_kv_inv d" and "fs_kv_inv d'" and "\<And>n e. stored_key n = Some (k, e) \<Longrightarrow> map_of d' n = map_of d n"
  shows "fs_kv_view d' k = fs_kv_view d k"
proof (cases "fs_kv_view d k")
  case None
  have "map_of d' n = None" if "stored_key n = Some (k, e)" "k \<noteq> []" for n e
    using fs_view_Some [OF assms(1) that(2) _ that(1)] None assms(3) [OF that(1)] by (cases "map_of d n") auto
  then have "k \<noteq> [] \<Longrightarrow> fs_kv_view d' k = None" by (intro fs_view_None) auto
  then show ?thesis using None by (cases "k = []") (simp_all add: fs_kv_view_def)
next
  case (Some bt)
  obtain b t where bt: "bt = (b, t)" by (rule prod.exhaust)
  obtain n e where n: "map_of d n = Some b" "stored_key n = Some (k, e)" "t = content_type_for_extension e" "k \<noteq> []"
    using fs_view_file [of d k b t] Some bt by auto
  then show ?thesis using fs_view_Some [OF assms(2) n(4) _ n(2), of b] assms(3) [OF n(2)] Some bt by simp
qed

section \<open>Refinement\<close>

definition valid_key :: "string \<Rightarrow> bool" where
  "valid_key k \<longleftrightarrow> k \<noteq> [] \<and> CHR ''/'' \<notin> set k \<and> CHR 0x5C \<notin> set k \<and> \<not> sublist ''..'' k \<and> CHR 0x00 \<notin> set k"

lemma validate_valid: "valid_key k \<Longrightarrow> validate_key dbg k = Inr ()"
  by (simp add: valid_key_def validate_key_def validate_component_def)

definition normal_type :: "string \<Rightarrow> string" where
  "normal_type t = content_type_for_extension (extension_for_content_type t)"

lemma map_of_rename:
  assumes "a \<noteq> b"
  shows "map_of (fs_rename a b (AList.update a v d)) n = (if n = b then Some v else if n = a then None else map_of d n)"
  using assms by (cases "n = b"; cases "n = a") (simp_all add: fs_rename_def)

lemma map_of_deletes: "map_of (fold AList.delete ns d) n = (if n \<in> set ns then None else map_of d n)"
  by (induction ns arbitrary: d) (auto simp: delete_conv')

lemma distinct_deletes: "distinct (map fst d) \<Longrightarrow> distinct (map fst (fold AList.delete ns d))"
  by (induction ns arbitrary: d) (auto simp: distinct_delete)

lemma distinct_rename: "distinct (map fst d) \<Longrightarrow> distinct (map fst (fs_rename a b d))"
  by (simp add: fs_rename_def distinct_update distinct_delete split: option.split)

lemma remove_files_prefix:
  assumes "remove_files io i ns d = (r, d')"
  shows "\<exists>gone. set gone \<subseteq> set ns \<and> d' = fold AList.delete gone d \<and> (r = Inr () \<longrightarrow> gone = ns)
    \<and> ((\<forall>j. io j = None) \<longrightarrow> r = Inr ())"
  using assms
proof (induction io i ns d rule: remove_files.induct)
  case (1 io n d)
  then show ?case by (intro exI [of _ "[]"]) auto
next
  case (2 io n name names d)
  show ?case
  proof (cases "io n")
    case None
    then obtain gone where "set gone \<subseteq> set names" "d' = fold AList.delete gone (AList.delete name d)"
      "r = Inr () \<longrightarrow> gone = names" "(\<forall>j. io j = None) \<longrightarrow> r = Inr ()" using 2 by auto
    then show ?thesis by (intro exI [of _ "name # gone"]) auto
  next
    case (Some e)
    then show ?thesis using 2 by (intro exI [of _ "[]"]) auto
  qed
qed

text \<open>
  What \<open>set_bytes\<close> leaves behind, wherever it stops: before the rename, every stored file is as it was; after it, the
  new file is there and some of the key's other files are gone, all of them when it succeeds.
\<close>

definition untouched :: "directory \<Rightarrow> directory \<Rightarrow> bool" where
  "untouched d d' \<longleftrightarrow> (\<forall>n. stored_key n \<noteq> None \<longrightarrow> map_of d' n = map_of d n)"

definition replaced :: "string \<Rightarrow> string \<Rightarrow> u8 list \<Rightarrow> string set \<Rightarrow> directory \<Rightarrow> directory \<Rightarrow> bool" where
  "replaced key dest bytes gone d d' \<longleftrightarrow> (\<forall>n \<in> gone. n \<noteq> dest \<and> (\<exists>e. stored_key n = Some (key, e)))
     \<and> (\<forall>n. stored_key n \<noteq> None \<longrightarrow> map_of d' n =
          (if n = dest then Some bytes else if n \<in> gone then None else map_of d n))"

lemma set_bytes_stages:
  assumes "valid_key key" and "distinct (map fst d)"
    and "fs_kv_set_bytes dbg io torn left random key bytes t d = (r, d')"
    and dest: "dest = key @ ''.'' @ extension_for_content_type t"
  shows "distinct (map fst d') \<and> ((\<forall>j. io j = None) \<longrightarrow> r = Inr ()) \<and>
    (r \<noteq> Inr () \<and> untouched d d' \<or> (\<exists>gone. replaced key dest bytes gone d d'
       \<and> (r = Inr () \<longrightarrow> (\<forall>n e. stored_key n = Some (key, e) \<longrightarrow> map_of d n \<noteq> None \<longrightarrow> n = dest \<or> n \<in> gone))))"
proof -
  let ?e = "extension_for_content_type t"
  define tmp where "tmp = key @ ''.'' @ ?e @ ''.'' @ temporary_suffix random"
  define d1 where "d1 = AList.update tmp bytes d"
  define d2 where "d2 = fs_rename tmp dest d1"
  define old where "old = filter (\<lambda>name. name \<noteq> dest) (map snd (matching_files key d2))"
  have k: "key \<noteq> []" using assms(1) by (simp add: valid_key_def)
  have tmp: "stored_key tmp = None"
    unfolding tmp_def by (rule temporary_not_stored [OF temporary_recognised [OF k extension_known]])
  have "stored_key dest = Some (key, ?e)" unfolding dest by (rule destination_stored [OF extension_known])
  then have ne: "tmp \<noteq> dest" using tmp by auto
  have d2: "map_of d2 n = (if n = dest then Some bytes else if n = tmp then None else map_of d n)" for n
    unfolding d2_def d1_def by (rule map_of_rename [OF ne])
  have before: "untouched d (AList.update tmp v d)" "untouched d (AList.delete tmp d1)" for v
    using tmp by (auto simp: untouched_def update_conv' delete_conv' d1_def)
  have old: "n \<in> set old \<longleftrightarrow> n \<noteq> dest \<and> map_of d n \<noteq> None \<and> (\<exists>e. stored_key n = Some (key, e))" for n
  proof -
    have "n \<in> set old \<longleftrightarrow> n \<noteq> dest \<and> (\<exists>e. (e, n) \<in> set (matching_files key d2))" by (force simp: old_def)
    then show ?thesis using tmp by (auto simp: mem_matching d2)
  qed
  have after: "replaced key dest bytes (set gone) d (fold AList.delete gone d2)" if g: "set gone \<subseteq> set old" for gone
    using g old tmp unfolding replaced_def by (auto simp: map_of_deletes d2)
  have dist: "distinct (map fst (AList.update n v d))" "distinct (map fst d2)" "distinct (map fst (AList.delete tmp d1))" for n v
    using assms(2) by (simp_all add: distinct_update distinct_rename distinct_delete d2_def d1_def)
  have refl: "untouched d d" by (simp add: untouched_def)
  note run = assms(3) [unfolded fs_kv_set_bytes_def validate_valid [OF assms(1)] sum.case Let_def,
    folded dest tmp_def, folded d1_def, folded d2_def, folded old_def]
  show ?thesis
  proof (cases "io 0 = None \<and> io 1 = None \<and> io 2 = None")
    case False
    then show ?thesis using run assms(2) refl before dist [folded d1_def] by (auto simp: d1_def split: option.splits if_splits)
  next
    case True
    have "\<exists>gone. set gone \<subseteq> set old \<and> d' = fold AList.delete gone d2 \<and> (r = Inr () \<longrightarrow> gone = old)
        \<and> ((\<forall>j. io j = None) \<longrightarrow> r = Inr ())"
    proof (cases "io 3")
      case None
      then show ?thesis using run True by (intro remove_files_prefix) simp
    next
      case (Some e)
      then have "r = Inl e \<and> d' = d2" using run True by simp
      then show ?thesis using Some by (intro exI [of _ "[]"]) auto
    qed
    then obtain gone where g: "set gone \<subseteq> set old" "d' = fold AList.delete gone d2" "r = Inr () \<longrightarrow> gone = old"
      "(\<forall>j. io j = None) \<longrightarrow> r = Inr ()" by blast
    have "r = Inr () \<longrightarrow> (\<forall>n e. stored_key n = Some (key, e) \<longrightarrow> map_of d n \<noteq> None \<longrightarrow> n = dest \<or> n \<in> set gone)"
      using g(3) old by auto
    then show ?thesis using after [OF g(1)] g(2,4) distinct_deletes [OF dist(2), of gone] by blast
  qed
qed

lemma set_bytes_view:
  assumes "fs_kv_inv d" and "valid_key key" and "fs_kv_set_bytes dbg io torn left random key bytes t d = (Inr (), d')"
  shows "fs_kv_inv d' \<and> fs_kv_view d' = (fs_kv_view d)(key \<mapsto> (bytes, normal_type t))"
proof -
  define dest where "dest = key @ ''.'' @ extension_for_content_type t"
  have k: "key \<noteq> []" using assms(2) by (simp add: valid_key_def)
  have dest: "stored_key dest = Some (key, extension_for_content_type t)"
    unfolding dest_def by (rule destination_stored [OF extension_known])
  have dist: "distinct (map fst d)" using assms(1) by (simp add: fs_kv_inv_def)
  obtain gone where d': "distinct (map fst d')" and rep: "replaced key dest bytes gone d d'"
    and all: "\<And>n e. stored_key n = Some (key, e) \<Longrightarrow> map_of d n \<noteq> None \<Longrightarrow> n = dest \<or> n \<in> gone"
    using set_bytes_stages [OF assms(2) dist assms(3) dest_def] by auto
  have m: "stored_key n \<noteq> None \<Longrightarrow> map_of d' n = (if n = dest then Some bytes else if n \<in> gone then None else map_of d n)" for n
    using rep by (simp add: replaced_def)
  have only: "map_of d' n \<noteq> None \<Longrightarrow> stored_key n = Some (key, e) \<Longrightarrow> n = dest" for n e
    using m [of n] all [of n e] by (auto split: if_splits)
  have others: "stored_key n = Some (k', e) \<Longrightarrow> k' \<noteq> key \<Longrightarrow> map_of d' n = map_of d n" for n k' e
    using m [of n] rep dest by (auto simp: replaced_def)
  have inv: "fs_kv_inv d'" unfolding fs_kv_inv_def
  proof (intro conjI allI impI)
    fix n n' k' e e'
    assume n: "map_of d' n \<noteq> None" "map_of d' n' \<noteq> None" "stored_key n = Some (k', e)" "stored_key n' = Some (k', e')"
    show "n = n'"
    proof (cases "k' = key")
      case True
      then show ?thesis using only n by metis
    next
      case False
      then show ?thesis using n others assms(1) unfolding fs_kv_inv_def by metis
    qed
  qed (rule d')
  moreover have "fs_kv_view d' key = Some (bytes, normal_type t)"
    using fs_view_Some [OF inv k _ dest, of bytes] m [of dest] dest by (simp add: normal_type_def)
  moreover have "fs_kv_view d' k' = fs_kv_view d k'" if "k' \<noteq> key" for k'
    using fs_view_cong [OF assms(1) inv] others that by blast
  ultimately show ?thesis by auto
qed

lemma delete_view:
  assumes "fs_kv_inv d" and "valid_key key" and "fs_kv_delete dbg io key d = (Inr (), d')"
  shows "fs_kv_inv d' \<and> fs_kv_view d' = (fs_kv_view d)(key := None)"
proof -
  have "remove_files io 1 (map snd (matching_files key d)) d = (Inr (), d')"
    using assms(3) by (simp add: fs_kv_delete_def validate_valid [OF assms(2)] split: option.splits)
  then have d: "d' = fold AList.delete (map snd (matching_files key d)) d" using remove_files_prefix by blast
  have gone: "n \<in> set (map snd (matching_files key d)) \<longleftrightarrow> map_of d n \<noteq> None \<and> (\<exists>e. stored_key n = Some (key, e))" for n
  proof -
    have "n \<in> set (map snd (matching_files key d)) \<longleftrightarrow> (\<exists>e. (e, n) \<in> set (matching_files key d))" by force
    then show ?thesis by (simp add: mem_matching)
  qed
  have m: "map_of d' n = (if \<exists>e. stored_key n = Some (key, e) then None else map_of d n)" for n
    unfolding d map_of_deletes using gone [of n] by auto
  have sub: "map_of d' n \<noteq> None \<Longrightarrow> map_of d n \<noteq> None" for n by (auto simp: m split: if_splits)
  have "distinct (map fst d')" unfolding d using assms(1) by (intro distinct_deletes) (simp add: fs_kv_inv_def)
  then have inv: "fs_kv_inv d'" using assms(1) sub unfolding fs_kv_inv_def by metis
  moreover have "fs_kv_view d' key = None" using m by (intro fs_view_None) auto
  moreover have "fs_kv_view d' k' = fs_kv_view d k'" if "k' \<noteq> key" for k'
    using that m by (intro fs_view_cong [OF assms(1) inv]) auto
  ultimately show ?thesis by auto
qed

section \<open>Listing\<close>

definition first_size :: "directory \<Rightarrow> string \<Rightarrow> nat option" where
  "first_size d k = find_map (\<lambda>(n, b). case stored_key n of
     Some (k', e) \<Rightarrow> if k' = k then Some (length b) else None | None \<Rightarrow> None) d"

lemma key_size_fold:
  "distinct (map fst m) \<Longrightarrow> distinct (map fst (fold key_size d m))
   \<and> map_of (fold key_size d m) k = (case map_of m k of Some v \<Rightarrow> Some v | None \<Rightarrow> if k = [] then None else first_size d k)"
proof (induction d arbitrary: m)
  case (Cons f d)
  obtain n b where f: "f = (n, b)" by (rule prod.exhaust)
  have dm: "distinct (map fst (key_size f m))" using Cons.prems
    by (auto simp: key_size_def f map_of_eq_None_iff split: option.splits)
  have "map_of (key_size f m) k = (case map_of m k of Some v \<Rightarrow> Some v
      | None \<Rightarrow> if k = [] then None else (case stored_key n of Some (k', e) \<Rightarrow> if k' = k then Some (length b) else None | None \<Rightarrow> None))"
    by (auto simp: key_size_def f map_add_Some_iff split: option.splits)
  then show ?case using Cons.IH [OF dm] by (auto simp: first_size_def f split: option.splits if_splits)
qed (simp add: first_size_def split: option.split)

lemma first_size_view:
  assumes "fs_kv_inv d" and "k \<noteq> []"
  shows "first_size d k = map_option (length \<circ> fst) (fs_kv_view d k)"
proof (cases "first_size d k")
  case None
  then have "stored_key n \<noteq> Some (k, e)" if "(n, b) \<in> set d" for n b e
    using that by (auto simp: first_size_def find_map_None split: option.splits)
  then have "fs_kv_view d k = None" by (intro fs_view_None) (auto dest: map_of_SomeD)
  then show ?thesis using None by simp
next
  case (Some l)
  then obtain n b e where n: "(n, b) \<in> set d" "stored_key n = Some (k, e)" "l = length b"
    by (auto simp: first_size_def dest!: find_map_SomeD split: option.splits if_splits)
  then have "map_of d n = Some b" using assms(1) by (simp add: fs_kv_inv_def)
  then show ?thesis using fs_view_Some [OF assms(1,2) _ n(2)] Some n(3) by simp
qed

lemma sort_key_distinct:
  assumes "distinct (map fst m)"
  shows "sort_key fst m = map (\<lambda>k. (k, the (map_of m k))) (sorted_list_of_set (dom (map_of m)))"
proof -
  have "map fst (sort_key fst m) = sorted_list_of_set (dom (map_of m))"
  proof (rule sorted_distinct_set_unique)
    show "distinct (map fst (sort_key fst m))" using assms
      by (metis distinct_map distinct_sort set_sort)
    show "set (map fst (sort_key fst m)) = set (sorted_list_of_set (dom (map_of m)))"
      by (simp add: finite_dom_map_of dom_map_of_conv_image_fst)
  qed simp_all
  moreover have "sort_key fst m = map (\<lambda>p. (fst p, the (map_of m (fst p)))) (sort_key fst m)"
    using assms by (intro map_idI [symmetric]) auto
  ultimately show ?thesis by (metis (no_types, lifting) map_map comp_def map_cong)
qed

lemma fs_entries:
  assumes "fs_kv_inv d"
  shows "sort_key fst (fold key_size d []) = view_entries (fs_kv_view d)" "finite (dom (fs_kv_view d))"
proof -
  let ?m = "fold key_size d []"
  have m: "map_of ?m k = map_option (length \<circ> fst) (fs_kv_view d k)" for k
  proof (cases "k = []")
    case True
    then show ?thesis using key_size_fold [of "[]" d k] by (simp add: fs_kv_view_def)
  next
    case False
    then show ?thesis using key_size_fold [of "[]" d k] first_size_view [OF assms False] by simp
  qed
  then have dom: "dom (map_of ?m) = dom (fs_kv_view d)" by (auto simp: dom_def)
  then show "finite (dom (fs_kv_view d))" using finite_dom_map_of [of ?m] by simp
  then have "\<And>k. k \<in> set (sorted_list_of_set (dom (fs_kv_view d))) \<Longrightarrow> the (map_of ?m k) = length (fst (the (fs_kv_view d k)))"
    by (auto simp: m)
  then show "sort_key fst ?m = view_entries (fs_kv_view d)"
    using sort_key_distinct [of ?m] key_size_fold [of "[]" d] by (simp add: dom view_entries_def cong: map_cong)
qed

lemma json_type_kept: "normal_type ''application/json'' = ''application/json''"
  by code_simp

interpretation fkv: key_value_store "fs_kv_ops dbg random" fs_kv_inv fs_kv_view valid_key normal_type
proof unfold_locales
  fix d :: directory and k b t opts
  assume inv: "fs_kv_inv d"
  show "finite (dom (fs_kv_view d))" by (rule fs_entries(2) [OF inv])
  show "kv_list_keys (fs_kv_ops dbg random) opts d = Inr (list_page opts (fs_kv_view d))"
    by (simp add: fs_kv_ops_def fs_kv_list_keys_def list_page_def fs_entries(1) [OF inv])
  assume v: "valid_key k"
  then have "k \<noteq> []" by (simp add: valid_key_def)
  then show "kv_get_bytes (fs_kv_ops dbg random) k d =
      Inr (map_option (\<lambda>(b, t). \<lparr>kv_key = k, kv_value = b, kv_content_type = t\<rparr>) (fs_kv_view d k))"
    by (simp add: fs_kv_ops_def fs_kv_get_bytes_def validate_valid [OF v] fs_kv_view_def split: list.split)
  obtain r d' where s: "fs_kv_set_bytes dbg (\<lambda>_. None) None False random k b t d = (r, d')" by (rule prod.exhaust)
  then have "r = Inr ()" using set_bytes_stages [OF v _ s refl] inv by (simp add: fs_kv_inv_def)
  then show "\<exists>s'. kv_set_bytes (fs_kv_ops dbg random) k b t d = (Inr (), s') \<and> fs_kv_inv s'
      \<and> fs_kv_view s' = (fs_kv_view d)(k \<mapsto> (b, normal_type t))"
    using s set_bytes_view [OF inv v] by (auto simp: fs_kv_ops_def)
  obtain r' d'' where e: "fs_kv_delete dbg (\<lambda>_. None) k d = (r', d'')" by (rule prod.exhaust)
  then have "r' = Inr ()" using remove_files_prefix
    by (fastforce simp: fs_kv_delete_def validate_valid [OF v])
  then show "\<exists>s'. kv_delete (fs_kv_ops dbg random) k d = (Inr (), s') \<and> fs_kv_inv s' \<and> fs_kv_view s' = (fs_kv_view d)(k := None)"
    using e delete_view [OF inv v] by (auto simp: fs_kv_ops_def)
qed (rule json_type_kept)

section \<open>Properties\<close>

lemma get_unaffected:
  assumes "fs_kv_inv d" and "valid_key k" and "\<And>n e. stored_key n = Some (k, e) \<Longrightarrow> map_of d' n = map_of d n"
    and "distinct (map fst d')"
  shows "fs_kv_get_bytes dbg (\<lambda>_. None) k d' = fs_kv_get_bytes dbg (\<lambda>_. None) k d"
proof (cases "\<exists>n e. map_of d n \<noteq> None \<and> stored_key n = Some (k, e)")
  case False
  then have "matching_files k d = []" by (intro matching_none) metis
  moreover have "matching_files k d' = []" using False assms(3) by (intro matching_none) metis
  ultimately show ?thesis by (simp add: fs_kv_get_bytes_def validate_valid [OF assms(2)])
next
  case True
  then obtain n e b where n: "map_of d n = Some b" "stored_key n = Some (k, e)" by auto
  have u: "n' = n" if "map_of d n' \<noteq> None" "stored_key n' = Some (k, e')" for n' e'
    using assms(1) n that unfolding fs_kv_inv_def by (metis option.distinct(1))
  have "matching_files k d = [(e, n)]" by (rule inv_matching [OF assms(1) n])
  moreover have "matching_files k d' = [(e, n)]"
    using assms(3) n u by (intro matching_one [OF assms(4), of n b]) simp_all
  ultimately show ?thesis using assms(3) [OF n(2)] by (simp add: fs_kv_get_bytes_def validate_valid [OF assms(2)])
qed



definition sample_dir :: directory where
  "sample_dir = [(''k.json'', [1]), (''other.txt'', [2])]"

lemma sample_names: "stored_key ''k.json'' = Some (''k'', ''json'')" "stored_key ''other.txt'' = Some (''other'', ''txt'')"
  using destination_stored [of "''json''" "''k''"] destination_stored [of "''txt''" "''other''"]
  by (simp_all add: known_extensions_def)

lemma sample_dir_inv: "fs_kv_inv sample_dir"
  by (auto simp: fs_kv_inv_def sample_dir_def sample_names split: if_splits)


section \<open>The two stores\<close>

datatype kv_call = CallSet string "u8 list" string | CallDelete string

fun kv_run :: "'s kv_ops \<Rightarrow> kv_call list \<Rightarrow> 's \<Rightarrow> 's" where
  "kv_run K [] s = s"
| "kv_run K (CallSet k b t # cs) s = kv_run K cs (snd (kv_set_bytes K k b t s))"
| "kv_run K (CallDelete k # cs) s = kv_run K cs (snd (kv_delete K k s))"

fun call_key :: "kv_call \<Rightarrow> string" where
  "call_key (CallSet k _ _) = k"
| "call_key (CallDelete k) = k"

fun spec_call :: "(string \<Rightarrow> string) \<Rightarrow> kv_call \<Rightarrow> kv_view \<Rightarrow> kv_view" where
  "spec_call kept (CallSet k b t) v = v(k \<mapsto> (b, kept t))"
| "spec_call kept (CallDelete k) v = v(k := None)"

context key_value_store
begin

lemma run_spec:
  "inv s \<Longrightarrow> \<forall>c \<in> set cs. valid (call_key c) \<Longrightarrow> inv (kv_run K cs s) \<and> view (kv_run K cs s) = fold (spec_call kept) cs (view s)"
proof (induction cs arbitrary: s)
  case (Cons c cs)
  show ?case
  proof (cases c)
    case (CallSet k b t)
    then obtain s' where s': "kv_set_bytes K k b t s = (Inr (), s')" "inv s'" "view s' = (view s)(k \<mapsto> (b, kept t))"
      using set_law [of s k b t] Cons.prems by auto
    show ?thesis unfolding CallSet kv_run.simps fold_simps spec_call.simps s'(1) snd_conv s'(3) [symmetric]
      using Cons.IH [OF s'(2)] Cons.prems(2) by simp
  next
    case (CallDelete k)
    then obtain s' where s': "kv_delete K k s = (Inr (), s')" "inv s'" "view s' = (view s)(k := None)"
      using delete_law [of s k] Cons.prems by auto
    show ?thesis unfolding CallDelete kv_run.simps fold_simps spec_call.simps s'(1) snd_conv s'(3) [symmetric]
      using Cons.IH [OF s'(2)] Cons.prems(2) by simp
  qed
qed simp

end

lemma spec_call_normal:
  "fold (spec_call normal_type) cs (map_option (map_prod id normal_type) \<circ> v)
   = map_option (map_prod id normal_type) \<circ> fold (spec_call (\<lambda>t. t)) cs v"
proof (induction cs arbitrary: v)
  case (Cons c cs)
  have "spec_call normal_type c (map_option (map_prod id normal_type) \<circ> v)
      = map_option (map_prod id normal_type) \<circ> spec_call (\<lambda>t. t) c v"
    by (cases c) (auto simp: fun_eq_iff)
  then show ?case using Cons.IH [of "spec_call (\<lambda>t. t) c v"] by (simp only: fold_simps)
qed simp

lemma list_page_mono:
  assumes "v' = map_option (map_prod id f) \<circ> v"
  shows "list_page opts v' = list_page opts v"
proof -
  have d: "dom v' = dom v" by (auto simp: assms)
  have "k \<in> dom v \<Longrightarrow> fst (the (v' k)) = fst (the (v k))" for k by (auto simp: assms)
  then have "view_entries v' = view_entries v"
    unfolding view_entries_def d by (cases "finite (dom v)") (simp_all cong: map_cong)
  then show ?thesis by (simp add: list_page_def)
qed

text \<open>
  C16. The two key-value stores implement one map: after any sequence of writes and deletions with keys that the
  file system accepts, both give the same bytes for every such key and the same pages of keys for every limit
  and cursor. The content types agree up to the few that have a file extension.
\<close>

theorem kv_stores_agree:
  assumes "\<forall>c \<in> set cs. valid_key (call_key c)"
    and m_def: "m = kv_run memory_kv_ops cs []" and d_def: "d = kv_run (fs_kv_ops dbg random) cs []"
  shows "(valid_key k \<longrightarrow> kv_get_bytes (fs_kv_ops dbg random) k d
       = map_sum id (map_option (\<lambda>e. e\<lparr>kv_content_type := normal_type (kv_content_type e)\<rparr>)) (kv_get_bytes memory_kv_ops k m))
    \<and> kv_list_keys (fs_kv_ops dbg random) opts d = kv_list_keys memory_kv_ops opts m"
proof -
  have z: "mem_kv_inv []" "fs_kv_inv []" "mem_kv_view [] = Map.empty" "fs_kv_view [] = Map.empty"
    by (auto simp: mem_kv_inv_def fs_kv_inv_def mem_kv_view_def fs_kv_view_def matching_files_def List.map_filter_def fun_eq_iff)
  have m: "mem_kv_inv m" "mem_kv_view m = fold (spec_call (\<lambda>t. t)) cs Map.empty"
    using mkv.run_spec [OF z(1), of cs] by (simp_all add: m_def z(3))
  have d: "fs_kv_inv d" "fs_kv_view d = fold (spec_call normal_type) cs Map.empty"
    using fkv.run_spec [OF z(2) assms(1)] by (simp_all add: d_def z(4))
  have v: "fs_kv_view d = map_option (map_prod id normal_type) \<circ> mem_kv_view m"
    using spec_call_normal [of cs Map.empty] by (simp add: m d comp_def)
  have "valid_key k \<Longrightarrow> kv_get_bytes (fs_kv_ops dbg random) k d
       = map_sum id (map_option (\<lambda>e. e\<lparr>kv_content_type := normal_type (kv_content_type e)\<rparr>)) (kv_get_bytes memory_kv_ops k m)"
    unfolding fkv.get_law [OF d(1)] mkv.get_law [OF m(1) TrueI] v by (cases "mem_kv_view m k") auto
  then show ?thesis by (simp add: fkv.list_law [OF d(1)] mkv.list_law [OF m(1)] list_page_mono [OF v])
qed

theorem kv_stores_agree_witness:
  "\<forall>opts. kv_list_keys (fs_kv_ops id 3) opts (kv_run (fs_kv_ops id 3) [CallSet ''b'' [1] ''text/html'', CallDelete ''a''] [])
   = kv_list_keys memory_kv_ops opts (kv_run memory_kv_ops [CallSet ''b'' [1] ''text/html'', CallDelete ''a''] [])"
proof
  fix opts
  have "\<forall>c \<in> set [CallSet ''b'' [1] ''text/html'', CallDelete ''a'']. valid_key (call_key c)"
    by (simp add: valid_key_def sublist_code)
  from kv_stores_agree [OF this refl refl]
  show "kv_list_keys (fs_kv_ops id 3) opts (kv_run (fs_kv_ops id 3) [CallSet ''b'' [1] ''text/html'', CallDelete ''a''] [])
    = kv_list_keys memory_kv_ops opts (kv_run memory_kv_ops [CallSet ''b'' [1] ''text/html'', CallDelete ''a''] [])" by blast
qed

text \<open>
  C17. Listing page by page loses nothing: a client that follows the cursors of \<open>list_keys\<close> with any positive
  limit ends after at most one page more than there are keys and has seen every key once, in order, in the
  memory store as in the file store.
\<close>

theorem pagination_complete:
  assumes "limit \<noteq> Some 0"
  shows "(mem_kv_inv m \<and> card (dom (mem_kv_view m)) < fuel \<longrightarrow>
       walk_pages fuel memory_kv_ops limit None m = Some (sorted_list_of_set (dom (mem_kv_view m))))
    \<and> (fs_kv_inv d \<and> card (dom (fs_kv_view d)) < fuel \<longrightarrow>
       walk_pages fuel (fs_kv_ops dbg random) limit None d = Some (sorted_list_of_set (dom (fs_kv_view d))))"
  using mkv.walk_complete [OF _ assms, of m None fuel] fkv.walk_complete [OF _ assms, of d None fuel]
  by (auto simp: keys_after_def)

theorem pagination_complete_witness:
  "walk_pages 3 (fs_kv_ops id 3) (Some 1) None sample_dir = Some [''k'', ''other'']"
proof -
  have none: "fs_kv_view sample_dir k = None" if k: "k \<noteq> ''k''" "k \<noteq> ''other''" for k
    using k by (intro fs_view_None) (auto simp: sample_dir_def sample_names split: if_splits)
  have some: "fs_kv_view sample_dir ''k'' \<noteq> None" "fs_kv_view sample_dir ''other'' \<noteq> None"
    using fs_view_Some [OF sample_dir_inv _ _ sample_names(1), of "[1]"] fs_view_Some [OF sample_dir_inv _ _ sample_names(2), of "[2]"]
    by (simp_all add: sample_dir_def)
  have d: "dom (fs_kv_view sample_dir) = set [''k'', ''other'']"
  proof (rule set_eqI)
    fix k
    show "k \<in> dom (fs_kv_view sample_dir) \<longleftrightarrow> k \<in> set [''k'', ''other'']"
      using none [of k] some by (cases "k = ''k''"; cases "k = ''other''") (simp_all add: domIff)
  qed
  have s: "sorted_list_of_set (set [''k'', ''other'']) = [''k'', ''other'']"
    by (rule sorted_list_of_set.idem_if_sorted_distinct) simp_all
  have "card (set [''k'', ''other'']) < 3" by (rule le_less_trans [OF card_length]) simp
  then show ?thesis
    using pagination_complete [of "Some 1" "[]" 3 sample_dir id 3, THEN conjunct2, THEN mp] sample_dir_inv
    unfolding d s by (simp only: simp_thms option.simps zero_neq_one not_False_eq_True)
qed


text \<open>
  A content type without an extension of its own is not kept by the file store: it is read back as another one.
\<close>

theorem content_type_lost:
  "normal_type ''text/css'' = ''application/octet-stream'' \<and> normal_type ''text/xml'' = ''application/xml''"
  by (rule conjI) code_simp+

end
