(* ===== verification/Dataset.thy ===== *)
theory Dataset
  imports Fs_Kvs
begin

text \<open>
  Datasets (\<open>millipede-core/src/storage/dataset.rs\<close>): the in-memory dataset
  (\<open>millipede-storage-memory/src/dataset.rs\<close>) and the file-system one (\<open>millipede-storage-fs/src/dataset.rs\<close>), which
  keeps each item in a file named by a nine-digit sequence number. The functions of \<open>serde_json\<close> the code calls
  are the fields of \<open>json_externals\<close>.
\<close>

section \<open>The interface\<close>

record 'j json_externals =
  jx_as_object :: "'j \<Rightarrow> (string \<times> 'j) list option"
  jx_as_string :: "'j \<Rightarrow> string option"
  jx_display :: "'j \<Rightarrow> string"
  jx_pretty :: "'j \<Rightarrow> string + u8 list"
  jx_pretty_list :: "'j list \<Rightarrow> string + u8 list"
  jx_from_slice :: "u8 list \<Rightarrow> string + 'j"

record list_options =
  lo_offset :: u64
  lo_limit :: "u64 option"
  lo_desc :: bool

record 'j data_page =
  pg_items :: "'j list"
  pg_total :: nat
  pg_offset :: u64
  pg_limit :: "u64 option"

record dataset_info =
  di_name :: string
  di_item_count :: nat
  di_created_at :: wall_time
  di_modified_at :: wall_time

text \<open>What both datasets do with their items: the order, then skip and take.\<close>

definition slice_items :: "list_options \<Rightarrow> 'j list \<Rightarrow> 'j list" where
  "slice_items opts items =
     (let ordered = (if lo_desc opts then rev items else items);
          skipped = drop (unat (lo_offset opts)) ordered
      in case lo_limit opts of None \<Rightarrow> skipped | Some limit \<Rightarrow> take (unat limit) skipped)"

definition page_of :: "list_options \<Rightarrow> 'j list \<Rightarrow> 'j data_page" where
  "page_of opts items = \<lparr>pg_items = slice_items opts items, pg_total = length items, pg_offset = lo_offset opts,
     pg_limit = lo_limit opts\<rparr>"

text \<open>
  \<open>DatasetExt\<close>: \<open>to_value\<close> and \<open>from_value\<close> are the JSON conversions of the item's type. A batch is converted before
  anything is pushed.
\<close>

definition typed_batch :: "('t \<Rightarrow> string + 'j) \<Rightarrow> 't list \<Rightarrow> storage_error + 'j list" where
  "typed_batch to_value items =
     fold_result (\<lambda>t acc. case to_value t of Inl e \<Rightarrow> Inl (Serialization e) | Inr v \<Rightarrow> Inr (acc @ [v])) items []"

definition typed_page :: "('j \<Rightarrow> string + 't) \<Rightarrow> 'j data_page \<Rightarrow> storage_error + 't data_page" where
  "typed_page from_value page =
     (case fold_result (\<lambda>j acc. case from_value j of Inl e \<Rightarrow> Inl (Serialization e) | Inr v \<Rightarrow> Inr (acc @ [v])) (pg_items page) [] of
        Inl e \<Rightarrow> Inl e
      | Inr items \<Rightarrow> Inr \<lparr>pg_items = items, pg_total = pg_total page, pg_offset = pg_offset page, pg_limit = pg_limit page\<rparr>)"

section \<open>CSV\<close>

definition csv_field :: "string \<Rightarrow> string" where
  "csv_field v =
     (if list_ex (\<lambda>c. c \<in> {CHR '','', CHR 0x22, CHR 0x0D, CHR 0x0A}) v
      then [CHR 0x22] @ concat (map (\<lambda>c. if c = CHR 0x22 then [CHR 0x22, CHR 0x22] else [c]) v) @ [CHR 0x22]
      else v)"

definition csv_cell :: "'j json_externals \<Rightarrow> (string \<times> 'j) list \<Rightarrow> string \<Rightarrow> string" where
  "csv_cell J obj key =
     (case map_of obj key of
        None \<Rightarrow> []
      | Some v \<Rightarrow> (case jx_as_string J v of Some s \<Rightarrow> s | None \<Rightarrow> jx_display J v))"

text \<open>The columns, a sorted set, and the rows; an item that is no object is an error.\<close>

definition csv_objects :: "'j json_externals \<Rightarrow> 'j list \<Rightarrow> storage_error + (string \<times> 'j) list list" where
  "csv_objects J items =
     fold_result (\<lambda>j acc. case jx_as_object J j of
         None \<Rightarrow> Inl (Unsupported ''export_csv requires object items'')
       | Some obj \<Rightarrow> Inr (acc @ [obj])) items []"

definition csv_columns :: "(string \<times> 'j) list list \<Rightarrow> string list" where
  "csv_columns objs = sort (remdups (concat (map (map fst) objs)))"

definition csv_table :: "'j json_externals \<Rightarrow> (string \<times> 'j) list list \<Rightarrow> string list list" where
  "csv_table J objs = (let columns = csv_columns objs in columns # map (\<lambda>obj. map (csv_cell J obj) columns) objs)"

definition csv_text :: "string list list \<Rightarrow> string" where
  "csv_text table = join [CHR 0x0D, CHR 0x0A] (map (\<lambda>row. join '','' (map csv_field row)) table)"

definition export_csv :: "'j json_externals \<Rightarrow> 'j list \<Rightarrow> storage_error + string" where
  "export_csv J items =
     (case csv_objects J items of Inl e \<Rightarrow> Inl e | Inr objs \<Rightarrow> Inr (csv_text (csv_table J objs)))"

definition export_json :: "'j json_externals \<Rightarrow> 'j list \<Rightarrow> storage_error + u8 list" where
  "export_json J items = (case jx_pretty_list J items of Inl e \<Rightarrow> Inl (Serialization e) | Inr bytes \<Rightarrow> Inr bytes)"

section \<open>The in-memory dataset\<close>

record 'j dataset_state =
  ds_items :: "'j list"
  ds_created_at :: wall_time
  ds_modified_at :: wall_time

definition mem_ds_new :: "wall_time \<Rightarrow> 'j dataset_state" where
  "mem_ds_new now = \<lparr>ds_items = [], ds_created_at = now, ds_modified_at = now\<rparr>"

definition mem_ds_push_json :: "wall_time \<Rightarrow> 'j \<Rightarrow> 'j dataset_state \<Rightarrow> (storage_error + unit) \<times> 'j dataset_state" where
  "mem_ds_push_json now item s = (Inr (), s\<lparr>ds_items := ds_items s @ [item], ds_modified_at := now\<rparr>)"

definition mem_ds_push_json_batch :: "wall_time \<Rightarrow> 'j list \<Rightarrow> 'j dataset_state \<Rightarrow> (storage_error + unit) \<times> 'j dataset_state" where
  "mem_ds_push_json_batch now items s = (Inr (), s\<lparr>ds_items := ds_items s @ items, ds_modified_at := now\<rparr>)"

definition mem_ds_list_raw :: "list_options \<Rightarrow> 'j dataset_state \<Rightarrow> storage_error + 'j data_page" where
  "mem_ds_list_raw opts s = Inr (page_of opts (ds_items s))"

definition mem_ds_stream_raw :: "list_options \<Rightarrow> 'j dataset_state \<Rightarrow> (storage_error + 'j) list" where
  "mem_ds_stream_raw opts s = map Inr (slice_items opts (ds_items s))"

definition mem_ds_clear :: "wall_time \<Rightarrow> 'j dataset_state \<Rightarrow> 'j dataset_state" where
  "mem_ds_clear now s = s\<lparr>ds_items := [], ds_modified_at := now\<rparr>"

definition mem_ds_info :: "string \<Rightarrow> 'j dataset_state \<Rightarrow> dataset_info" where
  "mem_ds_info name s = \<lparr>di_name = name, di_item_count = length (ds_items s), di_created_at = ds_created_at s,
     di_modified_at = ds_modified_at s\<rparr>"

section \<open>The file-system dataset\<close>

definition max_sequence_number :: nat where
  "max_sequence_number = 999999999"

definition pad9 :: "nat \<Rightarrow> string" where
  "pad9 n = replicate (9 - length (nat_text n)) CHR ''0'' @ nat_text n"

definition item_name :: "nat \<Rightarrow> string" where
  "item_name n = pad9 n @ ''.'' @ ''json''"

definition dataset_sequence :: "string \<Rightarrow> nat option" where
  "dataset_sequence name =
     (if length name \<noteq> 14 \<or> \<not> suffix ''.json'' name then None
      else if \<not> list_all is_digit (take 9 name) then None
      else if decimal (take 9 name) = 0 then None
      else Some (decimal (take 9 name)))"

definition item_sequence :: "string \<Rightarrow> nat option" where
  "item_sequence name = (if is_temporary_file name then None else dataset_sequence name)"

definition item_files :: "directory \<Rightarrow> (nat \<times> string) list" where
  "item_files d = sort_key fst (List.map_filter (\<lambda>(name, _). map_option (\<lambda>n. (n, name)) (item_sequence name)) d)"

definition max_sequence :: "directory \<Rightarrow> nat" where
  "max_sequence d = (if item_files d = [] then 0 else fst (List.last (item_files d)))"

record fs_dataset =
  fd_name :: string
  fd_next_sequence :: nat

definition fs_ds_open :: "string \<Rightarrow> directory \<Rightarrow> fs_dataset" where
  "fs_ds_open name d = \<lparr>fd_name = name, fd_next_sequence = max (max_sequence d + 1) 1\<rparr>"

definition reset_sequence :: "fs_dataset \<Rightarrow> fs_dataset" where
  "reset_sequence h = h\<lparr>fd_next_sequence := 1\<rparr>"

text \<open>A file that does not decode is skipped.\<close>

definition read_items :: "'j json_externals \<Rightarrow> directory \<Rightarrow> 'j list" where
  "read_items J d = List.map_filter (\<lambda>(_, name). case jx_from_slice J (the (map_of d name)) of
     Inr item \<Rightarrow> Some item | Inl _ \<Rightarrow> None) (item_files d)"

definition append_locked ::
  "'j json_externals \<Rightarrow> io \<Rightarrow> u8 list option \<Rightarrow> bool \<Rightarrow> u64 \<Rightarrow> 'j \<Rightarrow> fs_dataset \<Rightarrow> directory
     \<Rightarrow> (storage_error + unit) \<times> fs_dataset \<times> directory" where
  "append_locked J io torn left random item h d =
     (if fd_next_sequence h > max_sequence_number
      then (Inl (Backend (anyhow_msg (''dataset '' @ fd_name h @ '' exhausted its nine-digit sequence space''))), h, d)
      else case io 0 of Some e \<Rightarrow> (Inl e, h, d)
      | None \<Rightarrow>
     (let destination = item_name (fd_next_sequence h);
          temporary = pad9 (fd_next_sequence h) @ ''.'' @ ''json'' @ ''.'' @ temporary_suffix random
      in case jx_pretty J item of Inl e \<Rightarrow> (Inl (Serialization e), h, d)
      | Inr bytes \<Rightarrow>
     (case io 1 of Some e \<Rightarrow> (Inl e, h, case torn of None \<Rightarrow> d | Some t \<Rightarrow> AList.update temporary t d)
      | None \<Rightarrow>
     (let d1 = AList.update temporary bytes d in
      case io 2 of Some e \<Rightarrow> (Inl e, h, if left then d1 else AList.delete temporary d1)
      | None \<Rightarrow> (Inr (), h\<lparr>fd_next_sequence := fd_next_sequence h + 1\<rparr>, fs_rename temporary destination d1)))))"

text \<open>
  A push with the outcomes of its system calls: what fails, what a failed write leaves, whether the removal of the
  temporary file fails too, and the random part of its name.
\<close>

record push_outcome =
  po_io :: io
  po_torn :: "u8 list option"
  po_left :: bool
  po_random :: u64

definition fs_ds_push_json ::
  "'j json_externals \<Rightarrow> push_outcome \<Rightarrow> 'j \<Rightarrow> fs_dataset \<Rightarrow> directory \<Rightarrow> (storage_error + unit) \<times> fs_dataset \<times> directory" where
  "fs_ds_push_json J po item h d = append_locked J (po_io po) (po_torn po) (po_left po) (po_random po) item h d"

fun fs_ds_push_json_batch ::
  "'j json_externals \<Rightarrow> push_outcome list \<Rightarrow> 'j list \<Rightarrow> fs_dataset \<Rightarrow> directory
     \<Rightarrow> (storage_error + unit) \<times> fs_dataset \<times> directory" where
  "fs_ds_push_json_batch J pos [] h d = (Inr (), h, d)"
| "fs_ds_push_json_batch J pos (item # items) h d =
     (case fs_ds_push_json J (hd pos) item h d of
        (Inl e, h', d') \<Rightarrow> (Inl e, h', d')
      | (Inr _, h', d') \<Rightarrow> fs_ds_push_json_batch J (tl pos) items h' d')"

definition fs_ds_list_raw :: "'j json_externals \<Rightarrow> storage_error option \<Rightarrow> list_options \<Rightarrow> directory \<Rightarrow> storage_error + 'j data_page" where
  "fs_ds_list_raw J failure opts d =
     (case failure of Some e \<Rightarrow> Inl e | None \<Rightarrow> Inr (page_of opts (read_items J d)))"

definition fs_ds_stream_raw :: "'j json_externals \<Rightarrow> storage_error option \<Rightarrow> list_options \<Rightarrow> directory \<Rightarrow> (storage_error + 'j) list" where
  "fs_ds_stream_raw J failure opts d =
     (case fs_ds_list_raw J failure opts d of Inr page \<Rightarrow> map Inr (pg_items page) | Inl e \<Rightarrow> [Inl e])"

text \<open>The time stamps of the directory and of the item files are arguments.\<close>

definition fs_ds_info ::
  "wall_time option \<Rightarrow> wall_time \<Rightarrow> (string \<Rightarrow> wall_time) \<Rightarrow> fs_dataset \<Rightarrow> directory \<Rightarrow> dataset_info" where
  "fs_ds_info created directory_modified modified h d =
     \<lparr>di_name = fd_name h, di_item_count = length (item_files d),
      di_created_at = (case created of Some t \<Rightarrow> t | None \<Rightarrow> directory_modified),
      di_modified_at = fold (\<lambda>(_, name) t. max t (modified name)) (item_files d) directory_modified\<rparr>"

section \<open>Names of item files\<close>

lemma digit_eq:
  assumes "is_digit c" and "is_digit c'" and "of_char c - 48 = (of_char c' - 48 :: nat)"
  shows "c = c'"
proof -
  have "(of_char c :: nat) = of_char c'" using assms unfolding is_digit_def Let_def by linarith
  then show ?thesis by (simp only: of_char_eq_iff)
qed

lemma digit_bound: "is_digit c \<Longrightarrow> of_char c - 48 < (10 :: nat)"
  by (auto simp: is_digit_def Let_def)

lemma decimal_bound: "list_all is_digit s \<Longrightarrow> decimal s < 10 ^ length s"
proof (induction s rule: rev_induct)
  case (snoc c s)
  then show ?case using digit_bound [of c] by (simp add: decimal_snoc)
qed (simp add: decimal_def)

lemma decimal_inj:
  "length s = length t \<Longrightarrow> list_all is_digit s \<Longrightarrow> list_all is_digit t \<Longrightarrow> decimal s = decimal t \<Longrightarrow> s = t"
proof (induction s arbitrary: t rule: rev_induct)
  case (snoc c s)
  from snoc.prems(1) obtain t' c' where t: "t = t' @ [c']" by (cases t rule: rev_cases) auto
  have c: "is_digit c" "is_digit c'" using snoc.prems t by simp_all
  have eq: "10 * decimal s + (of_char c - 48) = 10 * decimal t' + (of_char c' - 48)"
    using snoc.prems(4) by (simp only: t decimal_snoc)
  have "decimal s = decimal t'" "of_char c - 48 = (of_char c' - 48 :: nat)"
    using eq digit_bound [OF c(1)] digit_bound [OF c(2)] by presburger+
  then show ?case using snoc.IH [of t'] snoc.prems t digit_eq [OF c] by simp
qed simp

lemma decimal_zeros: "decimal (replicate k CHR ''0'' @ s) = decimal s"
  by (induction k) (simp_all add: decimal_def)

lemma nat_text_length: "n < 10 ^ Suc k \<Longrightarrow> length (nat_text n) \<le> Suc k"
proof (induction k arbitrary: n)
  case (Suc k)
  show ?case
  proof (cases "n < 10")
    case False
    have "n div 10 < 10 ^ Suc k" using Suc.prems by (simp add: less_mult_imp_div_less)
    then show ?thesis using Suc.IH [of "n div 10"] False by (simp add: nat_text.simps [of n])
  qed (simp add: nat_text.simps [of n])
qed (simp add: nat_text.simps)

lemma pad9_digits:
  assumes "n \<le> max_sequence_number"
  shows "length (pad9 n) = 9" "list_all is_digit (pad9 n)" "decimal (pad9 n) = n"
proof -
  have "length (nat_text n) \<le> Suc 8" using assms by (intro nat_text_length) (simp add: max_sequence_number_def)
  then show "length (pad9 n) = 9" by (simp add: pad9_def)
  show "list_all is_digit (pad9 n)" using nat_text_digits [of n]
    by (simp add: pad9_def list_all_length is_digit_def Let_def nth_append)
  show "decimal (pad9 n) = n" by (simp add: pad9_def decimal_zeros decimal_nat_text)
qed

lemma dataset_sequence_name:
  assumes "0 < n" and "n \<le> max_sequence_number"
  shows "dataset_sequence (item_name n) = Some n"
  using pad9_digits [OF assms(2)] assms(1) by (simp add: dataset_sequence_def item_name_def suffix_def)

lemma item_not_temporary: "\<not> is_temporary_file (item_name n)"
proof -
  have "stored_key (item_name n) = Some (pad9 n, ''json'')"
    unfolding item_name_def by (rule destination_stored) (simp add: known_extensions_def)
  then show ?thesis using temporary_not_stored [of "item_name n"] by auto
qed

lemma dataset_sequence_inv:
  assumes "dataset_sequence name = Some n"
  shows "name = item_name n \<and> 0 < n \<and> n \<le> max_sequence_number"
proof -
  define s where "s = take 9 name"
  have s: "list_all is_digit s" "decimal s = n" "0 < n" "length name = 14" and "suffix ''.json'' name"
    using assms by (auto simp: dataset_sequence_def s_def split: if_splits)
  then obtain p where p: "name = p @ ''.json''" by (auto simp: suffix_def)
  then have sp: "s = p" "length s = 9" using s(4) by (simp_all add: s_def)
  have n: "n \<le> max_sequence_number" using decimal_bound [OF s(1)] s(2) sp(2) by (simp add: max_sequence_number_def)
  have "s = pad9 n" using s sp pad9_digits [OF n] by (intro decimal_inj) simp_all
  then show ?thesis using p sp n s(3) by (simp add: item_name_def)
qed

lemma item_sequence_iff: "item_sequence name = Some n \<longleftrightarrow> name = item_name n \<and> 0 < n \<and> n \<le> max_sequence_number"
proof
  assume "item_sequence name = Some n"
  then have "dataset_sequence name = Some n" by (simp add: item_sequence_def split: if_splits)
  then show "name = item_name n \<and> 0 < n \<and> n \<le> max_sequence_number" by (rule dataset_sequence_inv)
next
  assume "name = item_name n \<and> 0 < n \<and> n \<le> max_sequence_number"
  then show "item_sequence name = Some n" by (simp add: item_sequence_def item_not_temporary dataset_sequence_name)
qed

lemma temporary_no_item: "item_sequence (pad9 n @ ''.'' @ ''json'' @ ''.'' @ temporary_suffix random) = None"
proof -
  have "pad9 n \<noteq> []" using nat_text_digits [of n] by (simp add: pad9_def)
  then have "is_temporary_file (pad9 n @ ''.'' @ ''json'' @ ''.'' @ temporary_suffix random)"
    by (rule temporary_recognised) (simp add: known_extensions_def)
  then show ?thesis by (simp only: item_sequence_def if_True)
qed

section \<open>The items of a directory\<close>

definition ds_inv :: "fs_dataset \<Rightarrow> directory \<Rightarrow> bool" where
  "ds_inv h d = (distinct (map fst d) \<and> 0 < fd_next_sequence h
     \<and> (\<forall>name n. map_of d name \<noteq> None \<longrightarrow> item_sequence name = Some n \<longrightarrow> n < fd_next_sequence h))"

definition item_at :: "directory \<Rightarrow> nat \<Rightarrow> u8 list option" where
  "item_at d n = (if n \<le> max_sequence_number then map_of d (item_name n) else None)"

lemma item_files_set:
  "set (item_files d) = {(n, item_name n) |n. 0 < n \<and> item_at d n \<noteq> None}"
proof -
  have "set (item_files d) = {(n, name). map_of d name \<noteq> None \<and> item_sequence name = Some n}"
    by (force simp: item_files_def List.map_filter_def map_of_eq_None_iff)
  then show ?thesis by (auto simp: item_sequence_iff item_at_def split: if_splits)
qed

lemma distinct_map_filter_inj:
  assumes "\<And>x y n. f x = Some n \<Longrightarrow> f y = Some n \<Longrightarrow> x = y"
  shows "distinct xs \<Longrightarrow> distinct (List.map_filter f xs)"
proof (induction xs)
  case (Cons x xs)
  have "n \<notin> set (List.map_filter f xs)" if n: "f x = Some n" for n
    using Cons.prems assms [OF n] by (fastforce simp: List.map_filter_def)
  then show ?case using Cons by (simp split: option.splits)
qed simp

lemma item_files_distinct:
  assumes "distinct (map fst d)"
  shows "distinct (map fst (item_files d))"
proof -
  have "map fst (List.map_filter (\<lambda>(name, v :: u8 list). map_option (\<lambda>n. (n, name)) (item_sequence name)) d)
      = List.map_filter item_sequence (map fst d)"
    by (induction d) (auto simp: List.map_filter_simps split: option.splits)
  moreover have "distinct (List.map_filter item_sequence (map fst d))"
    using assms by (rule distinct_map_filter_inj [rotated]) (simp add: item_sequence_iff)
  ultimately have "distinct (map fst (List.map_filter (\<lambda>(name, v :: u8 list). map_option (\<lambda>n. (n, name)) (item_sequence name)) d))"
    by simp
  then show ?thesis unfolding item_files_def
    by (metis (no_types, lifting) distinct_map distinct_sort set_sort)
qed

text \<open>The item files below a bound on the sequence numbers, in order.\<close>

lemma item_files_upto:
  assumes "distinct (map fst d)" and "\<And>n. 0 < n \<Longrightarrow> item_at d n \<noteq> None \<Longrightarrow> n < N"
  shows "item_files d = map (\<lambda>n. (n, item_name n)) (filter (\<lambda>n. item_at d n \<noteq> None) [1..<N])"
proof -
  have "map fst (item_files d) = filter (\<lambda>n. item_at d n \<noteq> None) [1..<N]"
  proof (rule sorted_distinct_set_unique)
    show "sorted (map fst (item_files d))" by (simp add: item_files_def)
    show "distinct (map fst (item_files d))" by (rule item_files_distinct [OF assms(1)])
    show "sorted (filter (\<lambda>n. item_at d n \<noteq> None) [1..<N])" using sorted_filter [of "\<lambda>n. n" "[1..<N]"] by simp
    have "set (map fst (item_files d)) = {n. 0 < n \<and> item_at d n \<noteq> None}" by (auto simp: item_files_set image_iff)
    then show "set (map fst (item_files d)) = set (filter (\<lambda>n. item_at d n \<noteq> None) [1..<N])"
      using assms(2) by auto
  qed simp
  moreover have "item_files d = map (\<lambda>p. (fst p, item_name (fst p))) (item_files d)"
    by (intro map_idI [symmetric]) (auto simp: item_files_set)
  ultimately show ?thesis by (metis (no_types, lifting) map_map comp_def map_cong)
qed

definition decoded :: "'j json_externals \<Rightarrow> u8 list option \<Rightarrow> 'j option" where
  "decoded J b = (case b of None \<Rightarrow> None | Some bytes \<Rightarrow> (case jx_from_slice J bytes of Inr item \<Rightarrow> Some item | Inl _ \<Rightarrow> None))"

lemma read_items_upto:
  assumes "distinct (map fst d)" and "\<And>n. 0 < n \<Longrightarrow> item_at d n \<noteq> None \<Longrightarrow> n < N"
  shows "read_items J d = List.map_filter (\<lambda>n. decoded J (item_at d n)) [1..<N]"
proof -
  have "List.map_filter (\<lambda>(_, name). case jx_from_slice J (the (map_of d name)) of Inr item \<Rightarrow> Some item | Inl _ \<Rightarrow> None)
          (map (\<lambda>n. (n, item_name n)) (filter (\<lambda>n. item_at d n \<noteq> None) ns))
      = List.map_filter (\<lambda>n. decoded J (item_at d n)) ns" for ns
    by (induction ns) (auto simp: decoded_def item_at_def split: option.splits sum.splits if_splits)
  then show ?thesis unfolding read_items_def by (subst item_files_upto [OF assms]) simp_all
qed

lemma ds_inv_alt:
  "ds_inv h d \<longleftrightarrow> distinct (map fst d) \<and> 0 < fd_next_sequence h
     \<and> (\<forall>n. 0 < n \<longrightarrow> item_at d n \<noteq> None \<longrightarrow> n < fd_next_sequence h)"
  unfolding ds_inv_def item_at_def item_sequence_iff by (auto split: if_splits)

lemma max_sequence_bound: "0 < n \<Longrightarrow> item_at d n \<noteq> None \<Longrightarrow> n \<le> max_sequence d"
proof -
  assume n: "0 < n" "item_at d n \<noteq> None"
  then have "(n, item_name n) \<in> set (item_files d)" by (auto simp: item_files_set)
  then obtain i where i: "i < length (item_files d)" "map fst (item_files d) ! i = n" by (metis fst_conv in_set_conv_nth nth_map)
  have "sorted (map fst (item_files d))" by (simp add: item_files_def)
  then have "map fst (item_files d) ! i \<le> map fst (item_files d) ! (length (item_files d) - 1)"
    using i(1) by (intro sorted_nth_mono) simp_all
  then show ?thesis using i by (cases "item_files d = []") (simp_all add: max_sequence_def last_conv_nth)
qed

lemma open_inv: "distinct (map fst d) \<Longrightarrow> ds_inv (fs_ds_open name d) d"
  by (simp add: ds_inv_alt fs_ds_open_def max_sequence_bound le_imp_less_Suc)

lemma map_filter_snoc: "List.map_filter f (xs @ [x]) = List.map_filter f xs @ (case f x of None \<Rightarrow> [] | Some y \<Rightarrow> [y])"
  by (induction xs) (auto split: option.splits)

lemma map_filter_cong: "(\<And>x. x \<in> set xs \<Longrightarrow> f x = g x) \<Longrightarrow> List.map_filter f xs = List.map_filter g xs"
  by (induction xs) (auto split: option.splits)

lemma items_kept:
  assumes "distinct (map fst d)" "distinct (map fst d')" "\<And>n. 0 < n \<Longrightarrow> item_at d' n = item_at d n"
  shows "read_items J d' = read_items J d"
proof -
  let ?N = "Suc (max_sequence d)"
  have "read_items J d = List.map_filter (\<lambda>n. decoded J (item_at d n)) [1..<?N]"
    by (rule read_items_upto [OF assms(1)]) (simp add: max_sequence_bound le_imp_less_Suc)
  also have "\<dots> = List.map_filter (\<lambda>n. decoded J (item_at d' n)) [1..<?N]" using assms(3) by (intro map_filter_cong) (simp del: upt_Suc)
  also have "\<dots> = read_items J d'"
    by (rule read_items_upto [OF assms(2), symmetric]) (simp add: assms(3) max_sequence_bound le_imp_less_Suc)
  finally show ?thesis ..
qed

lemma items_appended:
  assumes "distinct (map fst d)" "distinct (map fst d')" "\<And>n. 0 < n \<Longrightarrow> item_at d n \<noteq> None \<Longrightarrow> n < N" "0 < N"
    and "\<And>n. 0 < n \<Longrightarrow> item_at d' n = (if n = N then Some bytes else item_at d n)" "jx_from_slice J bytes = Inr item"
  shows "read_items J d' = read_items J d @ [item]"
proof -
  have "read_items J d' = List.map_filter (\<lambda>n. decoded J (item_at d' n)) [1..<Suc N]"
    by (rule read_items_upto [OF assms(2)]) (use assms(3,5) less_Suc_eq in \<open>auto split: if_splits\<close>)
  also have "\<dots> = List.map_filter (\<lambda>n. decoded J (item_at d' n)) [1..<N] @ [item]"
    using assms(4-6) by (simp add: map_filter_snoc decoded_def)
  also have "List.map_filter (\<lambda>n. decoded J (item_at d' n)) [1..<N] = List.map_filter (\<lambda>n. decoded J (item_at d n)) [1..<N]"
    using assms(5) by (intro map_filter_cong) simp
  also have "\<dots> = read_items J d" by (rule read_items_upto [OF assms(1,3), symmetric])
  finally show ?thesis .
qed

section \<open>Appending\<close>

lemma append_locked_cases:
  assumes "ds_inv h d" and "append_locked J io torn left random item h d = (r, h', d')"
  obtains "r \<noteq> Inr ()" "h' = h" "distinct (map fst d')" "\<And>n. 0 < n \<Longrightarrow> item_at d' n = item_at d n"
  | bytes where "r = Inr ()" "jx_pretty J item = Inr bytes" "distinct (map fst d')"
      "h' = h\<lparr>fd_next_sequence := fd_next_sequence h + 1\<rparr>" "fd_next_sequence h \<le> max_sequence_number"
      "\<And>n. 0 < n \<Longrightarrow> item_at d' n = (if n = fd_next_sequence h then Some bytes else item_at d n)"
proof -
  define N where "N = fd_next_sequence h"
  define tmp where "tmp = pad9 N @ ''.'' @ ''json'' @ ''.'' @ temporary_suffix random"
  have dist: "distinct (map fst d)" and N: "0 < N" using assms(1) by (simp_all add: ds_inv_def N_def)
  have "item_sequence tmp = None" unfolding tmp_def by (rule temporary_no_item)
  then have tmp: "n \<le> max_sequence_number \<Longrightarrow> 0 < n \<Longrightarrow> item_name n \<noteq> tmp" for n using item_sequence_iff [of tmp n] by auto
  have upd: "0 < n \<Longrightarrow> item_at (AList.update tmp b d) n = item_at d n" for n b
    using tmp by (auto simp: item_at_def update_conv')
  have del: "0 < n \<Longrightarrow> item_at (AList.delete tmp (AList.update tmp b d)) n = item_at d n" for n b
    using tmp by (auto simp: item_at_def update_conv' delete_conv')
  have ren: "item_at (fs_rename tmp (item_name N) (AList.update tmp b d)) n = (if n = N then Some b else item_at d n)"
    if n: "0 < n" and NM: "N \<le> max_sequence_number" for n b
  proof -
    have inj: "item_name n = item_name N \<longleftrightarrow> n = N" if le: "n \<le> max_sequence_number"
      using dataset_sequence_name [OF n le] dataset_sequence_name [OF N NM] by (metis option.inject)
    note m = map_of_rename [of tmp "item_name N" b d "item_name n", OF tmp [OF NM N, symmetric]]
    show ?thesis
    proof (cases "n \<le> max_sequence_number")
      case True
      then show ?thesis using tmp [OF True n] by (simp add: item_at_def m inj)
    next
      case False
      then show ?thesis using NM by (auto simp: item_at_def)
    qed
  qed
  have dists: "distinct (map fst (AList.update tmp b d))" "distinct (map fst (AList.delete tmp (AList.update tmp b d)))"
    "distinct (map fst (fs_rename tmp m (AList.update tmp b d)))" for b m
    using dist by (simp_all add: distinct_update distinct_delete distinct_rename)
  note run = assms(2) [unfolded append_locked_def, folded N_def tmp_def, unfolded Let_def, folded tmp_def]
  from run consider
      "r \<noteq> Inr ()" "h' = h" "d' = d"
    | b where "r \<noteq> Inr ()" "h' = h" "d' = AList.update tmp b d"
    | b where "r \<noteq> Inr ()" "h' = h" "d' = AList.delete tmp (AList.update tmp b d)"
    | b where "r = Inr ()" "h' = h\<lparr>fd_next_sequence := N + 1\<rparr>" "N \<le> max_sequence_number" "jx_pretty J item = Inr b"
        "d' = fs_rename tmp (item_name N) (AList.update tmp b d)"
    by (auto split: if_splits option.splits sum.splits)
  then show thesis
  proof cases
    case 4
    show thesis by (rule that(2) [OF 4(1,4)]) (simp_all add: 4 dists ren flip: N_def)
  qed (auto intro: that(1) simp: dist dists upd del)
qed

text \<open>What \<open>serde_json\<close> documents: a value that was written is read back.\<close>

definition json_reads_back :: "'j json_externals \<Rightarrow> bool" where
  "json_reads_back J = (\<forall>item bytes. jx_pretty J item = Inr bytes \<longrightarrow> jx_from_slice J bytes = Inr item)"

lemma append_atomic:
  assumes "json_reads_back J" and inv: "ds_inv h d" and run: "append_locked J io torn left random item h d = (r, h', d')"
  shows "ds_inv h' d' \<and> (if r = Inr () then fd_next_sequence h' = Suc (fd_next_sequence h) \<and> read_items J d' = read_items J d @ [item]
    else h' = h \<and> read_items J d' = read_items J d)"
  using append_locked_cases [OF inv run]
proof cases
  case 1
  then have "ds_inv h' d'" using inv by (simp add: ds_inv_alt)
  then show ?thesis using 1 inv items_kept [of d d' J] by (simp add: ds_inv_alt)
next
  case (2 bytes)
  have "ds_inv h' d'" unfolding ds_inv_alt using 2(3) inv 2(6) by (auto simp: 2(4) ds_inv_alt less_Suc_eq)
  moreover have "read_items J d' = read_items J d @ [item]"
    using inv 2 assms(1) by (intro items_appended [of d d' "fd_next_sequence h" bytes]) (auto simp: ds_inv_alt json_reads_back_def)
  ultimately show ?thesis using 2 by simp
qed

lemma batch_prefix:
  assumes "json_reads_back J"
  shows "ds_inv h d \<Longrightarrow> fs_ds_push_json_batch J pos items h d = (r, h', d') \<Longrightarrow>
    ds_inv h' d' \<and> (\<exists>k \<le> length items. read_items J d' = read_items J d @ take k items \<and> (r = Inr () \<longleftrightarrow> k = length items)
      \<and> fd_next_sequence h' = fd_next_sequence h + k)"
proof (induction items arbitrary: pos h d)
  case (Cons item items)
  obtain r1 h1 d1 where push: "fs_ds_push_json J (hd pos) item h d = (r1, h1, d1)" by (metis prod_cases3)
  note one = append_atomic [OF assms Cons.prems(1) push [unfolded fs_ds_push_json_def]]
  show ?case
  proof (cases r1)
    case (Inl e)
    then have "r = Inl e \<and> h' = h1 \<and> d' = d1" using Cons.prems(2) push by auto
    then show ?thesis using one Inl by (intro conjI exI [of _ 0]) auto
  next
    case (Inr u)
    then have "fs_ds_push_json_batch J (tl pos) items h1 d1 = (r, h', d')" using Cons.prems(2) push by simp
    then obtain k where "k \<le> length items" "ds_inv h' d'" "read_items J d' = read_items J d1 @ take k items"
        "r = Inr () \<longleftrightarrow> k = length items" "fd_next_sequence h' = fd_next_sequence h1 + k"
      using Cons.IH one by blast
    then show ?thesis using one Inr by (intro conjI exI [of _ "Suc k"]) simp_all
  qed
qed simp


section \<open>The contract of a dataset\<close>

locale dataset_log =
  fixes push :: "'j \<Rightarrow> 's \<Rightarrow> (storage_error + unit) \<times> 's"
    and batch :: "'j list \<Rightarrow> 's \<Rightarrow> (storage_error + unit) \<times> 's"
    and page :: "list_options \<Rightarrow> 's \<Rightarrow> storage_error + 'j data_page"
    and reopen :: "'s \<Rightarrow> 's"
    and inv :: "'s \<Rightarrow> bool"
    and items :: "'s \<Rightarrow> 'j list"
    and room :: "nat \<Rightarrow> 's \<Rightarrow> bool"
  assumes push_law: "inv s \<Longrightarrow> room (Suc k) s \<Longrightarrow>
      \<exists>s'. push x s = (Inr (), s') \<and> inv s' \<and> items s' = items s @ [x] \<and> room k s'"
    and batch_law: "inv s \<Longrightarrow> room (length xs + k) s \<Longrightarrow>
      \<exists>s'. batch xs s = (Inr (), s') \<and> inv s' \<and> items s' = items s @ xs \<and> room k s'"
    and page_law: "inv s \<Longrightarrow> page opts s = Inr (page_of opts (items s))"
    and reopen_law: "inv s \<Longrightarrow> inv (reopen s) \<and> items (reopen s) = items s \<and> (room k s \<longrightarrow> room k (reopen s))"

datatype 'j ds_call = Push 'j | Push_Batch "'j list" | Reopen

primrec call_items :: "'j ds_call \<Rightarrow> 'j list" where
  "call_items (Push x) = [x]"
| "call_items (Push_Batch xs) = xs"
| "call_items Reopen = []"

fun ds_run ::
  "('j \<Rightarrow> 's \<Rightarrow> (storage_error + unit) \<times> 's) \<Rightarrow> ('j list \<Rightarrow> 's \<Rightarrow> (storage_error + unit) \<times> 's) \<Rightarrow> ('s \<Rightarrow> 's)
     \<Rightarrow> 'j ds_call list \<Rightarrow> 's \<Rightarrow> (storage_error + unit) \<times> 's" where
  "ds_run psh bat reo [] s = (Inr (), s)"
| "ds_run psh bat reo (c # cs) s =
     (case (case c of Push x \<Rightarrow> psh x s | Push_Batch xs \<Rightarrow> bat xs s | Reopen \<Rightarrow> (Inr (), reo s)) of
        (Inl e, s') \<Rightarrow> (Inl e, s')
      | (Inr _, s') \<Rightarrow> ds_run psh bat reo cs s')"

context dataset_log
begin

lemma run_appends:
  "inv s \<Longrightarrow> room (length (concat (map call_items cs))) s \<Longrightarrow>
    \<exists>s'. ds_run push batch reopen cs s = (Inr (), s') \<and> inv s' \<and> items s' = items s @ concat (map call_items cs)"
proof (induction cs arbitrary: s)
  case (Cons c cs)
  let ?n = "length (concat (map call_items cs))"
  obtain s1 where "(case c of Push x \<Rightarrow> push x s | Push_Batch xs \<Rightarrow> batch xs s | Reopen \<Rightarrow> (Inr (), reopen s)) = (Inr (), s1)"
      "inv s1" "items s1 = items s @ call_items c" "room ?n s1"
  proof (cases c)
    case (Push x)
    then show thesis using push_law [OF Cons.prems(1), of ?n x] Cons.prems(2) that by auto
  next
    case (Push_Batch xs)
    then show thesis using batch_law [OF Cons.prems(1), of xs ?n] Cons.prems(2) that by auto
  next
    case Reopen
    then show thesis using reopen_law [OF Cons.prems(1), of ?n] Cons.prems(2) that by auto
  qed
  then show ?case using Cons.IH [of s1] by auto
qed simp

lemma run_pages:
  assumes "inv s" and "room (length (concat (map call_items cs))) s"
  shows "\<exists>s'. ds_run push batch reopen cs s = (Inr (), s') \<and>
    (\<forall>opts. page opts s' = Inr (page_of opts (items s @ concat (map call_items cs))))"
  using run_appends [OF assms] page_law by metis

end

text \<open>Both datasets keep the contract; the file dataset has room for 999999999 items.\<close>

definition ok_outcome :: "u64 \<Rightarrow> push_outcome" where
  "ok_outcome random = \<lparr>po_io = (\<lambda>_. None), po_torn = None, po_left = False, po_random = random\<rparr>"

definition fs_push :: "'j json_externals \<Rightarrow> u64 \<Rightarrow> 'j \<Rightarrow> fs_dataset \<times> directory \<Rightarrow> (storage_error + unit) \<times> fs_dataset \<times> directory" where
  "fs_push J random x s = fs_ds_push_json J (ok_outcome random) x (fst s) (snd s)"

definition fs_batch :: "'j json_externals \<Rightarrow> u64 \<Rightarrow> 'j list \<Rightarrow> fs_dataset \<times> directory \<Rightarrow> (storage_error + unit) \<times> fs_dataset \<times> directory" where
  "fs_batch J random xs s = fs_ds_push_json_batch J (replicate (length xs) (ok_outcome random)) xs (fst s) (snd s)"

definition fs_reopen :: "fs_dataset \<times> directory \<Rightarrow> fs_dataset \<times> directory" where
  "fs_reopen s = (fs_ds_open (fd_name (fst s)) (snd s), snd s)"

definition fs_room :: "nat \<Rightarrow> fs_dataset \<times> directory \<Rightarrow> bool" where
  "fs_room k s = (fd_next_sequence (fst s) + k \<le> Suc max_sequence_number)"

definition json_total :: "'j json_externals \<Rightarrow> bool" where
  "json_total J = (\<forall>item. \<exists>bytes. jx_pretty J item = Inr bytes)"

lemma fs_push_ok:
  assumes "json_reads_back J" "json_total J" "ds_inv h d" "fd_next_sequence h \<le> max_sequence_number"
  shows "\<exists>h' d'. fs_ds_push_json J (ok_outcome random) x h d = (Inr (), h', d') \<and> ds_inv h' d'
    \<and> read_items J d' = read_items J d @ [x] \<and> fd_next_sequence h' = Suc (fd_next_sequence h)"
proof -
  obtain r h' d' where run: "fs_ds_push_json J (ok_outcome random) x h d = (r, h', d')" by (metis prod_cases3)
  obtain bytes where "jx_pretty J x = Inr bytes" using assms(2) by (auto simp: json_total_def)
  then have "r = Inr ()" using run assms(4)
    by (auto simp: fs_ds_push_json_def append_locked_def ok_outcome_def Let_def)
  then show ?thesis using run append_atomic [OF assms(1,3) run [unfolded fs_ds_push_json_def]] by auto
qed

lemma fs_batch_ok:
  assumes "json_reads_back J" "json_total J"
  shows "ds_inv h d \<Longrightarrow> fd_next_sequence h + length xs \<le> Suc max_sequence_number \<Longrightarrow>
    \<exists>h' d'. fs_ds_push_json_batch J (replicate (length xs) (ok_outcome random)) xs h d = (Inr (), h', d')
      \<and> ds_inv h' d' \<and> read_items J d' = read_items J d @ xs \<and> fd_next_sequence h' = fd_next_sequence h + length xs"
proof (induction xs arbitrary: h d)
  case (Cons x xs)
  obtain h1 d1 where "fs_ds_push_json J (ok_outcome random) x h d = (Inr (), h1, d1)" "ds_inv h1 d1"
      "read_items J d1 = read_items J d @ [x]" "fd_next_sequence h1 = Suc (fd_next_sequence h)"
    using fs_push_ok [OF assms Cons.prems(1), of random x] Cons.prems(2) by auto
  then show ?case using Cons.IH [of h1 d1] Cons.prems(2) by auto
qed simp

lemma reopen_room:
  assumes "ds_inv h d"
  shows "fd_next_sequence (fs_ds_open name d) \<le> fd_next_sequence h"
proof -
  have "max_sequence d < fd_next_sequence h"
  proof (cases "item_files d = []")
    case False
    have "List.last (item_files d) \<in> set (item_files d)" using False by (rule last_in_set)
    then show ?thesis using assms False by (auto simp: item_files_set max_sequence_def ds_inv_alt)
  qed (use assms in \<open>simp add: max_sequence_def ds_inv_def\<close>)
  then show ?thesis by (simp add: fs_ds_open_def)
qed

interpretation mds: dataset_log "mem_ds_push_json now" "mem_ds_push_json_batch now" mem_ds_list_raw id "\<lambda>_. True" ds_items "\<lambda>_ _. True"
  for now
  by unfold_locales (auto simp: mem_ds_push_json_def mem_ds_push_json_batch_def mem_ds_list_raw_def)

interpretation fds: dataset_log "fs_push J random" "fs_batch J random" "\<lambda>opts s. fs_ds_list_raw J None opts (snd s)" fs_reopen
    "\<lambda>s. json_reads_back J \<and> json_total J \<and> ds_inv (fst s) (snd s)" "\<lambda>s. read_items J (snd s)" fs_room
  for J random
proof unfold_locales
  fix s k x
  assume "json_reads_back J \<and> json_total J \<and> ds_inv (fst s) (snd s)" "fs_room (Suc k) s"
  then show "\<exists>s'. fs_push J random x s = (Inr (), s') \<and> (json_reads_back J \<and> json_total J \<and> ds_inv (fst s') (snd s'))
      \<and> read_items J (snd s') = read_items J (snd s) @ [x] \<and> fs_room k s'"
    using fs_push_ok [of J "fst s" "snd s" random x] by (auto simp: fs_push_def fs_room_def)
next
  fix s k and xs :: "'a list"
  assume "json_reads_back J \<and> json_total J \<and> ds_inv (fst s) (snd s)" "fs_room (length xs + k) s"
  then show "\<exists>s'. fs_batch J random xs s = (Inr (), s') \<and> (json_reads_back J \<and> json_total J \<and> ds_inv (fst s') (snd s'))
      \<and> read_items J (snd s') = read_items J (snd s) @ xs \<and> fs_room k s'"
    using fs_batch_ok [of J "fst s" "snd s" xs random] by (auto simp: fs_batch_def fs_room_def)
next
  fix s k
  assume s: "json_reads_back J \<and> json_total J \<and> ds_inv (fst s) (snd s)"
  then have "distinct (map fst (snd s))" by (simp add: ds_inv_def)
  then show "(json_reads_back J \<and> json_total J \<and> ds_inv (fst (fs_reopen s)) (snd (fs_reopen s)))
      \<and> read_items J (snd (fs_reopen s)) = read_items J (snd s) \<and> (fs_room k s \<longrightarrow> fs_room k (fs_reopen s))"
    using s open_inv reopen_room [of "fst s" "snd s" "fd_name (fst s)"] by (auto simp: fs_reopen_def fs_room_def)
qed (simp add: fs_ds_list_raw_def)


section \<open>Reading an export back\<close>

text \<open>
  A reader of comma-separated text in the format of RFC 4180, with the position in the current field: at its
  start, in a plain field, inside quotes, or after a quote that may be the closing one.
\<close>

datatype csv_mode = Field_Start | Plain_Field | In_Quotes | After_Quote

fun csv_read :: "csv_mode \<Rightarrow> string \<Rightarrow> string list \<Rightarrow> string \<Rightarrow> string list list option" where
  "csv_read m field row [] = (if m = In_Quotes then None else Some [row @ [field]])"
| "csv_read m field row (c # cs) =
     (if m = In_Quotes then
        if c = CHR 0x22 then csv_read After_Quote field row cs else csv_read In_Quotes (field @ [c]) row cs
      else if c = CHR '','' then csv_read Field_Start [] (row @ [field]) cs
      else if c = CHR 0x0D then
        (case cs of
           c' # cs' \<Rightarrow> if c' = CHR 0x0A then map_option ((#) (row @ [field])) (csv_read Field_Start [] [] cs') else None
         | [] \<Rightarrow> None)
      else if c = CHR 0x0A then None
      else if c = CHR 0x22 then
        (case m of Field_Start \<Rightarrow> csv_read In_Quotes field row cs
         | After_Quote \<Rightarrow> csv_read In_Quotes (field @ [c]) row cs
         | _ \<Rightarrow> None)
      else if m = After_Quote then None
      else csv_read Plain_Field (field @ [c]) row cs)"

definition csv_parse :: "string \<Rightarrow> string list list option" where
  "csv_parse text = csv_read Field_Start [] [] text"

definition csv_special :: "char \<Rightarrow> bool" where
  "csv_special c = (c \<in> {CHR '','', CHR 0x22, CHR 0x0D, CHR 0x0A})"

lemma read_plain:
  "\<not> list_ex csv_special v \<Longrightarrow> m \<in> {Field_Start, Plain_Field} \<Longrightarrow>
    csv_read m field row (v @ rest) = csv_read (if v = [] then m else Plain_Field) (field @ v) row rest"
  by (induction v arbitrary: m field) (auto simp: csv_special_def)

lemma read_quoted:
  "csv_read In_Quotes field row (concat (map (\<lambda>c. if c = CHR 0x22 then [CHR 0x22, CHR 0x22] else [c]) v) @ [CHR 0x22] @ rest)
     = csv_read After_Quote (field @ v) row rest"
  by (induction v arbitrary: field) auto

text \<open>What may follow a field: a comma, a line break or the end.\<close>

definition field_ends :: "string \<Rightarrow> bool" where
  "field_ends rest = (rest = [] \<or> hd rest = CHR '','' \<or> prefix [CHR 0x0D, CHR 0x0A] rest)"

lemma read_mode: "field_ends rest \<Longrightarrow> m \<noteq> In_Quotes \<Longrightarrow> csv_read m field row rest = csv_read Field_Start field row rest"
  by (cases rest) (auto simp: field_ends_def)

lemma read_field:
  assumes "field_ends rest"
  shows "csv_read Field_Start [] row (csv_field v @ rest) = csv_read Field_Start v row rest"
proof (cases "list_ex csv_special v")
  case True
  define quoted where "quoted = concat (map (\<lambda>c. if c = CHR 0x22 then [CHR 0x22, CHR 0x22] else [c]) v) @ [CHR 0x22]"
  have "csv_field v = CHR 0x22 # quoted"
    using True by (simp add: csv_field_def quoted_def csv_special_def [abs_def])
  then have "csv_read Field_Start [] row (csv_field v @ rest) = csv_read In_Quotes [] row (quoted @ rest)" by simp
  also have "\<dots> = csv_read After_Quote v row rest" using read_quoted [of "[]" row v rest] by (simp add: quoted_def)
  finally show ?thesis using read_mode [OF assms, of After_Quote v row] by simp
next
  case False
  then have "csv_field v = v" by (simp add: csv_field_def csv_special_def [abs_def])
  then show ?thesis using read_plain [OF False, of Field_Start "[]" row rest] read_mode [OF assms, of Plain_Field v row] by (simp split: if_splits)
qed

lemma read_row:
  "vs \<noteq> [] \<Longrightarrow> rest = [] \<or> prefix [CHR 0x0D, CHR 0x0A] rest \<Longrightarrow>
    csv_read Field_Start [] row (join '','' (map csv_field vs) @ rest) = csv_read Field_Start (List.last vs) (row @ butlast vs) rest"
proof (induction vs arbitrary: row rule: induct_list012)
  case (2 v)
  then have "field_ends rest" by (auto simp: field_ends_def)
  then show ?case using read_field [of rest row v] by simp
next
  case (3 v w vs)
  let ?more = "join '','' (map csv_field (w # vs)) @ rest"
  have "csv_read Field_Start [] row (join '','' (map csv_field (v # w # vs)) @ rest)
      = csv_read Field_Start [] row (csv_field v @ CHR '','' # ?more)" by simp
  also have "\<dots> = csv_read Field_Start v row (CHR '','' # ?more)" by (rule read_field) (simp add: field_ends_def)
  also have "\<dots> = csv_read Field_Start [] (row @ [v]) ?more" by simp
  finally show ?case using "3.IH"(2) "3.prems" by simp
qed simp

lemma csv_parse_text:
  "t \<noteq> [] \<Longrightarrow> [] \<notin> set t \<Longrightarrow> csv_parse (csv_text t) = Some t"
proof (induction t rule: induct_list012)
  case (2 row)
  then show ?case using read_row [of row "[]" "[]"] by (simp add: csv_parse_def csv_text_def append_butlast_last_id)
next
  case (3 r r' t)
  let ?more = "csv_text (r' # t)"
  have r: "r \<noteq> []" using "3.prems" by auto
  have "csv_text (r # r' # t) = join '','' (map csv_field r) @ [CHR 0x0D, CHR 0x0A] @ ?more" by (simp add: csv_text_def)
  then have "csv_parse (csv_text (r # r' # t)) = csv_read Field_Start (List.last r) (butlast r) ([CHR 0x0D, CHR 0x0A] @ ?more)"
    using read_row [of r "[CHR 0x0D, CHR 0x0A] @ ?more" "[]"] r by (simp add: csv_parse_def del: csv_read.simps)
  also have "\<dots> = map_option ((#) r) (csv_parse ?more)" using r by (simp add: csv_parse_def)
  finally show ?case using "3.IH"(2) "3.prems" by simp
qed simp

lemma fold_collect:
  assumes "fold_result (\<lambda>x acc. case f x of None \<Rightarrow> Inl e | Some y \<Rightarrow> Inr (acc @ [y])) xs acc = Inr ys"
  shows "map Some ys = map Some acc @ map f xs"
  using assms by (induction xs arbitrary: acc) (auto split: option.splits)

text \<open>
  C20. A CSV export that succeeds is read back, by a reader of the RFC 4180 format, as the table it stands for:
  the sorted keys of all items, then for every item, in order, the text of each key's value, empty where the
  item lacks the key; commas, quotes and line breaks inside values included. Some item must have a key: without a
  column the format cannot tell rows from empty text.
\<close>

theorem csv_export_roundtrip:
  assumes "export_csv J items = Inr text" and "\<exists>j \<in> set items. jx_as_object J j \<notin> {None, Some []}"
  shows "\<exists>objs. map Some objs = map (jx_as_object J) items \<and>
    (let columns = sorted_list_of_set (\<Union>obj \<in> set objs. fst ` set obj)
     in csv_parse text = Some (columns # map (\<lambda>obj. map (csv_cell J obj) columns) objs))"
proof -
  obtain objs where objs: "csv_objects J items = Inr objs" and written: "text = csv_text (csv_table J objs)"
    using assms(1) by (auto simp: export_csv_def split: sum.splits)
  have map: "map Some objs = map (jx_as_object J) items"
    using fold_collect [OF objs [unfolded csv_objects_def]] by simp
  have cols: "csv_columns objs = sorted_list_of_set (\<Union>obj \<in> set objs. fst ` set obj)"
    by (simp add: csv_columns_def sorted_list_of_set_sort_remdups [symmetric])
  obtain j where j: "j \<in> set items" "jx_as_object J j \<notin> {None, Some []}" using assms(2) by blast
  then have "jx_as_object J j \<in> Some ` set objs" by (metis map image_eqI image_set)
  then obtain obj where "obj \<in> set objs" "obj \<noteq> []" using j(2) by auto
  then have "fst (hd obj) \<in> set (csv_columns objs)" by (auto simp: csv_columns_def intro!: bexI [of _ obj])
  then have "csv_columns objs \<noteq> []" by auto
  then have "csv_parse text = Some (csv_table J objs)" unfolding written
    by (intro csv_parse_text) (auto simp: csv_table_def Let_def)
  then show ?thesis using map by (auto simp: csv_table_def cols [symmetric] Let_def)
qed

section \<open>Handles that outlive a purge\<close>

lemma push_first:
  assumes "fd_next_sequence h = 1" "jx_pretty J x = Inr bytes" "d \<in> {[], [(item_name 1, old)]}"
  shows "fs_ds_push_json J (ok_outcome random) x h d = (Inr (), h\<lparr>fd_next_sequence := 2\<rparr>, [(item_name 1, bytes)])"
proof -
  define tmp where "tmp = pad9 1 @ ''.'' @ ''json'' @ ''.'' @ temporary_suffix random"
  have "item_sequence tmp = None" unfolding tmp_def by (rule temporary_no_item)
  moreover have "item_sequence (item_name 1) = Some 1" by (simp add: item_sequence_iff max_sequence_number_def)
  ultimately have "tmp \<noteq> item_name 1" "item_name 1 \<noteq> tmp" by auto
  then have "fs_rename tmp (item_name 1) (AList.update tmp bytes d) = [(item_name 1, bytes)]"
    using assms(3) by (auto simp: fs_rename_def)
  then show ?thesis using assms(1,2)
    by (simp add: fs_ds_push_json_def append_locked_def ok_outcome_def Let_def max_sequence_number_def tmp_def)
qed

text \<open>
  \<open>FsStorageClient::purge\<close> says that handles opened before it stay usable. It resets their sequence, and the next
  open makes a second handle on the same directory that starts at the same number: two pushes, both reported as
  successful, leave one item.
\<close>

theorem purged_handle_loses_item:
  assumes "jx_pretty J x = Inr bx" and "jx_pretty J y = Inr by'" and "jx_from_slice J by' = Inr y"
  shows "let before = reset_sequence h; after = fs_ds_open (fd_name h) [];
      (r1, _, d1) = fs_ds_push_json J (ok_outcome a) x before [];
      (r2, _, d2) = fs_ds_push_json J (ok_outcome b) y after d1
    in r1 = Inr () \<and> r2 = Inr () \<and> read_items J d2 = [y]"
proof -
  have at: "item_at [(item_name 1, by')] 1 = Some by'" by (simp add: item_at_def max_sequence_number_def)
  have only: "n < 2" if n: "0 < n" "item_at [(item_name 1, by')] n \<noteq> None" for n
  proof -
    have "item_name n = item_name 1" "n \<le> max_sequence_number" using n(2) by (auto simp: item_at_def split: if_splits)
    then have "n = 1" using dataset_sequence_name [OF n(1)] dataset_sequence_name [of 1]
      by (simp add: max_sequence_number_def)
    then show ?thesis by simp
  qed
  have "[1..<2] = [1 :: nat]" by (simp add: upt_rec)
  then have "read_items J [(item_name 1, by')] = [y]"
    using read_items_upto [of "[(item_name 1, by')]" 2 J, OF _ only] at assms(3) by (simp add: decoded_def)
  moreover have "fd_next_sequence (reset_sequence h) = 1" "fd_next_sequence (fs_ds_open (fd_name h) []) = 1"
    by (simp_all add: reset_sequence_def fs_ds_open_def max_sequence_def item_files_def)
  ultimately show ?thesis
    using push_first [of "reset_sequence h" J x bx "[]" "[]" a] push_first [of "fs_ds_open (fd_name h) []" J y by' "[(item_name 1, bx)]" bx b] assms
    by simp
qed

section \<open>Witnesses\<close>

text \<open>A JSON whose values are byte strings, each an object with one key.\<close>

definition sample_json :: "u8 list json_externals" where
  "sample_json = \<lparr>jx_as_object = (\<lambda>b. Some [(''k'', b)]),
     jx_as_string = (\<lambda>b. Some (if b = [1] then ''say '' @ [CHR 0x22] @ ''a, b'' @ [CHR 0x22, CHR 0x0D, CHR 0x0A] else ''plain'')),
     jx_display = (\<lambda>_. []), jx_pretty = Inr, jx_pretty_list = (\<lambda>bs. Inr (concat bs)), jx_from_slice = Inr\<rparr>"

lemma sample_json_laws: "json_reads_back sample_json" "json_total sample_json"
  by (simp_all add: json_reads_back_def json_total_def sample_json_def)

lemma read_empty: "read_items J [] = []"
  by (simp add: read_items_def item_files_def)



theorem csv_export_roundtrip_witness:
  "\<exists>text. export_csv sample_json [[1], [2]] = Inr text \<and>
     csv_parse text = Some [[''k''], [''say '' @ [CHR 0x22] @ ''a, b'' @ [CHR 0x22, CHR 0x0D, CHR 0x0A]], [''plain'']]"
proof -
  obtain csv where written: "export_csv sample_json [[1], [2]] = Inr csv"
    by (simp add: export_csv_def csv_objects_def sample_json_def)
  have "\<exists>j \<in> set [[1], [2 :: u8]]. jx_as_object sample_json j \<notin> {None, Some []}" by (auto simp: sample_json_def)
  from csv_export_roundtrip [OF written this]
  obtain objs where "map Some objs = map (jx_as_object sample_json) [[1], [2]]"
      "let columns = sorted_list_of_set (\<Union>obj \<in> set objs. fst ` set obj)
       in csv_parse csv = Some (columns # map (\<lambda>obj. map (csv_cell sample_json obj) columns) objs)"
    by blast
  then have "csv_parse csv = Some [[''k''], [''say '' @ [CHR 0x22] @ ''a, b'' @ [CHR 0x22, CHR 0x0D, CHR 0x0A]], [''plain'']]"
    by (auto simp: sample_json_def csv_cell_def Let_def)
  then show ?thesis using written by blast
qed

end
