(* ===== verification/Storage_Clients.thy ===== *)
theory Storage_Clients
  imports Dataset Memory_Queue Fs_Queue
begin

text \<open>
  The storage clients: \<open>millipede-storage-memory/src/client.rs\<close> and \<open>millipede-storage-fs/src/client.rs\<close>. A handle (an
  \<open>Arc\<close>) is an index of the heap of its kind; the maps from names to handles are the clients' caches, and a handle that a
  purge drops from its cache stays usable by those who hold it.
\<close>

section \<open>The in-memory client\<close>

record ('u, 'j) memory_client =
  mc_datasets :: "(string \<times> nat) list"
  mc_kv_stores :: "(string \<times> nat) list"
  mc_queues :: "(string \<times> nat) list"
  mc_dataset_heap :: "'j dataset_state list"
  mc_kv_heap :: "memory_kvs list"
  mc_queue_heap :: "('u, 'j) memory_queue list"

definition memory_client_new :: "('u, 'j) memory_client" where
  "memory_client_new = \<lparr>mc_datasets = [], mc_kv_stores = [], mc_queues = [], mc_dataset_heap = [], mc_kv_heap = [], mc_queue_heap = []\<rparr>"

definition name_or_default :: "string option \<Rightarrow> string" where
  "name_or_default name = (case name of Some n \<Rightarrow> n | None \<Rightarrow> ''default'')"

definition mem_open_dataset :: "wall_time \<Rightarrow> string option \<Rightarrow> ('u, 'j) memory_client \<Rightarrow> nat \<times> ('u, 'j) memory_client" where
  "mem_open_dataset now name c =
     (let n = name_or_default name in
      case map_of (mc_datasets c) n of
        Some a \<Rightarrow> (a, c)
      | None \<Rightarrow> let a = length (mc_dataset_heap c) in
          (a, c\<lparr>mc_datasets := AList.update n a (mc_datasets c), mc_dataset_heap := mc_dataset_heap c @ [mem_ds_new now]\<rparr>))"

definition mem_open_kvs :: "string option \<Rightarrow> ('u, 'j) memory_client \<Rightarrow> nat \<times> ('u, 'j) memory_client" where
  "mem_open_kvs name c =
     (let n = name_or_default name in
      case map_of (mc_kv_stores c) n of
        Some a \<Rightarrow> (a, c)
      | None \<Rightarrow> let a = length (mc_kv_heap c) in
          (a, c\<lparr>mc_kv_stores := AList.update n a (mc_kv_stores c), mc_kv_heap := mc_kv_heap c @ [[]]\<rparr>))"

definition mem_open_queue :: "string option \<Rightarrow> ('u, 'j) memory_client \<Rightarrow> nat \<times> ('u, 'j) memory_client" where
  "mem_open_queue name c =
     (let n = name_or_default name in
      case map_of (mc_queues c) n of
        Some a \<Rightarrow> (a, c)
      | None \<Rightarrow> let a = length (mc_queue_heap c) in
          (a, c\<lparr>mc_queues := AList.update n a (mc_queues c), mc_queue_heap := mc_queue_heap c @ [mem_new]\<rparr>))"

definition mem_purge :: "wall_time \<Rightarrow> ('u, 'j) memory_client \<Rightarrow> ('u, 'j) memory_client" where
  "mem_purge now c = c\<lparr>
     mc_dataset_heap := fold (\<lambda>(_, a) h. h[a := mem_ds_clear now (h ! a)]) (mc_datasets c) (mc_dataset_heap c), mc_datasets := [],
     mc_kv_heap := fold (\<lambda>(_, a) h. h[a := mem_kv_clear (h ! a)]) (mc_kv_stores c) (mc_kv_heap c), mc_kv_stores := [],
     mc_queues := []\<rparr>"

section \<open>The file-system client\<close>

text \<open>
  The three directories below the root, each a list of stores; the requests of a queue that is not open are its decoded
  files. What the system calls do is an argument: \<open>None\<close> for success.
\<close>

record ('u, 'j) fs_client =
  fc_datasets :: "(string \<times> directory) list"
  fc_kv_stores :: "(string \<times> directory) list"
  fc_queues :: "(string \<times> ('u, 'j) decoded option list) list"
  fc_dataset_cache :: "(string \<times> nat) list"
  fc_kv_cache :: "string list"
  fc_queue_cache :: "(string \<times> nat) list"
  fc_dataset_heap :: "fs_dataset list"
  fc_queue_heap :: "('u, 'j) fs_queue list"

text \<open>\<open>create_dir_all\<close>.\<close>

definition ensure_dir :: "string \<Rightarrow> (string \<times> 'd list) list \<Rightarrow> (string \<times> 'd list) list" where
  "ensure_dir n stores = (if map_of stores n = None then stores @ [(n, [])] else stores)"

definition dir_of :: "string \<Rightarrow> (string \<times> 'd list) list \<Rightarrow> 'd list" where
  "dir_of n stores = (case map_of stores n of Some d \<Rightarrow> d | None \<Rightarrow> [])"

definition fs_open_dataset ::
  "(string \<Rightarrow> string) \<Rightarrow> io \<Rightarrow> string option \<Rightarrow> ('u, 'j) fs_client \<Rightarrow> (storage_error + nat) \<times> ('u, 'j) fs_client" where
  "fs_open_dataset dbg io name c =
     (case store_name dbg name of Inl e \<Rightarrow> (Inl e, c)
      | Inr n \<Rightarrow>
     (case io 0 of Some e \<Rightarrow> (Inl e, c)
      | None \<Rightarrow>
     (let c1 = c\<lparr>fc_datasets := ensure_dir n (fc_datasets c)\<rparr> in
      case map_of (fc_dataset_cache c) n of
        Some a \<Rightarrow> (Inr a, c1)
      | None \<Rightarrow>
          (case io 1 of Some e \<Rightarrow> (Inl e, c1)
           | None \<Rightarrow>
               let a = length (fc_dataset_heap c) in
               (Inr a, c1\<lparr>fc_dataset_heap := fc_dataset_heap c @ [fs_ds_open n (dir_of n (fc_datasets c1))],
                 fc_dataset_cache := AList.update n a (fc_dataset_cache c)\<rparr>)))))"

definition fs_open_kvs ::
  "(string \<Rightarrow> string) \<Rightarrow> io \<Rightarrow> string option \<Rightarrow> ('u, 'j) fs_client \<Rightarrow> (storage_error + string) \<times> ('u, 'j) fs_client" where
  "fs_open_kvs dbg io name c =
     (case store_name dbg name of Inl e \<Rightarrow> (Inl e, c)
      | Inr n \<Rightarrow>
     (case io 0 of Some e \<Rightarrow> (Inl e, c)
      | None \<Rightarrow> (Inr n, c\<lparr>fc_kv_stores := ensure_dir n (fc_kv_stores c), fc_kv_cache := List.insert n (fc_kv_cache c)\<rparr>)))"

definition fs_open_queue ::
  "(string \<Rightarrow> string) \<Rightarrow> io \<Rightarrow> string option \<Rightarrow> ('u, 'j) fs_client \<Rightarrow> (storage_error + nat) \<times> ('u, 'j) fs_client" where
  "fs_open_queue dbg io name c =
     (case store_name dbg name of Inl e \<Rightarrow> (Inl e, c)
      | Inr n \<Rightarrow>
     (case io 0 of Some e \<Rightarrow> (Inl e, c)
      | None \<Rightarrow>
     (let c1 = c\<lparr>fc_queues := ensure_dir n (fc_queues c)\<rparr> in
      case map_of (fc_queue_cache c) n of
        Some a \<Rightarrow> (Inr a, c1)
      | None \<Rightarrow>
          (case io 1 of Some e \<Rightarrow> (Inl e, c1)
           | None \<Rightarrow>
          (case scan_queue (dir_of n (fc_queues c1)) of
             Inl e \<Rightarrow> (Inl e, c1)
           | Inr q \<Rightarrow>
               let a = length (fc_queue_heap c) in
               (Inr a, c1\<lparr>fc_queue_heap := fc_queue_heap c @ [q], fc_queue_cache := AList.update n a (fc_queue_cache c)\<rparr>))))))"

text \<open>
  \<open>purge_default_kvs\<close> removes the files one by one; \<open>fails\<close> gives the error of a file that cannot be removed.
\<close>

definition preserved :: "string \<Rightarrow> bool" where
  "preserved name = (case rsplit_once ''.'' name of Some (key, extension) \<Rightarrow> key = ''INPUT'' \<and> extension \<noteq> [] | None \<Rightarrow> False)"

fun purge_default_kvs :: "(string \<Rightarrow> storage_error option) \<Rightarrow> directory \<Rightarrow> (storage_error + unit) \<times> directory" where
  "purge_default_kvs fails [] = (Inr (), [])"
| "purge_default_kvs fails ((name, bytes) # files) =
     (if preserved name then (let (r, d) = purge_default_kvs fails files in (r, (name, bytes) # d))
      else case fails name of
        Some e \<Rightarrow> (Inl e, (name, bytes) # files)
      | None \<Rightarrow> purge_default_kvs fails files)"

text \<open>\<open>remove_dir_all\<close> that fails leaves a part of the store.\<close>

fun purge_category ::
  "bool \<Rightarrow> (string \<Rightarrow> (storage_error \<times> 'd list) option) \<Rightarrow> ('d list \<Rightarrow> (storage_error + unit) \<times> 'd list) \<Rightarrow> (string \<times> 'd list) list
     \<Rightarrow> (storage_error + unit) \<times> (string \<times> 'd list) list" where
  "purge_category preserve_input fails purge_default [] = (Inr (), [])"
| "purge_category preserve_input fails purge_default ((n, d) # stores) =
     (if preserve_input \<and> n = ''default'' then
        (case purge_default d of
           (Inl e, d') \<Rightarrow> (Inl e, (n, d') # stores)
         | (Inr _, d') \<Rightarrow> (let (r, stores') = purge_category preserve_input fails purge_default stores in (r, (n, d') # stores')))
      else case fails n of
        Some (e, left) \<Rightarrow> (Inl e, (n, left) # stores)
      | None \<Rightarrow> purge_category preserve_input fails purge_default stores)"

record ('u, 'j) purge_outcome =
  pu_datasets :: "string \<Rightarrow> (storage_error \<times> (string \<times> u8 list) list) option"
  pu_kv_stores :: "string \<Rightarrow> (storage_error \<times> (string \<times> u8 list) list) option"
  pu_kv_files :: "string \<Rightarrow> storage_error option"
  pu_queues :: "string \<Rightarrow> (storage_error \<times> ('u, 'j) decoded option list) option"

definition fs_purge :: "('u, 'j) purge_outcome \<Rightarrow> ('u, 'j) fs_client \<Rightarrow> (storage_error + unit) \<times> ('u, 'j) fs_client" where
  "fs_purge po c =
     (case purge_category False (pu_datasets po) (\<lambda>d. (Inr (), d)) (fc_datasets c) of
        (Inl e, ds) \<Rightarrow> (Inl e, c\<lparr>fc_datasets := ds\<rparr>)
      | (Inr _, ds) \<Rightarrow>
     (let c1 = c\<lparr>fc_datasets := ds,
            fc_dataset_heap := fold (\<lambda>(_, a) h. h[a := reset_sequence (h ! a)]) (fc_dataset_cache c) (fc_dataset_heap c)\<rparr> in
      case purge_category True (pu_kv_stores po) (purge_default_kvs (pu_kv_files po)) (fc_kv_stores c) of
        (Inl e, ks) \<Rightarrow> (Inl e, c1\<lparr>fc_kv_stores := ks\<rparr>)
      | (Inr _, ks) \<Rightarrow>
     (let c2 = c1\<lparr>fc_kv_stores := ks\<rparr> in
      case purge_category False (pu_queues po) (\<lambda>d. (Inr (), d)) (fc_queues c) of
        (Inl e, qs) \<Rightarrow> (Inl e, c2\<lparr>fc_queues := qs\<rparr>)
      | (Inr _, qs) \<Rightarrow>
          (Inr (), c2\<lparr>fc_queues := qs,
             fc_queue_heap := fold (\<lambda>(_, a) h. h[a := fs_reset ((h ! a)\<lparr>fq_disk := [], fq_cache := None\<rparr>)]) (fc_queue_cache c) (fc_queue_heap c),
             fc_dataset_cache := [], fc_kv_cache := [], fc_queue_cache := []\<rparr>))))"

section \<open>What a purge keeps\<close>

lemma preserved_stored: "preserved name \<longleftrightarrow> (\<exists>e. stored_key name = Some (''INPUT'', e))"
proof -
  have "\<not> is_temporary_file name" if p: "rsplit_once ''.'' name = Some (''INPUT'', e)" for e
  proof
    assume "is_temporary_file name"
    then obtain dest h key ext where "rsplit_once ''.tmp-'' name = Some (dest, h)" and dest: "rsplit_once ''.'' dest = Some (key, ext)"
      and h: "list_all is_hexdigit h"
      by (auto simp: is_temporary_file_def split: option.splits)
    then have n: "name = dest @ ''.tmp-'' @ h" using rsplit_once_Some by blast
    have "CHR ''.'' \<notin> set h" using h by (auto simp: list_all_iff is_hexdigit_def is_digit_def)
    then have "rsplit_once ''.'' name = Some (dest, ''tmp-'' @ h)" unfolding n using rsplit_once_dot [of "''tmp-'' @ h" dest] by simp
    then have "dest = ''INPUT''" using p by simp
    moreover have "CHR ''.'' \<in> set dest" using rsplit_once_Some [OF dest] by simp
    ultimately show False by simp
  qed
  then show ?thesis by (auto simp: preserved_def stored_key_def split: option.splits if_splits)
qed

lemma purge_default_files:
  assumes "purge_default_kvs fails d = (r, d')"
  shows "(preserved n \<longrightarrow> map_of d' n = map_of d n) \<and> set d' \<subseteq> set d \<and> (distinct (map fst d) \<longrightarrow> distinct (map fst d'))
    \<and> (r = Inr () \<longrightarrow> (\<forall>f \<in> set d'. preserved (fst f)))"
  using assms
proof (induction fails d arbitrary: r d' rule: purge_default_kvs.induct)
  case (2 fails name bytes files)
  consider (keep) d1 where "preserved name" "purge_default_kvs fails files = (r, d1)" "d' = (name, bytes) # d1"
    | (fail) e where "\<not> preserved name" "r = Inl e" "d' = (name, bytes) # files"
    | (remove) "\<not> preserved name" "fails name = None" "purge_default_kvs fails files = (r, d')"
    using "2.prems" by (auto split: if_splits option.splits prod.splits)
  then show ?case
  proof cases
    case keep
    then show ?thesis using "2.IH"(1) [of r d1] by (auto 0 3)
  next
    case remove
    then show ?thesis using "2.IH"(2) [of r d'] by auto
  qed simp
qed simp

lemma purge_category_all:
  "purge_category False fails f stores = (Inr (), stores') \<Longrightarrow> stores' = []"
  by (induction False fails f stores arbitrary: stores' rule: purge_category.induct) (auto split: option.splits prod.splits)

lemma purge_category_default:
  assumes "purge_category True fails f stores = (r, stores')" and "map_of stores ''default'' = Some d"
  shows "\<exists>d'. map_of stores' ''default'' = Some d' \<and> (d' = d \<and> r \<noteq> Inr () \<or> d' = snd (f d) \<and> (r = Inr () \<longrightarrow> fst (f d) = Inr ()))"
  using assms
proof (induction True fails f stores arbitrary: r stores' rule: purge_category.induct)
  case (2 fails f n e stores)
  show ?case
  proof (cases "n = ''default''")
    case True
    then show ?thesis using "2.prems" by (auto split: prod.splits sum.splits)
  next
    case False
    then show ?thesis using 2 by (auto split: option.splits prod.splits)
  qed
qed simp

lemma purge_category_only:
  "purge_category True fails f stores = (Inr (), stores') \<Longrightarrow> p \<in> set stores' \<Longrightarrow> fst p = ''default''"
  by (induction True fails f stores arbitrary: stores' rule: purge_category.induct)
    (auto split: if_splits option.splits prod.splits sum.splits)

lemma purge_category_absent:
  "purge_category True fails f stores = (r, stores') \<Longrightarrow> map_of stores ''default'' = None \<Longrightarrow> map_of stores' ''default'' = None"
  by (induction True fails f stores arbitrary: stores' rule: purge_category.induct)
    (auto split: if_splits option.splits prod.splits sum.splits)

lemma fs_purge_kv:
  assumes "fs_purge po c = (r, c')"
  obtains "fc_kv_stores c' = fc_kv_stores c" "r \<noteq> Inr ()"
  | r1 where "purge_category True (pu_kv_stores po) (purge_default_kvs (pu_kv_files po)) (fc_kv_stores c) = (r1, fc_kv_stores c')"
      "r = Inr () \<Longrightarrow> r1 = Inr ()"
  using assms by (auto simp: fs_purge_def Let_def split: prod.splits sum.splits)

lemma fs_purge_ok:
  assumes "fs_purge po c = (Inr (), c')"
  shows "purge_category False (pu_datasets po) (\<lambda>d. (Inr (), d)) (fc_datasets c) = (Inr (), fc_datasets c')
    \<and> purge_category True (pu_kv_stores po) (purge_default_kvs (pu_kv_files po)) (fc_kv_stores c) = (Inr (), fc_kv_stores c')
    \<and> purge_category False (pu_queues po) (\<lambda>d. (Inr (), d)) (fc_queues c) = (Inr (), fc_queues c') \<and> fc_dataset_cache c' = []"
  using assms by (auto simp: fs_purge_def Let_def split: prod.splits sum.splits)

text \<open>
  C27. A purge never touches the crawl's input: however it fails, the key \<open>INPUT\<close> of the default key-value store reads as
  before. A purge that succeeds leaves nothing else: no dataset, no queue, no other store and no other key, and the next
  dataset opened under any name starts at its first item.
\<close>

theorem purge_keeps_input:
  assumes "fs_purge po c = (r, c')" and "fs_kv_inv (dir_of ''default'' (fc_kv_stores c))"
  shows "fs_kv_get_bytes dbg (\<lambda>_. None) ''INPUT'' (dir_of ''default'' (fc_kv_stores c'))
      = fs_kv_get_bytes dbg (\<lambda>_. None) ''INPUT'' (dir_of ''default'' (fc_kv_stores c))
    \<and> (r = Inr () \<longrightarrow> fc_datasets c' = [] \<and> fc_queues c' = [] \<and> (\<forall>p \<in> set (fc_kv_stores c'). fst p = ''default'')
        \<and> (\<forall>f \<in> set (dir_of ''default'' (fc_kv_stores c')). \<exists>e. stored_key (fst f) = Some (''INPUT'', e))
        \<and> (\<forall>name n. store_name dbg name = Inr n \<longrightarrow>
            snd (fs_open_dataset dbg (\<lambda>_. None) name c') = c'\<lparr>fc_datasets := [(n, [])],
              fc_dataset_heap := fc_dataset_heap c' @ [\<lparr>fd_name = n, fd_next_sequence = 1\<rparr>],
              fc_dataset_cache := [(n, length (fc_dataset_heap c'))]\<rparr>))"
proof -
  let ?d = "dir_of ''default'' (fc_kv_stores c)" and ?d' = "dir_of ''default'' (fc_kv_stores c')"
  let ?f = "purge_default_kvs (pu_kv_files po)"
  have valid: "valid_key ''INPUT''" by (simp add: valid_key_def sublist_code)
  have cases: "?d' = ?d \<and> (r \<noteq> Inr () \<or> ?d = []) \<or> ?d' = snd (?f ?d) \<and> (r = Inr () \<longrightarrow> fst (?f ?d) = Inr ())"
    using assms(1)
  proof (rule fs_purge_kv)
    fix r1
    assume p: "purge_category True (pu_kv_stores po) ?f (fc_kv_stores c) = (r1, fc_kv_stores c')" "r = Inr () \<Longrightarrow> r1 = Inr ()"
    show ?thesis
    proof (cases "map_of (fc_kv_stores c) ''default''")
      case None
      then show ?thesis using purge_category_absent [OF p(1)] by (simp add: dir_of_def)
    next
      case (Some d)
      then show ?thesis using purge_category_default [OF p(1) Some] p(2) by (auto simp: dir_of_def)
    qed
  qed simp
  obtain rf df where f: "?f ?d = (rf, df)" by (cases "?f ?d")
  note files = purge_default_files [OF f]
  have dist: "distinct (map fst ?d)" using assms(2) by (simp add: fs_kv_inv_def)
  have kept: "stored_key n = Some (''INPUT'', e) \<Longrightarrow> map_of ?d' n = map_of ?d n" for n e
    using cases files [of n] preserved_stored [of n] f by auto
  have "fs_kv_get_bytes dbg (\<lambda>_. None) ''INPUT'' ?d' = fs_kv_get_bytes dbg (\<lambda>_. None) ''INPUT'' ?d"
    using cases files dist f by (intro get_unaffected [OF assms(2) valid kept]) auto
  moreover have "\<exists>e. stored_key (fst x) = Some (''INPUT'', e)" if ok: "r = Inr ()" "x \<in> set ?d'" for x
    using cases files [of "fst x"] preserved_stored [of "fst x"] f ok by auto
  moreover have "fc_datasets c' = [] \<and> fc_queues c' = [] \<and> fc_dataset_cache c' = []
      \<and> (\<forall>p \<in> set (fc_kv_stores c'). fst p = ''default'')" if ok: "r = Inr ()"
  proof -
    note stages = fs_purge_ok [OF assms(1) [unfolded ok]]
    have "fc_datasets c' = []" by (rule purge_category_all [OF conjunct1 [OF stages]])
    moreover have "fc_queues c' = []" by (rule purge_category_all [OF conjunct1 [OF conjunct2 [OF conjunct2 [OF stages]]]])
    moreover have "\<forall>p \<in> set (fc_kv_stores c'). fst p = ''default''" using stages purge_category_only by blast
    ultimately show ?thesis using stages by simp
  qed
  ultimately show ?thesis
    by (auto simp: fs_open_dataset_def ensure_dir_def dir_of_def Let_def fs_ds_open_def max_sequence_def item_files_def)
qed

definition sample_client :: "(string, string) fs_client" where
  "sample_client = \<lparr>fc_datasets = [], fc_kv_stores = [(''default'', [(''INPUT.json'', [1])])], fc_queues = [], fc_dataset_cache = [],
     fc_kv_cache = [], fc_queue_cache = [], fc_dataset_heap = [], fc_queue_heap = []\<rparr>"

lemma sample_input: "stored_key ''INPUT.json'' = Some (''INPUT'', ''json'')"
  using destination_stored [of "''json''" "''INPUT''"] by (simp add: known_extensions_def)

theorem purge_keeps_input_witness:
  "\<forall>po. fs_kv_get_bytes id (\<lambda>_. None) ''INPUT'' (dir_of ''default'' (fc_kv_stores (snd (fs_purge po sample_client))))
     = fs_kv_get_bytes id (\<lambda>_. None) ''INPUT'' [(''INPUT.json'', [1])]"
proof
  fix po
  have d: "dir_of ''default'' (fc_kv_stores sample_client) = [(''INPUT.json'', [1])]" by (simp add: dir_of_def sample_client_def)
  have "fs_kv_inv [(''INPUT.json'', [1])]" by (auto simp: fs_kv_inv_def split: if_splits)
  then show "fs_kv_get_bytes id (\<lambda>_. None) ''INPUT'' (dir_of ''default'' (fc_kv_stores (snd (fs_purge po sample_client))))
     = fs_kv_get_bytes id (\<lambda>_. None) ''INPUT'' [(''INPUT.json'', [1])]"
    using purge_keeps_input [of po sample_client "fst (fs_purge po sample_client)" "snd (fs_purge po sample_client)" id] d by simp
qed

section \<open>Handles are shared\<close>

text \<open>
  Opening a name twice gives the same handle, of both clients, also when other names are opened between; in the file
  client also after an open that failed.
\<close>

lemma mem_open_shared:
  assumes "mem_open_dataset now name c = (a, c1)"
  shows "mem_open_dataset later name c1 = (a, c1)"
  using assms by (auto simp: mem_open_dataset_def Let_def split: option.splits)

lemma mem_open_other:
  assumes "map_of (mc_datasets c) n = Some a" and "mem_open_dataset now name c = (b, c1)"
  shows "map_of (mc_datasets c1) n = Some a"
  using assms by (cases "n = name_or_default name") (auto simp: mem_open_dataset_def Let_def split: option.splits)

lemma fs_open_shared:
  assumes "fs_open_dataset dbg io name c = (Inr a, c1)"
  shows "fs_open_dataset dbg (\<lambda>_. None) name c1 = (Inr a, c1)"
  using assms by (auto simp: fs_open_dataset_def ensure_dir_def Let_def split: sum.splits option.splits if_splits)

text \<open>
  \<open>MemoryStorageClient::purge\<close> is documented to empty existing handles; the handles of queues are only detached: a
  handle opened before keeps its requests, where the file client resets it.
\<close>

theorem purge_keeps_queue_handles: "mc_queue_heap (mem_purge now c) = mc_queue_heap c"
  by (simp add: mem_purge_def)

lemma fold_clear:
  assumes "\<And>x. P (g x)"
  shows "a < length h \<Longrightarrow> a \<in> snd ` set names \<or> P (h ! a) \<Longrightarrow> P (fold (\<lambda>(_, b) h. h[b := g (h ! b)]) names h ! a)"
proof (induction names arbitrary: h)
  case (Cons p names)
  show ?case
  proof (cases "a = snd p")
    case True
    then show ?thesis using Cons.IH [of "h[a := g (h ! a)]"] Cons.prems(1) assms by (cases p) simp
  next
    case False
    then show ?thesis using Cons.IH [of "h[snd p := g (h ! snd p)]"] Cons.prems by (cases p) auto
  qed
qed simp

theorem mem_purge_empties_datasets:
  assumes "map_of (mc_datasets c) n = Some a" and "a < length (mc_dataset_heap c)"
  shows "ds_items (mc_dataset_heap (mem_purge now c) ! a) = []"
proof -
  have "a \<in> snd ` set (mc_datasets c)" using map_of_SomeD [OF assms(1)] by (force simp: image_iff)
  then have "ds_items (fold (\<lambda>(_, b) h. h[b := mem_ds_clear now (h ! b)]) (mc_datasets c) (mc_dataset_heap c) ! a) = []"
    by (intro fold_clear [of "\<lambda>s. ds_items s = []", OF _ assms(2)] disjI1) (simp_all add: mem_ds_clear_def)
  then show ?thesis by (simp add: mem_purge_def)
qed

end
