(* ===== verification/Load_Signals.thy ===== *)
theory Load_Signals
  imports Autoscale
begin

text \<open>
  The load signals (\<open>millipede-core/src/autoscale/signals.rs\<close>): each samples one quantity in a task of its own, or is fed
  by its handle, and keeps a bounded history. A task ticks when its timer says so; what it measures is an
  argument of the tick. \<open>stop\<close> cancels the task and waits for its end, between which the task may tick once more.
\<close>

section \<open>The signals\<close>

definition MIN_SAMPLE_INTERVAL :: duration where
  "MIN_SAMPLE_INTERVAL = millis 1"

record cpu_load_signal_options =
  co_max_used_cpu_ratio :: fl
  co_sample_interval :: duration

record memory_load_signal_options =
  mo_max_used_memory_ratio :: fl
  mo_memory_bytes :: "nat option"
  mo_sample_interval :: duration

record runtime_load_signal_options =
  ro_max_lag :: duration
  ro_sample_interval :: duration

record 'o load_signal =
  sg_options :: 'o
  sg_history :: "load_snapshot list"
  sg_cancelled :: bool
  sg_task :: "duration option"
  sg_running :: "duration list"

definition signal_new :: "'o \<Rightarrow> 'o load_signal" where
  "signal_new options = \<lparr>sg_options = options, sg_history = [], sg_cancelled = False, sg_task = None, sg_running = []\<rparr>"

text \<open>A task is known by its interval: \<open>sg_task\<close> is the join handle that is kept, \<open>sg_running\<close> the tasks alive.\<close>

definition spawn_sampler :: "duration \<Rightarrow> 'o load_signal \<Rightarrow> 'o load_signal" where
  "spawn_sampler interval s =
     (if sg_task s \<noteq> None \<or> sg_cancelled s then s
      else s\<lparr>sg_task := Some interval, sg_running := sg_running s @ [interval]\<rparr>)"

definition cpu_start :: "duration \<Rightarrow> cpu_load_signal_options load_signal \<Rightarrow> cpu_load_signal_options load_signal" where
  "cpu_start minimum s = spawn_sampler (max (co_sample_interval (sg_options s)) minimum) s"

definition memory_start :: "memory_load_signal_options load_signal \<Rightarrow> memory_load_signal_options load_signal" where
  "memory_start s = spawn_sampler (max (mo_sample_interval (sg_options s)) MIN_SAMPLE_INTERVAL) s"

definition runtime_start :: "runtime_load_signal_options load_signal \<Rightarrow> runtime_load_signal_options load_signal" where
  "runtime_start s = spawn_sampler (max (ro_sample_interval (sg_options s)) MIN_SAMPLE_INTERVAL) s"

definition record_snapshot :: "instant \<Rightarrow> bool \<Rightarrow> 'o load_signal \<Rightarrow> 'o load_signal" where
  "record_snapshot now overloaded s = s\<lparr>sg_history := history_push \<lparr>ls_at = now, ls_overloaded = overloaded\<rparr> (sg_history s)\<rparr>"

text \<open>One tick of each task; \<open>usage\<close> is the fraction of the processors, \<open>woke\<close> when the timer set for \<open>target\<close> fired.\<close>

definition cpu_tick :: "instant \<Rightarrow> fl \<Rightarrow> cpu_load_signal_options load_signal \<Rightarrow> cpu_load_signal_options load_signal" where
  "cpu_tick now usage s = record_snapshot now (cpu_overloaded usage (co_max_used_cpu_ratio (sg_options s))) s"

definition memory_tick :: "instant \<Rightarrow> nat \<Rightarrow> nat \<Rightarrow> memory_load_signal_options load_signal \<Rightarrow> memory_load_signal_options load_signal" where
  "memory_tick now used total_memory s =
     (let budget = (case mo_memory_bytes (sg_options s) of Some b \<Rightarrow> b | None \<Rightarrow> total_memory)
      in record_snapshot now (memory_overloaded used budget (mo_max_used_memory_ratio (sg_options s))) s)"

definition runtime_tick :: "instant \<Rightarrow> instant \<Rightarrow> instant \<Rightarrow> runtime_load_signal_options load_signal \<Rightarrow> runtime_load_signal_options load_signal" where
  "runtime_tick target woke now s = record_snapshot now (lag_overloaded (woke - target) (ro_max_lag (sg_options s))) s"

definition signal_cancel :: "'o load_signal \<Rightarrow> 'o load_signal" where
  "signal_cancel s = s\<lparr>sg_cancelled := True, sg_task := None\<rparr>"

definition sampler_exit :: "'o load_signal \<Rightarrow> 'o load_signal" where
  "sampler_exit s = s\<lparr>sg_running := tl (sg_running s)\<rparr>"

definition signal_sample :: "instant \<Rightarrow> duration \<Rightarrow> 'o load_signal \<Rightarrow> load_snapshot list" where
  "signal_sample now window s = history_sample now window (sg_history s)"

text \<open>The client's signal has no task: its handle records what callers observe.\<close>

definition record_rate_limited :: "instant \<Rightarrow> load_snapshot list \<Rightarrow> load_snapshot list" where
  "record_rate_limited now h = history_push \<lparr>ls_at = now, ls_overloaded = True\<rparr> h"

definition record_healthy :: "instant \<Rightarrow> load_snapshot list \<Rightarrow> load_snapshot list" where
  "record_healthy now h = history_push \<lparr>ls_at = now, ls_overloaded = False\<rparr> h"

section \<open>The life of a sampler\<close>

text \<open>
  What can happen to a signal: \<open>start\<close>, a tick of a task that is alive, \<open>stop\<close> up to its await point, and the end of a
  cancelled task, for which \<open>stop\<close> waits.
\<close>

inductive signal_step :: "('o load_signal \<Rightarrow> 'o load_signal) \<Rightarrow> 'o load_signal \<Rightarrow> 'o load_signal \<Rightarrow> bool" for start where
  start: "signal_step start s (start s)"
| tick: "sg_running s \<noteq> [] \<Longrightarrow> signal_step start s (record_snapshot now overloaded s)"
| stop: "signal_step start s (signal_cancel s)"
| exit: "sg_running s \<noteq> [] \<Longrightarrow> sg_cancelled s \<Longrightarrow> signal_step start s (sampler_exit s)"

definition sampler_inv :: "'o load_signal \<Rightarrow> bool" where
  "sampler_inv s = (length (sg_running s) \<le> 1 \<and> (sg_running s \<noteq> [] \<longrightarrow> sg_cancelled s \<or> sg_task s = Some (hd (sg_running s)))
     \<and> (sg_task s \<noteq> None \<longrightarrow> \<not> sg_cancelled s \<and> sg_running s \<noteq> []))"

lemma sampler_step_inv:
  assumes "signal_step start s s'" and "\<And>s. \<exists>interval. start s = spawn_sampler interval s" and "sampler_inv s"
  shows "sampler_inv s'"
  using assms(1,3)
proof (induction rule: signal_step.induct)
  case (start s)
  obtain interval where "start s = spawn_sampler interval s" using assms(2) by blast
  then show ?case using start by (cases "sg_running s") (auto simp: sampler_inv_def spawn_sampler_def)
next
  case (exit s)
  then show ?case by (cases "sg_running s") (auto simp: sampler_inv_def sampler_exit_def)
qed (auto simp: sampler_inv_def record_snapshot_def signal_cancel_def)

lemma stopped_silent:
  assumes "(signal_step start)\<^sup>*\<^sup>* s s'" and "\<And>s. \<exists>interval. start s = spawn_sampler interval s"
    and "sg_cancelled s" "sg_running s = []"
  shows "sg_history s' = sg_history s \<and> sg_cancelled s' \<and> sg_running s' = []"
  using assms(1)
proof (induction rule: rtranclp_induct)
  case (step t u)
  from step.hyps(2) step.IH show ?case
  proof (induction rule: signal_step.induct)
    case (start s)
    then show ?case using assms(2) [of s] by (auto simp: spawn_sampler_def)
  qed (auto simp: signal_cancel_def)
qed (use assms in simp)

text \<open>
  A signal has at most one sampler whatever is called in which order, and once \<open>stop\<close> has returned nothing is
  recorded any more, also when \<open>start\<close> is called again.
\<close>

theorem single_sampler:
  assumes "(signal_step memory_start)\<^sup>*\<^sup>* (signal_new options) s" and "(signal_step memory_start)\<^sup>*\<^sup>* s s'"
  shows "length (sg_running s) \<le> 1 \<and> (sg_cancelled s \<longrightarrow> sg_running s = [] \<longrightarrow> sg_history s' = sg_history s \<and> sg_running s' = [])"
proof -
  have start: "\<exists>interval. memory_start s = spawn_sampler interval s" for s by (auto simp: memory_start_def)
  have "sampler_inv s" using assms(1)
  proof (induction rule: rtranclp_induct)
    case base
    show ?case by (simp add: sampler_inv_def signal_new_def)
  next
    case (step t u)
    show ?case by (rule sampler_step_inv [OF step.hyps(2) start step.IH])
  qed
  then show ?thesis using stopped_silent [OF assms(2) start] by (auto simp: sampler_inv_def)
qed

section \<open>The history\<close>

text \<open>The declarative reading: the newest 4096 of the observations at most 300 seconds older than the last one.\<close>

definition recent :: "load_snapshot list \<Rightarrow> load_snapshot list" where
  "recent xs =
     (let new = filter (\<lambda>e. ls_at (List.last xs) \<le> ls_at e + HISTORY_MAX_AGE) xs
      in drop (length new - HISTORY_MAX_LEN) new)"

lemma sorted_dropWhile_filter:
  "sorted (map f xs) \<Longrightarrow> dropWhile (\<lambda>x. f x < c) xs = filter (\<lambda>x. c \<le> f x) xs" for f :: "'b \<Rightarrow> nat"
  by (induction xs) (auto simp: not_less order_trans intro!: filter_True [symmetric])

lemma filter_is_drop:
  "sorted (map f xs) \<Longrightarrow> \<exists>k. filter (\<lambda>x. c \<le> f x) xs = drop k xs" for f :: "'b \<Rightarrow> nat"
  by (metis sorted_dropWhile_filter dropWhile_eq_drop)

lemma push_as_filter:
  assumes "sorted (map ls_at (h @ [s]))"
  shows "history_push s h =
    (let new = filter (\<lambda>e. ls_at s \<le> ls_at e + HISTORY_MAX_AGE) (h @ [s]) in drop (length new - HISTORY_MAX_LEN) new)"
proof (cases "HISTORY_MAX_AGE \<le> ls_at s")
  case True
  have "dropWhile (\<lambda>e. ls_at e < ls_at s - HISTORY_MAX_AGE) (h @ [s]) = filter (\<lambda>e. ls_at s - HISTORY_MAX_AGE \<le> ls_at e) (h @ [s])"
    by (rule sorted_dropWhile_filter [OF assms])
  also have "\<dots> = filter (\<lambda>e. ls_at s \<le> ls_at e + HISTORY_MAX_AGE) (h @ [s])" by (rule filter_cong) auto
  finally show ?thesis using True by (simp add: history_push_def checked_sub_def Let_def)
next
  case False
  then have "filter (\<lambda>e. ls_at s \<le> ls_at e + HISTORY_MAX_AGE) (h @ [s]) = h @ [s]" by (intro filter_True) auto
  then show ?thesis using False by (simp add: history_push_def checked_sub_def Let_def)
qed

text \<open>Trimming before another filter that keeps a suffix makes no difference to the newest \<open>N\<close>.\<close>

lemma trim_filter:
  fixes f :: "'b \<Rightarrow> nat"
  assumes "sorted (map f xs)"
  shows "(let ys = filter (\<lambda>x. c \<le> f x) (drop (length xs - Suc N) xs) in drop (length ys - N) ys)
    = (let ys = filter (\<lambda>x. c \<le> f x) xs in drop (length ys - N) ys)"
proof -
  define m where "m = length xs - Suc N"
  have split: "filter (\<lambda>x. c \<le> f x) xs = filter (\<lambda>x. c \<le> f x) (take m xs) @ filter (\<lambda>x. c \<le> f x) (drop m xs)"
    by (metis append_take_drop_id filter_append)
  show ?thesis
  proof (cases "\<exists>x \<in> set (take m xs). c \<le> f x")
    case False
    then show ?thesis by (simp add: split flip: m_def)
  next
    case True
    then have "m \<noteq> 0" by (cases m) auto
    then have "length (drop m xs) = Suc N" by (simp add: m_def)
    moreover have "filter (\<lambda>x. c \<le> f x) (drop m xs) = drop m xs"
    proof (rule filter_True, rule ballI)
      fix y
      assume y: "y \<in> set (drop m xs)"
      have "sorted (map f (take m xs) @ map f (drop m xs))" using assms by (metis append_take_drop_id map_append)
      then show "c \<le> f y" using True y by (fastforce simp: sorted_append)
    qed
    ultimately show ?thesis by (simp add: split flip: m_def)
  qed
qed

lemma drop_snoc_trim: "drop (length xs - N) xs @ [x] = drop (length (xs @ [x]) - Suc N) (xs @ [x])"
  by (simp add: Suc_diff_le)

lemma push_recent:
  assumes "sorted (map ls_at xs)"
  shows "fold history_push xs [] = recent xs"
  using assms
proof (induction xs rule: rev_induct)
  case (snoc x xs)
  have sx: "sorted (map ls_at xs)" using snoc.prems by (simp add: sorted_append)
  show ?case
  proof (cases "xs = []")
    case True
    then show ?thesis by (simp add: push_as_filter recent_def)
  next
    case False
    define kept where "kept = filter (\<lambda>e. ls_at (List.last xs) \<le> ls_at e + HISTORY_MAX_AGE) xs"
    have le: "ls_at (List.last xs) \<le> ls_at x" using snoc.prems False by (auto simp: sorted_append)
    have sk: "sorted (map ls_at (kept @ [x]))" using snoc.prems unfolding kept_def
      by (auto simp: sorted_append intro: sorted_filter)
    have "fold history_push (xs @ [x]) [] = history_push x (drop (length kept - HISTORY_MAX_LEN) kept)"
      using snoc.IH [OF sx] by (simp add: recent_def kept_def Let_def)
    also have "\<dots> = (let new = filter (\<lambda>e. ls_at x - HISTORY_MAX_AGE \<le> ls_at e)
        (drop (length (kept @ [x]) - Suc HISTORY_MAX_LEN) (kept @ [x])) in drop (length new - HISTORY_MAX_LEN) new)"
    proof -
      have "sorted (map ls_at (drop (length kept - HISTORY_MAX_LEN) kept @ [x]))"
        using sk unfolding drop_snoc_trim by (metis drop_map sorted_wrt_drop)
      then show ?thesis by (simp only: push_as_filter drop_snoc_trim le_diff_conv)
    qed
    also have "\<dots> = (let new = filter (\<lambda>e. ls_at x - HISTORY_MAX_AGE \<le> ls_at e) (kept @ [x]) in drop (length new - HISTORY_MAX_LEN) new)"
      by (rule trim_filter [OF sk])
    also have "filter (\<lambda>e. ls_at x - HISTORY_MAX_AGE \<le> ls_at e) (kept @ [x]) = filter (\<lambda>e. ls_at x \<le> ls_at e + HISTORY_MAX_AGE) (xs @ [x])"
      using le by (auto simp: kept_def intro!: filter_cong)
    finally show ?thesis by (simp add: recent_def)
  qed
qed (simp add: recent_def)

text \<open>
  The history that the code trims at every observation is the declarative one: after observations at times that do
  not go back, it holds exactly the newest 4096 of those at most 300 seconds older than the last, in order.
\<close>

theorem history_is_recent:
  assumes "sorted (map ls_at xs)"
  shows "fold history_push xs [] = recent xs"
  by (rule push_recent [OF assms])

theorem history_is_recent_witness:
  "fold history_push [\<lparr>ls_at = 0, ls_overloaded = True\<rparr>, \<lparr>ls_at = secs 301, ls_overloaded = False\<rparr>] [] = [\<lparr>ls_at = secs 301, ls_overloaded = False\<rparr>]"
  using history_is_recent [of "[\<lparr>ls_at = 0, ls_overloaded = True\<rparr>, \<lparr>ls_at = secs 301, ls_overloaded = False\<rparr>]"]
  by (simp add: recent_def secs_def HISTORY_MAX_AGE_def HISTORY_MAX_LEN_def)

end
