(* ===== verification/Storage_Report.thy ===== *)
theory Storage_Report
  imports Load_Signals Memory_Queue Fs_Invariant Dataset
begin

text \<open>
  The storage wrapper that reports the backend's health to autoscaling
  (\<open>millipede-core/src/storage/rate_limit.rs\<close>): every operation of a dataset, a key-value store or a queue is the inner one,
  followed by an observation of its result. The state is the inner state with the history of the client's load signal; \<open>now\<close> is when
  the operation ends. The wrapper keeps the contract of what it wraps, so the locales are interpreted on it too.
\<close>

section \<open>The wrapper\<close>

definition observe_result :: "instant \<Rightarrow> storage_error + 'a \<Rightarrow> load_snapshot list \<Rightarrow> load_snapshot list" where
  "observe_result now result h =
     (case result of
        Inr _ \<Rightarrow> record_healthy now h
      | Inl e \<Rightarrow> if is_rate_limited e then record_rate_limited now h else h)"

definition reported ::
  "instant \<Rightarrow> ('s \<Rightarrow> (storage_error + 'a) \<times> 's) \<Rightarrow> 's \<times> load_snapshot list \<Rightarrow> (storage_error + 'a) \<times> 's \<times> load_snapshot list" where
  "reported now op s = (let (r, inner) = op (fst s) in (r, inner, observe_result now r (snd s)))"

text \<open>
  An operation that only reads, with the history after it. The records of operations below give the result of such an
  operation alone, so its observation is this function's and not theirs.
\<close>

definition reported_read :: "instant \<Rightarrow> ('s \<Rightarrow> storage_error + 'a) \<Rightarrow> 's \<times> load_snapshot list \<Rightarrow> (storage_error + 'a) \<times> 's \<times> load_snapshot list" where
  "reported_read now op s = reported now (\<lambda>inner. (op inner, inner)) s"

definition reporting_queue :: "instant \<Rightarrow> ('q, 'u, 'j) queue_ops \<Rightarrow> ('q \<times> load_snapshot list, 'u, 'j) queue_ops" where
  "reporting_queue now ops = \<lparr>q_add = (\<lambda>r opts. reported now (q_add ops r opts)),
     q_fetch_next = (\<lambda>t. reported now (q_fetch_next ops t)),
     q_mark_handled = (\<lambda>l. reported now (q_mark_handled ops l)),
     q_reclaim = (\<lambda>l opts. reported now (q_reclaim ops l opts)),
     q_renew = (\<lambda>t i d. reported now (q_renew ops t i d)),
     q_abandon = (\<lambda>l. reported now (q_abandon ops l)),
     q_is_empty = (\<lambda>s. q_is_empty ops (fst s)), q_is_finished = (\<lambda>s. q_is_finished ops (fst s)),
     q_handled_count = (\<lambda>s. q_handled_count ops (fst s)), q_pending_count = (\<lambda>s. q_pending_count ops (fst s))\<rparr>"

definition reporting_kvs :: "instant \<Rightarrow> 's kv_ops \<Rightarrow> ('s \<times> load_snapshot list) kv_ops" where
  "reporting_kvs now K = \<lparr>kv_get_bytes = (\<lambda>k s. fst (reported_read now (kv_get_bytes K k) s)),
     kv_set_bytes = (\<lambda>k b t. reported now (kv_set_bytes K k b t)), kv_delete = (\<lambda>k. reported now (kv_delete K k)),
     kv_list_keys = (\<lambda>opts s. fst (reported_read now (kv_list_keys K opts) s))\<rparr>"

definition reporting_push :: "instant \<Rightarrow> ('j \<Rightarrow> 's \<Rightarrow> (storage_error + unit) \<times> 's) \<Rightarrow> 'j \<Rightarrow> 's \<times> load_snapshot list
    \<Rightarrow> (storage_error + unit) \<times> 's \<times> load_snapshot list" where
  "reporting_push now psh x = reported now (psh x)"

definition reporting_batch :: "instant \<Rightarrow> ('j list \<Rightarrow> 's \<Rightarrow> (storage_error + unit) \<times> 's) \<Rightarrow> 'j list \<Rightarrow> 's \<times> load_snapshot list
    \<Rightarrow> (storage_error + unit) \<times> 's \<times> load_snapshot list" where
  "reporting_batch now bat xs = reported now (bat xs)"

definition reporting_page :: "instant \<Rightarrow> (list_options \<Rightarrow> 's \<Rightarrow> storage_error + 'j data_page) \<Rightarrow> list_options \<Rightarrow> 's \<times> load_snapshot list
    \<Rightarrow> storage_error + 'j data_page" where
  "reporting_page now page opts s = fst (reported_read now (page opts) s)"

text \<open>A stream is observed item by item.\<close>

definition reporting_stream :: "(storage_error + 'j) list \<Rightarrow> instant list \<Rightarrow> load_snapshot list \<Rightarrow> load_snapshot list" where
  "reporting_stream results ts h = fold (\<lambda>(t, r). observe_result t r) (zip ts results) h"

section \<open>The wrapper keeps the contracts\<close>

lemma reported_eq: "reported now op s = (r, s') \<longleftrightarrow> op (fst s) = (r, fst s') \<and> snd s' = observe_result now r (snd s)"
  by (cases s') (auto simp: reported_def Let_def split: prod.splits)

context request_queue
begin

lemma reporting_contract:
  "request_queue (reporting_queue now ops) (\<lambda>s. status (fst s)) (\<lambda>s. invar (fst s)) (\<lambda>r s. admissible r (fst s))
     (\<lambda>l s. owned l (fst s)) (\<lambda>s. live (fst s))"
  by unfold_locales
    (auto simp: reporting_queue_def reported_eq owned_status dest: add_ok fetch_some fetch_none handled_ok reclaim_ok abandon_ok renew_ok)

end

context key_value_store
begin

lemma reporting_contract:
  "key_value_store (reporting_kvs now K) (\<lambda>s. inv (fst s)) (\<lambda>s. view (fst s)) valid kept"
proof unfold_locales
  fix s :: "'s \<times> load_snapshot list" and k b t
  assume s: "inv (fst s)" "valid k"
  show "\<exists>s'. kv_set_bytes (reporting_kvs now K) k b t s = (Inr (), s') \<and> inv (fst s') \<and> view (fst s') = (view (fst s))(k \<mapsto> (b, kept t))"
    using set_law [OF s, of b t] by (force simp: reporting_kvs_def reported_def)
  show "\<exists>s'. kv_delete (reporting_kvs now K) k s = (Inr (), s') \<and> inv (fst s') \<and> view (fst s') = (view (fst s))(k := None)"
    using delete_law [OF s] by (force simp: reporting_kvs_def reported_def)
qed (simp_all add: reporting_kvs_def reported_read_def reported_def view_finite get_law list_law json_norm)

end

context dataset_log
begin

lemma reporting_contract:
  "dataset_log (reporting_push now push) (reporting_batch now batch) (reporting_page now page) (\<lambda>s. (reopen (fst s), snd s))
     (\<lambda>s. inv (fst s)) (\<lambda>s. items (fst s)) (\<lambda>k s. room k (fst s))"
proof unfold_locales
  fix s :: "'s \<times> load_snapshot list" and k and x :: 'j
  assume "inv (fst s)" "room (Suc k) (fst s)"
  then show "\<exists>s'. reporting_push now push x s = (Inr (), s') \<and> inv (fst s') \<and> items (fst s') = items (fst s) @ [x] \<and> room k (fst s')"
    using push_law [of "fst s" k x] by (force simp: reporting_push_def reported_def)
next
  fix s :: "'s \<times> load_snapshot list" and k and xs :: "'j list"
  assume "inv (fst s)" "room (length xs + k) (fst s)"
  then show "\<exists>s'. reporting_batch now batch xs s = (Inr (), s') \<and> inv (fst s') \<and> items (fst s') = items (fst s) @ xs \<and> room k (fst s')"
    using batch_law [of "fst s" xs k] by (force simp: reporting_batch_def reported_def)
qed (simp_all add: reporting_page_def reported_read_def reported_def page_law reopen_law)

end

interpretation rmem: request_queue "reporting_queue now (memory_ops X)" "\<lambda>s. mem_status (fst s)" "\<lambda>s. mem_inv X (fst s)"
    "\<lambda>_ _. True" "\<lambda>l s. mem_owned X l (fst s)" "\<lambda>s. mem_live (fst s)"
  for now X
  by (rule mem.reporting_contract)

interpretation rfs: request_queue "reporting_queue now (fs_ops X E)" "\<lambda>s. fs_status (fst s)" "\<lambda>s. fs_inv X (fst s)"
    "\<lambda>r s. fs_admissible r (fst s)" "\<lambda>l s. fs_owned X l (fst s)" "\<lambda>_. True"
  for now X E
  by (rule fs.reporting_contract)

interpretation rkv: key_value_store "reporting_kvs now (fs_kv_ops dbg random)" "\<lambda>s. fs_kv_inv (fst s)" "\<lambda>s. fs_kv_view (fst s)" valid_key normal_type
  for now dbg random
  by (rule fkv.reporting_contract)

interpretation rds: dataset_log "reporting_push now (fs_push J random)" "reporting_batch now (fs_batch J random)"
    "reporting_page now (\<lambda>opts s. fs_ds_list_raw J None opts (snd s))" "\<lambda>s. (fs_reopen (fst s), snd s)"
    "\<lambda>s. json_reads_back J \<and> json_total J \<and> ds_inv (fst (fst s)) (snd (fst s))" "\<lambda>s. read_items J (snd (fst s))" "\<lambda>k s. fs_room k (fst s)"
  for now J random
  by (rule fds.reporting_contract)

section \<open>From a rate limit to the scaling decision\<close>

text \<open>The observations of a sequence of timed results.\<close>

definition snapshot_of :: "instant \<times> (storage_error + unit) \<Rightarrow> load_snapshot option" where
  "snapshot_of p = (case snd p of
       Inr _ \<Rightarrow> Some \<lparr>ls_at = fst p, ls_overloaded = False\<rparr>
     | Inl e \<Rightarrow> if is_rate_limited e then Some \<lparr>ls_at = fst p, ls_overloaded = True\<rparr> else None)"

definition client_history :: "(instant \<times> (storage_error + unit)) list \<Rightarrow> load_snapshot list" where
  "client_history results = fold (\<lambda>(t, r). observe_result t r) results []"

lemma client_history_push: "client_history results = fold history_push (List.map_filter snapshot_of results) []"
proof -
  have "fold (\<lambda>(t, r). observe_result t r) results h = fold history_push (List.map_filter snapshot_of results) h" for h
    by (induction results arbitrary: h)
      (auto simp: snapshot_of_def observe_result_def record_healthy_def record_rate_limited_def split: sum.splits)
  then show ?thesis by (simp add: client_history_def)
qed

lemma snapshots_sorted: "sorted (map fst results) \<Longrightarrow> sorted (map ls_at (List.map_filter snapshot_of results))"
proof (induction results)
  case (Cons p results)
  have "ls_at s \<in> fst ` set results" if s: "s \<in> set (List.map_filter snapshot_of results)" for s
    using s by (force simp: List.map_filter_def snapshot_of_def split: sum.splits if_splits)
  moreover have "snapshot_of p = Some s \<Longrightarrow> ls_at s = fst p" for s by (auto simp: snapshot_of_def split: sum.splits if_splits)
  ultimately show ?case using Cons by (fastforce split: option.splits)
qed simp

lemma max_by_at_last: "sorted (map ls_at xs) \<Longrightarrow> xs \<noteq> [] \<Longrightarrow> max_by_at xs = Some (List.last xs)"
  by (induction xs rule: induct_list012) auto

lemma recent_last: "xs \<noteq> [] \<Longrightarrow> recent xs \<noteq> [] \<and> List.last (recent xs) = List.last xs"
proof -
  assume xs: "xs \<noteq> []"
  define new where "new = filter (\<lambda>e. ls_at (List.last xs) \<le> ls_at e + HISTORY_MAX_AGE) xs"
  have "new = filter (\<lambda>e. ls_at (List.last xs) \<le> ls_at e + HISTORY_MAX_AGE) (butlast xs) @ [List.last xs]"
    unfolding new_def by (subst append_butlast_last_id [OF xs, symmetric], subst filter_append) simp
  then have new: "new \<noteq> []" "List.last new = List.last xs" by simp_all
  then have "length new - HISTORY_MAX_LEN < length new" by (simp add: HISTORY_MAX_LEN_def)
  then show ?thesis using new unfolding recent_def new_def [symmetric] Let_def by (simp add: last_drop)
qed

lemma collect_overloaded: "latest_overloaded samples \<Longrightarrow> samples \<in> set signals \<Longrightarrow> collect_ratios m signals = None"
  by (induction signals) auto

lemma latest_client:
  assumes "sorted (map fst results)" and "t \<le> now" "now \<le> t + window"
    and "List.map_filter snapshot_of results = earlier @ [s]" "ls_at s = t"
  shows "latest_overloaded (history_sample now window (client_history results)) = ls_overloaded s"
proof -
  let ?xs = "List.map_filter snapshot_of results"
  have sorted: "sorted (map ls_at ?xs)" by (rule snapshots_sorted [OF assms(1)])
  have h: "client_history results = recent ?xs" by (simp only: client_history_push push_recent [OF sorted])
  have l: "recent ?xs \<noteq> []" "List.last (recent ?xs) = s" using recent_last [of ?xs] assms(4) by simp_all
  then obtain front where front: "recent ?xs = front @ [s]" by (metis append_butlast_last_id)
  have sr: "sorted (map ls_at (recent ?xs))" using sorted by (simp add: recent_def Let_def drop_map [symmetric] sorted_wrt_drop sorted_filter)
  have "history_sample now window (recent ?xs) = filter (\<lambda>e. now \<le> ls_at e + window) (recent ?xs)"
    by (auto simp: history_sample_def checked_sub_def le_diff_conv intro!: filter_True [symmetric])
  also have "\<dots> = filter (\<lambda>e. now \<le> ls_at e + window) front @ [s]" using assms(3,5) by (simp add: front)
  finally have "max_by_at (history_sample now window (recent ?xs)) = Some s"
    using sr by (simp add: max_by_at_last front sorted_append sorted_filter)
  then show ?thesis by (simp add: latest_overloaded_def h)
qed

text \<open>
  C28. A rate limit of the storage backend reaches the scaling decision: when the last storage operation was rejected by
  a rate limit within the evaluated window, the next evaluation scales down whatever the other signals say and
  whatever succeeded before; when it succeeded, the client's signal does not ask to scale down. Other failures change
  nothing.
\<close>

theorem rate_limit_scales_down:
  assumes "sorted (map fst (earlier @ [(t, r)]))" and "t \<le> now" and "now \<le> t + window"
  shows "case r of
      Inr _ \<Rightarrow> \<not> latest_overloaded (history_sample now window (client_history (earlier @ [(t, r)])))
    | Inl e \<Rightarrow>
        if is_rate_limited e
        then evaluate m (others @ history_sample now window (client_history (earlier @ [(t, r)])) # further) ratio = ScaleDown
        else client_history (earlier @ [(t, r)]) = client_history earlier"
proof -
  have *: "snapshot_of (t, r) = Some s \<Longrightarrow>
      latest_overloaded (history_sample now window (client_history (earlier @ [(t, r)]))) = ls_overloaded s" for s
    using latest_client [OF assms, of "List.map_filter snapshot_of earlier" s]
    by (auto simp: map_filter_snoc) (auto simp: snapshot_of_def split: sum.splits if_splits)
  show ?thesis
  proof (cases r)
    case (Inl e)
    have "evaluate m (others @ history_sample now window (client_history (earlier @ [(t, r)])) # further) ratio = ScaleDown"
      if "is_rate_limited e"
      using * [of "\<lparr>ls_at = t, ls_overloaded = True\<rparr>"] that Inl
      by (simp add: snapshot_of_def evaluate_def collect_overloaded)
    then show ?thesis using Inl by (simp add: client_history_def observe_result_def)
  next
    case (Inr u)
    then show ?thesis using * [of "\<lparr>ls_at = t, ls_overloaded = False\<rparr>"] by (simp add: snapshot_of_def)
  qed
qed

theorem rate_limit_scales_down_witness:
  "evaluate 1 ([] @ history_sample (secs 2) (secs 5) (client_history ([(secs 1, Inr ())] @ [(secs 2, Inl (RateLimited None))])) # []) (Fin 0) = ScaleDown"
  using rate_limit_scales_down [of "[(secs 1, Inr ())]" "secs 2" "Inl (RateLimited None)" "secs 2" "secs 5" 1 "[]" "[]" "Fin 0"]
  by (simp add: secs_def)

end
