(* ===== verification/Browser_Pool.thy ===== *)
theory Browser_Pool
  imports Errors
begin

text \<open>
  The browser pool (\<open>millipede-browser/src/pool.rs\<close>) as a transition system: one transition per section of the code that holds the
  pool's lock, so a transition ends where the code awaits. Beside the pool's own state, the guards that are armed are kept: the
  launches under way, the page reservations and the page closes. What the provider answers, which acquisition is cancelled and when, is the
  choice of the environment. Page identifiers come from a counter. A browser is closed when its \<open>Arc\<close> is taken out of its slot; \<open>bp_taken\<close> lists the slots this happened to.
\<close>

section \<open>State\<close>

datatype browser_error =
    BrowserNotFound string | Launch anyhow | PageCreate anyhow | Navigation string anyhow | NavigationTimeout string duration
  | WaitTimeout string duration | Evaluation anyhow | CookieConversion anyhow | PageClosed | Shutdown | Protocol anyhow

record pool_options =
  po_max_open_pages_per_browser :: nat
  po_retire_browser_after_page_count :: nat
  po_max_browsers :: "nat option"

record 'b browser_slot =
  bs_id :: nat
  bs_browser :: "'b option"
  bs_open_pages :: nat
  bs_in_flight_pages :: nat
  bs_pages_created :: nat
  bs_launching :: bool
  bs_retired :: bool

record page_entry =
  pe_browser_id :: nat
  pe_closing :: bool

record 'b browser_pool =
  bp_browsers :: "'b browser_slot list"
  bp_pages :: "(nat \<times> page_entry) list"
  bp_next_browser_id :: nat
  bp_shut_down :: bool
  bp_next_page :: nat
  bp_launches :: "nat list"
  bp_reserved :: "nat list"
  bp_taken :: "nat list"

definition pool_new :: "'b browser_pool" where
  "pool_new = \<lparr>bp_browsers = [], bp_pages = [], bp_next_browser_id = 1, bp_shut_down = False, bp_next_page = 1,
     bp_launches = [], bp_reserved = [], bp_taken = []\<rparr>"

fun update_slot :: "nat \<Rightarrow> ('b browser_slot \<Rightarrow> 'b browser_slot) \<Rightarrow> 'b browser_slot list \<Rightarrow> 'b browser_slot list" where
  "update_slot i f [] = []"
| "update_slot i f (b # bs) = (if bs_id b = i then f b # bs else b # update_slot i f bs)"

definition find_slot :: "nat \<Rightarrow> 'b browser_slot list \<Rightarrow> 'b browser_slot option" where
  "find_slot i bs = find (\<lambda>b. bs_id b = i) bs"

section \<open>Acquiring a page\<close>

definition slot_available :: "pool_options \<Rightarrow> 'b browser_slot \<Rightarrow> bool" where
  "slot_available opts b =
     (\<not> bs_retired b \<and> \<not> bs_launching b \<and> bs_browser b \<noteq> None
      \<and> bs_open_pages b < po_max_open_pages_per_browser opts \<and> bs_pages_created b < po_retire_browser_after_page_count opts)"

definition slot_live :: "'b browser_slot \<Rightarrow> bool" where
  "slot_live b = (bs_launching b \<or> bs_browser b \<noteq> None)"

datatype choice = Existing nat | Launching nat | Wait

text \<open>The choice at the head of the loop of \<open>acquire_page\<close>; the identifiers of browsers are \<open>u64\<close> and wrap.\<close>

definition choose_slot :: "pool_options \<Rightarrow> 'b browser_pool \<Rightarrow> browser_error + choice \<times> 'b browser_pool" where
  "choose_slot opts s =
     (if bp_shut_down s then Inl Shutdown
      else case find (slot_available opts) (bp_browsers s) of
        Some b \<Rightarrow> Inr (Existing (bs_id b),
          s\<lparr>bp_browsers := update_slot (bs_id b) (\<lambda>b. b\<lparr>bs_open_pages := bs_open_pages b + 1,
               bs_in_flight_pages := bs_in_flight_pages b + 1, bs_pages_created := bs_pages_created b + 1\<rparr>) (bp_browsers s),
            bp_reserved := bs_id b # bp_reserved s\<rparr>)
      | None \<Rightarrow>
          let live_count = length (filter slot_live (bp_browsers s)) in
          if (case po_max_browsers opts of None \<Rightarrow> True | Some maximum \<Rightarrow> live_count < maximum)
          then let i = bp_next_browser_id s in
            Inr (Launching i, s\<lparr>bp_next_browser_id := (i + 1) mod 2 ^ 64,
              bp_browsers := bp_browsers s @ [\<lparr>bs_id = i, bs_browser = None, bs_open_pages = 0, bs_in_flight_pages = 0,
                bs_pages_created = 0, bs_launching = True, bs_retired = False\<rparr>],
              bp_launches := i # bp_launches s\<rparr>)
          else Inr (Wait, s))"

definition drop_slot :: "nat \<Rightarrow> 'b browser_pool \<Rightarrow> 'b browser_pool" where
  "drop_slot i s = s\<lparr>bp_browsers := filter (\<lambda>b. bs_id b \<noteq> i) (bp_browsers s), bp_launches := removeAll i (bp_launches s)\<rparr>"

text \<open>
  A launch that ends with a browser: it is installed unless the pool was shut down; then the browser is closed and the slot is dropped
  afterwards, as after an error or a cancellation.
\<close>

definition launch_done :: "nat \<Rightarrow> 'b \<Rightarrow> 'b browser_pool \<Rightarrow> bool \<times> 'b browser_pool" where
  "launch_done i browser s =
     (if bp_shut_down s \<or> find_slot i (bp_browsers s) = None then (False, s)
      else (True, s\<lparr>bp_browsers := update_slot i (\<lambda>b. b\<lparr>bs_browser := Some browser, bs_launching := False\<rparr>) (bp_browsers s),
             bp_launches := removeAll i (bp_launches s)\<rparr>))"

definition launch_dropped :: "nat \<Rightarrow> 'b browser_pool \<Rightarrow> 'b browser_pool" where
  "launch_dropped i s = drop_slot i s"

text \<open>Taking a browser out of its slot, to close it.\<close>

definition take_browser :: "'b browser_slot \<Rightarrow> 'b browser_slot" where
  "take_browser b = b\<lparr>bs_browser := None\<rparr>"

definition close_if :: "('b browser_slot \<Rightarrow> bool) \<Rightarrow> nat \<Rightarrow> 'b browser_pool \<Rightarrow> 'b browser_pool" where
  "close_if P i s =
     (case find_slot i (bp_browsers s) of
        Some b \<Rightarrow> if P b \<and> bs_browser b \<noteq> None
          then s\<lparr>bp_browsers := update_slot i take_browser (bp_browsers s), bp_taken := i # bp_taken s\<rparr> else s
      | None \<Rightarrow> s)"

definition rollback_page_reservation :: "pool_options \<Rightarrow> nat \<Rightarrow> 'b browser_pool \<Rightarrow> 'b browser_pool" where
  "rollback_page_reservation opts i s =
     close_if (\<lambda>b. bs_open_pages b = 0 \<and> (bs_retired b \<or> bp_shut_down s)) i
       (s\<lparr>bp_browsers := update_slot i (\<lambda>b. b\<lparr>bs_open_pages := bs_open_pages b - 1, bs_in_flight_pages := bs_in_flight_pages b - 1,
            bs_pages_created := bs_pages_created b - 1,
            bs_retired := po_retire_browser_after_page_count opts \<le> bs_pages_created b - 1\<rparr>) (bp_browsers s),
          bp_reserved := remove1 i (bp_reserved s)\<rparr>)"

text \<open>A page that was created is registered, unless the pool was shut down: then its reservation is rolled back later.\<close>

definition register_page :: "nat \<Rightarrow> 'b browser_pool \<Rightarrow> nat option \<times> 'b browser_pool" where
  "register_page i s =
     (if bp_shut_down s then (None, s)
      else (Some (bp_next_page s),
        s\<lparr>bp_browsers := update_slot i (\<lambda>b. b\<lparr>bs_in_flight_pages := bs_in_flight_pages b - 1\<rparr>) (bp_browsers s),
          bp_pages := AList.update (bp_next_page s) \<lparr>pe_browser_id = i, pe_closing = False\<rparr> (bp_pages s),
          bp_next_page := bp_next_page s + 1, bp_reserved := remove1 i (bp_reserved s)\<rparr>))"

section \<open>Closing pages and the pool\<close>

datatype close_start = Gone | Busy | Started nat

definition close_begin :: "nat \<Rightarrow> 'b browser_pool \<Rightarrow> close_start \<times> 'b browser_pool" where
  "close_begin pg s =
     (case map_of (bp_pages s) pg of
        None \<Rightarrow> (Gone, s)
      | Some e \<Rightarrow> if pe_closing e then (Busy, s)
          else (Started (pe_browser_id e), s\<lparr>bp_pages := AList.update pg (e\<lparr>pe_closing := True\<rparr>) (bp_pages s)\<rparr>))"

definition close_end :: "pool_options \<Rightarrow> nat \<Rightarrow> nat \<Rightarrow> 'b browser_pool \<Rightarrow> 'b browser_pool" where
  "close_end opts pg i s =
     close_if (\<lambda>b. (bs_retired b \<or> bp_shut_down s) \<and> bs_open_pages b = 0) i
       (s\<lparr>bp_pages := AList.delete pg (bp_pages s),
          bp_browsers := update_slot i (\<lambda>b. b\<lparr>bs_open_pages := bs_open_pages b - 1,
            bs_retired := bs_retired b \<or> po_retire_browser_after_page_count opts \<le> bs_pages_created b\<rparr>) (bp_browsers s)\<rparr>)"

definition close_cancelled :: "nat \<Rightarrow> 'b browser_pool \<Rightarrow> 'b browser_pool" where
  "close_cancelled pg s =
     (case map_of (bp_pages s) pg of
        None \<Rightarrow> s
      | Some e \<Rightarrow> s\<lparr>bp_pages := AList.update pg (e\<lparr>pe_closing := False\<rparr>) (bp_pages s)\<rparr>)"

definition shutdown_begin :: "'b browser_pool \<Rightarrow> 'b browser_pool" where
  "shutdown_begin s = s\<lparr>bp_shut_down := True\<rparr>"

text \<open>The last part of \<open>shutdown\<close>: the browsers without pages are taken.\<close>

definition take_idle :: "'b browser_pool \<Rightarrow> 'b browser_pool" where
  "take_idle s = s\<lparr>
     bp_browsers := map (\<lambda>b. if bs_open_pages b = 0 \<and> bs_in_flight_pages b = 0 then take_browser b else b) (bp_browsers s),
     bp_taken := map bs_id (filter (\<lambda>b. bs_open_pages b = 0 \<and> bs_in_flight_pages b = 0 \<and> bs_browser b \<noteq> None) (bp_browsers s)) @ bp_taken s\<rparr>"

text \<open>The last handle is gone: no acquisition can be under way.\<close>

definition finalize_orphaned_pool :: "'b browser_pool \<Rightarrow> 'b browser_pool" where
  "finalize_orphaned_pool s =
     (if bp_pages s \<noteq> [] then s
      else s\<lparr>bp_browsers := map take_browser (bp_browsers s),
             bp_taken := map bs_id (filter (\<lambda>b. bs_browser b \<noteq> None) (bp_browsers s)) @ bp_taken s\<rparr>)"

text \<open>
  The state shared by the clones of a page handle: \<open>close\<close> runs once at a time and, once it succeeded, never again; a handle that is
  dropped unclosed sends its page to the close worker.
\<close>

datatype handle_state = HandleOpen | HandleClosing | HandleClosed

definition handle_close_begin :: "handle_state \<Rightarrow> bool \<times> handle_state" where
  "handle_close_begin h = (case h of HandleOpen \<Rightarrow> (True, HandleClosing) | _ \<Rightarrow> (False, h))"

definition handle_close_end :: "browser_error + unit \<Rightarrow> handle_state" where
  "handle_close_end result = (case result of Inr _ \<Rightarrow> HandleClosed | Inl _ \<Rightarrow> HandleOpen)"

definition handle_dropped :: "handle_state \<Rightarrow> bool" where
  "handle_dropped h = (h \<noteq> HandleClosed)"

section \<open>Steps\<close>

inductive pool_move :: "pool_options \<Rightarrow> 'b browser_pool \<Rightarrow> 'b browser_pool \<Rightarrow> bool" for opts where
  acquire: "choose_slot opts s = Inr (c, s') \<Longrightarrow> bp_next_browser_id s < 2 ^ 64 - 1 \<Longrightarrow> pool_move opts s s'"
| launched: "i \<in> set (bp_launches s) \<Longrightarrow> pool_move opts s (snd (launch_done i browser s))"
| launch_failed: "i \<in> set (bp_launches s) \<Longrightarrow> pool_move opts s (launch_dropped i s)"
| rolled_back: "i \<in> set (bp_reserved s) \<Longrightarrow> pool_move opts s (rollback_page_reservation opts i s)"
| registered: "i \<in> set (bp_reserved s) \<Longrightarrow> pool_move opts s (snd (register_page i s))"
| closing: "pool_move opts s (snd (close_begin pg s))"
| closed: "map_of (bp_pages s) pg = Some e \<Longrightarrow> pe_closing e \<Longrightarrow> pool_move opts s (close_end opts pg (pe_browser_id e) s)"
| close_dropped: "pool_move opts s (close_cancelled pg s)"
| shutting_down: "pool_move opts s (shutdown_begin s)"
| idle_taken: "bp_shut_down s \<Longrightarrow> pool_move opts s (take_idle s)"
| finalized: "bp_reserved s = [] \<Longrightarrow> bp_launches s = [] \<Longrightarrow> pool_move opts s (finalize_orphaned_pool s)"

section \<open>The invariant\<close>

definition pages_of :: "nat \<Rightarrow> 'b browser_pool \<Rightarrow> nat" where
  "pages_of i s = count (mset (map (\<lambda>p. pe_browser_id (snd p)) (bp_pages s))) i"

definition reserved_of :: "nat \<Rightarrow> 'b browser_pool \<Rightarrow> nat" where
  "reserved_of i s = count (mset (bp_reserved s)) i"

definition slot_counts :: "pool_options \<Rightarrow> 'b browser_pool \<Rightarrow> 'b browser_slot \<Rightarrow> bool" where
  "slot_counts opts s b =
     (bs_in_flight_pages b = reserved_of (bs_id b) s \<and> bs_open_pages b = bs_in_flight_pages b + pages_of (bs_id b) s
      \<and> bs_open_pages b \<le> po_max_open_pages_per_browser opts \<and> bs_open_pages b \<le> bs_pages_created b
      \<and> bs_pages_created b \<le> po_retire_browser_after_page_count opts)"

definition slot_phase :: "'b browser_pool \<Rightarrow> 'b browser_slot \<Rightarrow> bool" where
  "slot_phase s b =
     ((bs_launching b \<longleftrightarrow> bs_id b \<in> set (bp_launches s)) \<and> (bs_launching b \<longrightarrow> bs_browser b = None \<and> bs_pages_created b = 0)
      \<and> (0 < bs_open_pages b \<longrightarrow> bs_browser b \<noteq> None) \<and> (bs_id b \<in> set (bp_taken s) \<longrightarrow> bs_browser b = None \<and> \<not> bs_launching b)
      \<and> bs_id b < bp_next_browser_id s)"

definition ids_ok :: "'b browser_pool \<Rightarrow> bool" where
  "ids_ok s = (distinct (map bs_id (bp_browsers s)) \<and> distinct (map fst (bp_pages s)) \<and> (\<forall>p \<in> set (bp_pages s). fst p < bp_next_page s)
     \<and> set (bp_reserved s) \<union> set (bp_launches s) \<union> (\<lambda>p. pe_browser_id (snd p)) ` set (bp_pages s) \<subseteq> bs_id ` set (bp_browsers s)
     \<and> (\<forall>i \<in> set (bp_taken s). i < bp_next_browser_id s))"

definition live_ok :: "pool_options \<Rightarrow> 'b browser_pool \<Rightarrow> bool" where
  "live_ok opts s = (case po_max_browsers opts of None \<Rightarrow> True | Some m \<Rightarrow> length (filter slot_live (bp_browsers s)) \<le> m)"

definition pool_inv :: "pool_options \<Rightarrow> 'b browser_pool \<Rightarrow> bool" where
  "pool_inv opts s = (ids_ok s \<and> live_ok opts s \<and> (\<forall>b \<in> set (bp_browsers s). slot_counts opts s b \<and> slot_phase s b))"

lemma counts_frame [simp]:
  "reserved_of i (s\<lparr>bp_browsers := x\<rparr>) = reserved_of i s" "pages_of i (s\<lparr>bp_browsers := x\<rparr>) = pages_of i s"
  "reserved_of i (s\<lparr>bp_taken := y\<rparr>) = reserved_of i s" "pages_of i (s\<lparr>bp_taken := y\<rparr>) = pages_of i s"
  "reserved_of i (s\<lparr>bp_launches := y\<rparr>) = reserved_of i s" "pages_of i (s\<lparr>bp_launches := y\<rparr>) = pages_of i s"
  "reserved_of i (s\<lparr>bp_next_browser_id := n\<rparr>) = reserved_of i s" "pages_of i (s\<lparr>bp_next_browser_id := n\<rparr>) = pages_of i s"
  "reserved_of i (s\<lparr>bp_next_page := n\<rparr>) = reserved_of i s" "pages_of i (s\<lparr>bp_next_page := n\<rparr>) = pages_of i s"
  "reserved_of i (s\<lparr>bp_pages := ps\<rparr>) = reserved_of i s" "pages_of i (s\<lparr>bp_reserved := y\<rparr>) = pages_of i s"
  "reserved_of i (s\<lparr>bp_shut_down := c\<rparr>) = reserved_of i s" "pages_of i (s\<lparr>bp_shut_down := c\<rparr>) = pages_of i s"
  by (simp_all add: reserved_of_def pages_of_def)

lemma reserved_changes [simp]:
  "reserved_of i (s\<lparr>bp_reserved := j # xs\<rparr>) = reserved_of i (s\<lparr>bp_reserved := xs\<rparr>) + (if i = j then 1 else 0)"
  "reserved_of i (s\<lparr>bp_reserved := bp_reserved s\<rparr>) = reserved_of i s"
  "reserved_of i (s\<lparr>bp_reserved := remove1 j (bp_reserved s)\<rparr>) = reserved_of i s - (if i = j then 1 else 0)"
  by (simp_all add: reserved_of_def)

lemma reserved_pos: "i \<in> set (bp_reserved s) \<longleftrightarrow> 0 < reserved_of i s"
  by (simp add: reserved_of_def)

lemma pages_pos: "i \<in> (\<lambda>p. pe_browser_id (snd p)) ` set (bp_pages s) \<longleftrightarrow> 0 < pages_of i s"
  by (auto simp: pages_of_def count_greater_zero_iff image_iff)

lemma update_slot_map:
  "distinct (map bs_id bs) \<Longrightarrow> update_slot i f bs = map (\<lambda>b. if bs_id b = i then f b else b) bs"
proof (induction bs)
  case (Cons b bs)
  show ?case
  proof (cases "bs_id b = i")
    case True
    then have "map (\<lambda>b. if bs_id b = i then f b else b) bs = bs" using Cons.prems True by (intro map_idI) (auto simp: rev_image_eqI)
    then show ?thesis using True by simp
  qed (use Cons in simp)
qed simp

lemma find_slot_unique:
  assumes "distinct (map bs_id bs)" "b \<in> set bs"
  shows "find_slot (bs_id b) bs = Some b"
  using assms by (induction bs) (auto simp: find_slot_def)

lemma find_slot_mem: "find_slot i bs = Some b \<Longrightarrow> b \<in> set bs \<and> bs_id b = i"
  by (auto simp: find_slot_def find_Some_iff)

lemma live_mono:
  assumes "\<And>b. b \<in> set bs \<Longrightarrow> slot_live (g b) \<Longrightarrow> slot_live b"
  shows "length (filter slot_live (map g bs)) \<le> length (filter slot_live bs)"
  using assms by (induction bs) auto

text \<open>
  A transition that rewrites every slot on its own: what has to be shown of it. The slot's identifier stays, no dead slot comes
  alive, and each new slot fits the new state.
\<close>

lemma slots_mapped:
  assumes "pool_inv opts s" and "bp_browsers t = map g (bp_browsers s)" and "\<And>b. bs_id (g b) = bs_id b"
    and "\<And>b. b \<in> set (bp_browsers s) \<Longrightarrow> slot_live (g b) \<Longrightarrow> slot_live b"
    and "\<And>b. b \<in> set (bp_browsers s) \<Longrightarrow> slot_counts opts s b \<Longrightarrow> slot_phase s b \<Longrightarrow> slot_counts opts t (g b) \<and> slot_phase t (g b)"
    and "distinct (map fst (bp_pages t))" "\<And>p. p \<in> set (bp_pages t) \<Longrightarrow> fst p < bp_next_page t"
    and "set (bp_reserved t) \<union> set (bp_launches t) \<union> (\<lambda>p. pe_browser_id (snd p)) ` set (bp_pages t) \<subseteq> bs_id ` set (bp_browsers s)"
    and "\<And>i. i \<in> set (bp_taken t) \<Longrightarrow> i < bp_next_browser_id t"
  shows "pool_inv opts t"
proof -
  have ids: "map bs_id (bp_browsers t) = map bs_id (bp_browsers s)" using assms(2,3) by simp
  then have "bs_id ` set (bp_browsers t) = bs_id ` set (bp_browsers s)" by (metis list.set_map)
  then have "ids_ok t" using assms(1,6-9) ids by (auto simp: ids_ok_def pool_inv_def)
  moreover have "live_ok opts t"
    using assms(1,2) live_mono [of "bp_browsers s" g, OF assms(4)] by (auto simp: live_ok_def pool_inv_def split: option.splits)
  moreover have "\<forall>b \<in> set (bp_browsers t). slot_counts opts t b \<and> slot_phase t b"
    using assms(1,2,5) by (auto simp: pool_inv_def)
  ultimately show ?thesis by (simp add: pool_inv_def)
qed

lemmas pool_parts = pool_inv_def ids_ok_def slot_counts_def slot_phase_def

lemma pool_new_inv: "pool_inv opts pool_new"
  by (simp add: pool_parts live_ok_def pool_new_def split: option.splits)

text \<open>\<open>close_if\<close> on its own: the slot must be empty.\<close>

lemma close_if_inv:
  assumes inv: "pool_inv opts s" and empty: "\<And>b. P b \<Longrightarrow> bs_open_pages b = 0"
  shows "pool_inv opts (close_if P i s)"
proof (cases "\<exists>b. find_slot i (bp_browsers s) = Some b \<and> P b \<and> bs_browser b \<noteq> None")
  case False
  then have "close_if P i s = s" by (auto simp: close_if_def split: option.splits)
  then show ?thesis using inv by simp
next
  case True
  then obtain b where b: "find_slot i (bp_browsers s) = Some b" "P b" "bs_browser b \<noteq> None" by blast
  have d: "distinct (map bs_id (bp_browsers s))" using inv by (simp add: pool_inv_def ids_ok_def)
  have bi: "b \<in> set (bp_browsers s)" "bs_id b = i" using find_slot_mem [OF b(1)] by simp_all
  have same: "b' \<in> set (bp_browsers s) \<Longrightarrow> bs_id b' = i \<Longrightarrow> b' = b" for b'
    using find_slot_unique [OF d, of b'] b(1) by auto
  define t where "t = s\<lparr>bp_browsers := map (\<lambda>b. if bs_id b = i then take_browser b else b) (bp_browsers s), bp_taken := i # bp_taken s\<rparr>"
  have t: "close_if P i s = t" using b by (simp add: close_if_def update_slot_map [OF d] t_def)
  have "slot_counts opts t (if bs_id b' = i then take_browser b' else b') \<and> slot_phase t (if bs_id b' = i then take_browser b' else b')"
    if b': "b' \<in> set (bp_browsers s)" "slot_counts opts s b'" "slot_phase s b'" for b'
    using b' same [OF b'(1)] empty [OF b(2)] b(3) by (auto simp: slot_counts_def slot_phase_def take_browser_def t_def)
  moreover have "bs_id b < bp_next_browser_id s" using inv bi by (auto simp: pool_inv_def slot_phase_def)
  ultimately show ?thesis unfolding t using inv bi
    by (intro slots_mapped [OF inv, where g = "\<lambda>b. if bs_id b = i then take_browser b else b"])
      (auto simp: t_def pool_inv_def ids_ok_def take_browser_def slot_live_def split: if_splits)
qed

section \<open>Every transition keeps the invariant\<close>

lemma inv_distinct: "pool_inv opts s \<Longrightarrow> distinct (map bs_id (bp_browsers s))"
  by (simp add: pool_inv_def ids_ok_def)

lemma inv_slot: "pool_inv opts s \<Longrightarrow> b \<in> set (bp_browsers s) \<Longrightarrow> slot_counts opts s b \<and> slot_phase s b"
  by (simp add: pool_inv_def)

lemma same_slot: "pool_inv opts s \<Longrightarrow> b \<in> set (bp_browsers s) \<Longrightarrow> b' \<in> set (bp_browsers s) \<Longrightarrow> bs_id b = bs_id b' \<Longrightarrow> b = b'"
  by (meson distinct_map inj_onD inv_distinct)

lemma reserve_inv:
  fixes s :: "'b browser_pool"
  assumes inv: "pool_inv opts s" and b: "b \<in> set (bp_browsers s)" "slot_available opts b"
  shows "pool_inv opts (s\<lparr>bp_browsers := update_slot (bs_id b) (\<lambda>b. b\<lparr>bs_open_pages := bs_open_pages b + 1,
      bs_in_flight_pages := bs_in_flight_pages b + 1, bs_pages_created := bs_pages_created b + 1\<rparr>) (bp_browsers s),
    bp_reserved := bs_id b # bp_reserved s\<rparr>)" (is "pool_inv opts ?t")
proof (rule slots_mapped [OF inv])
  let ?g = "\<lambda>c :: 'b browser_slot. if bs_id c = bs_id b then c\<lparr>bs_open_pages := bs_open_pages c + 1,
      bs_in_flight_pages := bs_in_flight_pages c + 1, bs_pages_created := bs_pages_created c + 1\<rparr> else c"
  show "bp_browsers ?t = map ?g (bp_browsers s)" by (simp add: update_slot_map [OF inv_distinct [OF inv]])
  fix c
  show "bs_id (?g c) = bs_id c" by simp
  show "slot_live (?g c) \<Longrightarrow> slot_live c" by (simp add: slot_live_def split: if_splits)
  assume c: "c \<in> set (bp_browsers s)" "slot_counts opts s c" "slot_phase s c"
  show "slot_counts opts ?t (?g c) \<and> slot_phase ?t (?g c)"
    using c same_slot [OF inv c(1) b(1)] b(2)
    by (cases "bs_id c = bs_id b") (auto simp: slot_counts_def slot_phase_def slot_available_def)
qed (use inv b in \<open>auto simp: pool_inv_def ids_ok_def\<close>)

lemma new_slot_inv:
  assumes inv: "pool_inv opts s" and bound: "bp_next_browser_id s < 2 ^ 64 - 1"
    and room: "case po_max_browsers opts of None \<Rightarrow> True | Some m \<Rightarrow> length (filter slot_live (bp_browsers s)) < m"
  shows "pool_inv opts (s\<lparr>bp_next_browser_id := (bp_next_browser_id s + 1) mod 2 ^ 64,
      bp_browsers := bp_browsers s @ [\<lparr>bs_id = bp_next_browser_id s, bs_browser = None, bs_open_pages = 0, bs_in_flight_pages = 0,
        bs_pages_created = 0, bs_launching = True, bs_retired = False\<rparr>],
      bp_launches := bp_next_browser_id s # bp_launches s\<rparr>)" (is "pool_inv opts ?t")
proof -
  let ?n = "bp_next_browser_id s"
  have less: "b \<in> set (bp_browsers s) \<Longrightarrow> bs_id b < ?n" for b using inv_slot [OF inv] by (simp add: slot_phase_def)
  have fresh: "?n \<notin> bs_id ` set (bp_browsers s)" using less by (metis imageE less_irrefl)
  then have zero: "reserved_of ?n s = 0" "pages_of ?n s = 0" "?n \<notin> set (bp_taken s)"
    using inv reserved_pos [of ?n s] pages_pos [of ?n s] by (auto simp: pool_inv_def ids_ok_def)
  have bound': "(?n + 1) mod 2 ^ 64 = ?n + 1" using bound by simp
  have "ids_ok ?t" using inv fresh bound' by (auto simp: pool_inv_def ids_ok_def less_Suc_eq)
  moreover have "live_ok opts ?t" using room by (auto simp: live_ok_def slot_live_def split: option.splits)
  moreover have "slot_counts opts ?t b \<and> slot_phase ?t b" if b: "b \<in> set (bp_browsers s)" for b
    using inv_slot [OF inv b] less [OF b] bound' by (auto simp: slot_counts_def slot_phase_def)
  moreover have "slot_counts opts ?t (List.last (bp_browsers ?t)) \<and> slot_phase ?t (List.last (bp_browsers ?t))"
    using zero bound' by (simp add: slot_counts_def slot_phase_def)
  ultimately show ?thesis unfolding pool_inv_def by simp
qed

lemma choose_inv:
  assumes inv: "pool_inv opts s" and c: "choose_slot opts s = Inr (c, s')" and bound: "bp_next_browser_id s < 2 ^ 64 - 1"
  shows "pool_inv opts s'"
proof (cases "find (slot_available opts) (bp_browsers s)")
  case (Some b)
  then have "b \<in> set (bp_browsers s)" "slot_available opts b" by (auto simp: find_Some_iff)
  then show ?thesis using reserve_inv [OF inv] c Some by (auto simp: choose_slot_def split: if_splits)
next
  case None
  then show ?thesis using c inv new_slot_inv [OF inv bound] by (auto simp: choose_slot_def Let_def split: if_splits option.splits)
qed

lemma filtered_fewer: "length (filter P (filter Q xs)) \<le> length (filter P xs)"
  by (induction xs) auto

lemma drop_slot_inv:
  assumes inv: "pool_inv opts s" and i: "i \<in> set (bp_launches s)"
  shows "pool_inv opts (drop_slot i s)" (is "pool_inv opts ?t")
proof -
  obtain b where b: "b \<in> set (bp_browsers s)" "bs_id b = i" using inv i by (auto simp: pool_inv_def ids_ok_def)
  then have "bs_open_pages b = 0" using inv_slot [OF inv b(1)] i by (auto simp: slot_phase_def slot_counts_def)
  then have zero: "reserved_of i s = 0" "pages_of i s = 0" using inv_slot [OF inv b(1)] b(2) by (auto simp: slot_counts_def)
  then have refs: "i \<notin> set (bp_reserved s)" "i \<notin> (\<lambda>p. pe_browser_id (snd p)) ` set (bp_pages s)"
    using reserved_pos [of i s] pages_pos [of i s] by simp_all
  have ids: "bs_id ` set (bp_browsers ?t) = bs_id ` set (bp_browsers s) - {i}" by (auto simp: drop_slot_def)
  have "ids_ok ?t" using inv refs unfolding ids_ok_def ids by (auto simp: pool_inv_def ids_ok_def drop_slot_def distinct_map_filter)
  moreover have "live_ok opts ?t" using inv filtered_fewer [of slot_live "\<lambda>b. bs_id b \<noteq> i" "bp_browsers s"]
    by (auto simp: pool_inv_def live_ok_def drop_slot_def simp del: filter_filter split: option.splits)
  moreover have "slot_counts opts ?t b \<and> slot_phase ?t b" if b: "b \<in> set (bp_browsers ?t)" for b
    using inv_slot [OF inv, of b] b by (auto simp: drop_slot_def slot_counts_def slot_phase_def)
  ultimately show ?thesis by (simp add: pool_inv_def)
qed

lemma launch_done_inv:
  fixes s :: "'b browser_pool"
  assumes inv: "pool_inv opts s" and i: "i \<in> set (bp_launches s)"
  shows "pool_inv opts (snd (launch_done i browser s))"
proof (cases "bp_shut_down s \<or> find_slot i (bp_browsers s) = None")
  case True
  then show ?thesis using inv by (simp add: launch_done_def)
next
  case False
  let ?g = "\<lambda>b :: 'b browser_slot. if bs_id b = i then b\<lparr>bs_browser := Some browser, bs_launching := False\<rparr> else b"
  define t where "t = s\<lparr>bp_browsers := map ?g (bp_browsers s), bp_launches := removeAll i (bp_launches s)\<rparr>"
  have "snd (launch_done i browser s) = t" using False by (auto simp: launch_done_def t_def update_slot_map [OF inv_distinct [OF inv]])
  moreover have "slot_counts opts t (?g b) \<and> slot_phase t (?g b)" if b: "slot_counts opts s b" "slot_phase s b" for b
    using b i by (auto simp: slot_counts_def slot_phase_def t_def)
  moreover have "slot_live b" if b: "b \<in> set (bp_browsers s)" "slot_live (?g b)" for b
    using b inv_slot [OF inv b(1)] i by (auto simp: slot_live_def slot_phase_def split: if_splits)
  ultimately show ?thesis using inv
    by (intro slots_mapped [OF inv, where g = ?g]) (auto simp: t_def pool_inv_def ids_ok_def)
qed

lemma rollback_inv:
  fixes s :: "'b browser_pool"
  assumes inv: "pool_inv opts s" and i: "i \<in> set (bp_reserved s)"
  shows "pool_inv opts (rollback_page_reservation opts i s)"
proof -
  let ?g = "\<lambda>b :: 'b browser_slot. if bs_id b = i then b\<lparr>bs_open_pages := bs_open_pages b - 1, bs_in_flight_pages := bs_in_flight_pages b - 1,
      bs_pages_created := bs_pages_created b - 1, bs_retired := po_retire_browser_after_page_count opts \<le> bs_pages_created b - 1\<rparr> else b"
  define t where "t = s\<lparr>bp_browsers := map ?g (bp_browsers s), bp_reserved := remove1 i (bp_reserved s)\<rparr>"
  have pos: "0 < reserved_of i s" using i by (simp add: reserved_pos)
  have res: "reserved_of j t = reserved_of j s - (if j = i then 1 else 0)" and pag: "pages_of j t = pages_of j s" for j
    by (simp_all add: t_def reserved_of_def pages_of_def)
  have "slot_counts opts t (?g b) \<and> slot_phase t (?g b)" if b: "slot_counts opts s b" "slot_phase s b" for b
    using b pos unfolding slot_counts_def res pag by (cases "bs_id b = i") (auto simp: slot_phase_def t_def)
  moreover have "set (remove1 i (bp_reserved s)) \<subseteq> set (bp_reserved s)" by (rule set_remove1_subset)
  ultimately have "pool_inv opts t" using inv
    by (intro slots_mapped [OF inv, where g = ?g]) (auto simp: t_def pool_inv_def ids_ok_def slot_live_def split: if_splits)
  moreover have "rollback_page_reservation opts i s = close_if (\<lambda>b. bs_open_pages b = 0 \<and> (bs_retired b \<or> bp_shut_down s)) i t"
    by (simp only: rollback_page_reservation_def t_def update_slot_map [OF inv_distinct [OF inv]])
  ultimately show ?thesis by (auto intro: close_if_inv)
qed

lemma new_page_absent: "pool_inv opts s \<Longrightarrow> map_of (bp_pages s) (bp_next_page s) = None"
  by (fastforce simp: pool_inv_def ids_ok_def map_of_eq_None_iff)

lemma register_inv:
  fixes s :: "'b browser_pool"
  assumes inv: "pool_inv opts s" and i: "i \<in> set (bp_reserved s)"
  shows "pool_inv opts (snd (register_page i s))"
proof (cases "bp_shut_down s")
  case True
  then show ?thesis using inv by (simp add: register_page_def)
next
  case False
  let ?g = "\<lambda>b :: 'b browser_slot. if bs_id b = i then b\<lparr>bs_in_flight_pages := bs_in_flight_pages b - 1\<rparr> else b"
  define t where "t = s\<lparr>bp_browsers := map ?g (bp_browsers s), bp_pages := bp_pages s @ [(bp_next_page s, \<lparr>pe_browser_id = i, pe_closing = False\<rparr>)],
    bp_next_page := bp_next_page s + 1, bp_reserved := remove1 i (bp_reserved s)\<rparr>"
  have t: "snd (register_page i s) = t" using False
    by (simp add: register_page_def t_def update_new [OF new_page_absent [OF inv]] update_slot_map [OF inv_distinct [OF inv]])
  have pos: "0 < reserved_of i s" using i by (simp add: reserved_pos)
  have res: "reserved_of j t = reserved_of j s - (if j = i then 1 else 0)" for j by (simp add: t_def reserved_of_def)
  have pag: "pages_of j t = pages_of j s + (if j = i then 1 else 0)" for j by (simp add: t_def pages_of_def)
  have "slot_counts opts t (?g b) \<and> slot_phase t (?g b)" if b: "slot_counts opts s b" "slot_phase s b" for b
    using b pos unfolding slot_counts_def res pag by (auto simp: slot_phase_def t_def)
  moreover have "set (remove1 i (bp_reserved s)) \<subseteq> set (bp_reserved s)" by (rule set_remove1_subset)
  moreover have "i \<in> bs_id ` set (bp_browsers s)" using inv i by (auto simp: pool_inv_def ids_ok_def)
  moreover have "bp_next_page s \<notin> fst ` set (bp_pages s)" using new_page_absent [OF inv] by (simp add: map_of_eq_None_iff)
  ultimately show ?thesis unfolding t using inv
    by (intro slots_mapped [OF inv, where g = ?g]) (auto simp: t_def pool_inv_def ids_ok_def slot_live_def split: if_splits)
qed

text \<open>Only the flag of an entry changes.\<close>

lemma flag_inv:
  assumes inv: "pool_inv opts s" and e: "map_of (bp_pages s) pg = Some e" "pe_browser_id e' = pe_browser_id e"
  shows "pool_inv opts (s\<lparr>bp_pages := AList.update pg e' (bp_pages s)\<rparr>)" (is "pool_inv opts ?t")
proof -
  have m: "map (\<lambda>p. pe_browser_id (snd p)) (AList.update pg e' (bp_pages s)) = map (\<lambda>p. pe_browser_id (snd p)) (bp_pages s)"
    using e by (intro map_update_same [OF e(1)]) simp
  have f: "map fst (AList.update pg e' (bp_pages s)) = map fst (bp_pages s)" by (rule map_update_same [OF e(1)]) simp
  have counts: "pages_of i ?t = pages_of i s" for i by (simp add: pages_of_def flip: mset_map) (simp only: m)
  have "(\<lambda>p. pe_browser_id (snd p)) ` set (bp_pages ?t) = (\<lambda>p. pe_browser_id (snd p)) ` set (bp_pages s)"
    using arg_cong [OF m, of set] by simp
  moreover have "fst ` set (bp_pages ?t) = fst ` set (bp_pages s)" using arg_cong [OF f, of set] by simp
  moreover have "fst p < bp_next_page ?t" if p: "p \<in> set (bp_pages ?t)" for p
  proof -
    have "fst p \<in> fst ` set (bp_pages s)" using p calculation(2) by (metis imageI)
    then show ?thesis using inv by (auto simp: pool_inv_def ids_ok_def)
  qed
  ultimately have "ids_ok ?t" using inv f by (simp add: pool_inv_def ids_ok_def)
  moreover have "slot_counts opts ?t b = slot_counts opts s b" "slot_phase ?t b = slot_phase s b" for b
    using counts by (simp_all add: slot_counts_def slot_phase_def)
  moreover have "live_ok opts ?t = live_ok opts s" "bp_browsers ?t = bp_browsers s" by (auto simp: live_ok_def split: option.splits)
  ultimately show ?thesis using inv unfolding pool_inv_def by simp
qed

lemma close_end_inv:
  fixes s :: "'b browser_pool"
  assumes inv: "pool_inv opts s" and e: "map_of (bp_pages s) pg = Some e"
  shows "pool_inv opts (close_end opts pg (pe_browser_id e) s)"
proof -
  let ?i = "pe_browser_id e"
  let ?g = "\<lambda>b :: 'b browser_slot. if bs_id b = ?i then b\<lparr>bs_open_pages := bs_open_pages b - 1,
      bs_retired := bs_retired b \<or> po_retire_browser_after_page_count opts \<le> bs_pages_created b\<rparr> else b"
  define t where "t = s\<lparr>bp_pages := AList.delete pg (bp_pages s), bp_browsers := map ?g (bp_browsers s)\<rparr>"
  have d: "distinct (map fst (bp_pages s))" using inv by (simp add: pool_inv_def ids_ok_def)
  have "mset (bp_pages s) = add_mset (pg, e) (mset (AList.delete pg (bp_pages s)))" by (rule mset_delete [OF d e])
  then have pag: "pages_of j s = pages_of j t + (if j = ?i then 1 else 0)" for j by (simp add: t_def pages_of_def)
  have res: "reserved_of j t = reserved_of j s" for j by (simp add: t_def)
  have "slot_counts opts t (?g b) \<and> slot_phase t (?g b)" if b: "slot_counts opts s b" "slot_phase s b" for b
    using b unfolding slot_counts_def res pag by (cases "bs_id b = ?i") (auto simp: slot_phase_def t_def)
  then have "pool_inv opts t" using inv d
    by (intro slots_mapped [OF inv, where g = ?g])
      (auto simp: t_def pool_inv_def ids_ok_def slot_live_def distinct_delete set_delete_alist split: if_splits)
  moreover have "close_end opts pg ?i s = close_if (\<lambda>b. (bs_retired b \<or> bp_shut_down s) \<and> bs_open_pages b = 0) ?i t"
    by (simp only: close_end_def t_def update_slot_map [OF inv_distinct [OF inv]])
  ultimately show ?thesis by (auto intro: close_if_inv)
qed

text \<open>Several empty slots lose their browsers at once.\<close>

lemma take_many_inv:
  fixes s :: "'b browser_pool"
  assumes inv: "pool_inv opts s" and empty: "\<And>b. b \<in> set (bp_browsers s) \<Longrightarrow> P b \<Longrightarrow> bs_open_pages b = 0 \<and> \<not> (bs_browser b \<noteq> None \<and> bs_launching b)"
  shows "pool_inv opts (s\<lparr>bp_browsers := map (\<lambda>b. if P b then take_browser b else b) (bp_browsers s),
    bp_taken := map bs_id (filter (\<lambda>b. P b \<and> bs_browser b \<noteq> None) (bp_browsers s)) @ bp_taken s\<rparr>)" (is "pool_inv opts ?t")
proof -
  let ?g = "\<lambda>b :: 'b browser_slot. if P b then take_browser b else b"
  have taken: "bs_id b \<in> set (bp_taken ?t) \<Longrightarrow> P b \<and> bs_browser b \<noteq> None \<or> bs_id b \<in> set (bp_taken s)" if b: "b \<in> set (bp_browsers s)" for b
    using same_slot [OF inv b] by auto
  have "slot_counts opts ?t (?g b) \<and> slot_phase ?t (?g b)"
    if b: "b \<in> set (bp_browsers s)" "slot_counts opts s b" "slot_phase s b" for b
    using b(2,3) empty [OF b(1)] taken [OF b(1)] by (auto simp: slot_counts_def slot_phase_def take_browser_def)
  moreover have "bs_id b < bp_next_browser_id s" if "b \<in> set (bp_browsers s)" for b using inv_slot [OF inv that] by (simp add: slot_phase_def)
  ultimately show ?thesis using inv
    by (intro slots_mapped [OF inv, where g = ?g]) (auto simp: pool_inv_def ids_ok_def slot_live_def take_browser_def split: if_splits)
qed

lemma take_idle_inv: "pool_inv opts s \<Longrightarrow> pool_inv opts (take_idle s)"
  using take_many_inv [of opts s "\<lambda>b. bs_open_pages b = 0 \<and> bs_in_flight_pages b = 0"] inv_slot [of opts s]
  by (auto simp: take_idle_def slot_phase_def conj_assoc)

lemma finalize_inv:
  assumes inv: "pool_inv opts s" and "bp_reserved s = []"
  shows "pool_inv opts (finalize_orphaned_pool s)"
proof (cases "bp_pages s = []")
  case True
  have "bs_open_pages b = 0 \<and> \<not> (bs_browser b \<noteq> None \<and> bs_launching b)" if b: "b \<in> set (bp_browsers s)" for b
    using inv_slot [OF inv b] True assms(2) by (auto simp: slot_counts_def slot_phase_def reserved_of_def pages_of_def)
  then show ?thesis using take_many_inv [OF inv, of "\<lambda>_. True"] True by (simp add: finalize_orphaned_pool_def)
qed (use inv in \<open>simp add: finalize_orphaned_pool_def\<close>)

lemma shutdown_inv: "pool_inv opts s \<Longrightarrow> pool_inv opts (shutdown_begin s)"
proof -
  have "slot_counts opts (shutdown_begin s) b = slot_counts opts s b" "slot_phase (shutdown_begin s) b = slot_phase s b" for b
    by (simp_all add: shutdown_begin_def slot_counts_def slot_phase_def)
  moreover have "ids_ok (shutdown_begin s) = ids_ok s" "live_ok opts (shutdown_begin s) = live_ok opts s" "bp_browsers (shutdown_begin s) = bp_browsers s"
    by (auto simp: shutdown_begin_def ids_ok_def live_ok_def split: option.splits)
  ultimately show "pool_inv opts s \<Longrightarrow> pool_inv opts (shutdown_begin s)" by (simp add: pool_inv_def)
qed

lemma pool_move_inv:
  assumes "pool_move opts s s'" and "pool_inv opts s"
  shows "pool_inv opts s'"
  using assms
proof (induction rule: pool_move.induct)
  case (closing s pg)
  then show ?case using flag_inv [OF closing.prems] by (auto simp: close_begin_def split: option.splits)
next
  case (close_dropped s pg)
  then show ?case using flag_inv [OF close_dropped.prems] by (auto simp: close_cancelled_def split: option.splits)
qed (simp_all add: choose_inv launch_done_inv launch_dropped_def drop_slot_inv rollback_inv register_inv close_end_inv shutdown_inv take_idle_inv finalize_inv)

lemma pool_reach_inv: "(pool_move opts)\<^sup>*\<^sup>* pool_new s \<Longrightarrow> pool_inv opts s"
  by (induction rule: rtranclp_induct) (auto intro: pool_new_inv pool_move_inv)

section \<open>Properties\<close>

text \<open>
  C22. However acquisitions, launches, cancellations, closes and a shutdown interleave, the pool keeps its limits: no browser has more
  pages open than allowed, counting those being created, none serves more pages than its quota, and no more browsers live or launch
  than allowed. The counters are exact: a slot's open pages are the registered ones plus the reservations, so no saturating
  subtraction of the code ever saturates.
\<close>

theorem browser_pool_limits:
  assumes "(pool_move opts)\<^sup>*\<^sup>* pool_new s"
  shows "(\<forall>b \<in> set (bp_browsers s). bs_open_pages b \<le> po_max_open_pages_per_browser opts
      \<and> bs_pages_created b \<le> po_retire_browser_after_page_count opts \<and> bs_in_flight_pages b = count (mset (bp_reserved s)) (bs_id b)
      \<and> bs_open_pages b = bs_in_flight_pages b + count (mset (map (\<lambda>p. pe_browser_id (snd p)) (bp_pages s))) (bs_id b))
    \<and> (case po_max_browsers opts of None \<Rightarrow> True | Some m \<Rightarrow> length (filter slot_live (bp_browsers s)) \<le> m)"
  using pool_reach_inv [OF assms]
  by (auto simp: pool_inv_def slot_counts_def live_ok_def reserved_of_def pages_of_def)

text \<open>
  C21. A browser is never closed under a page: the browser of every registered page and of every page being created is still in its
  slot and has never been taken for closing, whatever else happens in the pool, a shutdown included.
\<close>

theorem page_keeps_browser:
  assumes "(pool_move opts)\<^sup>*\<^sup>* pool_new s"
    and "i \<in> set (bp_reserved s) \<or> (\<exists>pg e. map_of (bp_pages s) pg = Some e \<and> pe_browser_id e = i)"
  shows "(\<exists>b \<in> set (bp_browsers s). bs_id b = i \<and> bs_browser b \<noteq> None) \<and> i \<notin> set (bp_taken s)"
proof -
  have inv: "pool_inv opts s" by (rule pool_reach_inv [OF assms(1)])
  have pos: "0 < reserved_of i s + pages_of i s"
    using assms(2) reserved_pos [of i s] pages_pos [of i s] by (force dest: map_of_SomeD)
  have "i \<in> bs_id ` set (bp_browsers s)" using inv assms(2) by (auto simp: pool_inv_def ids_ok_def dest!: map_of_SomeD)
  then obtain b where b: "b \<in> set (bp_browsers s)" "bs_id b = i" by blast
  then show ?thesis using inv_slot [OF inv b(1)] pos by (auto simp: slot_counts_def slot_phase_def)
qed

definition drained :: "'b browser_pool \<Rightarrow> bool" where
  "drained s = (bp_shut_down s \<and> (\<forall>b \<in> set (bp_browsers s). bs_open_pages b = 0 \<longrightarrow> bs_browser b = None))"

lemma take_idle_drained: "pool_inv opts s \<Longrightarrow> bp_shut_down s \<Longrightarrow> drained (take_idle s)"
  using inv_slot [of opts s] by (fastforce simp: drained_def take_idle_def take_browser_def slot_counts_def)

text \<open>A slot that was updated is emptied by \<open>close_if\<close> when its last page went.\<close>

lemma close_if_drained:
  assumes d: "distinct (map bs_id (bp_browsers s))" and "bp_shut_down s"
    and others: "\<And>b. b \<in> set (bp_browsers s) \<Longrightarrow> bs_id b \<noteq> i \<Longrightarrow> bs_open_pages b = 0 \<Longrightarrow> bs_browser b = None"
    and P: "\<And>b. bs_open_pages b = 0 \<Longrightarrow> P b"
  shows "drained (close_if P i s)"
proof (cases "find_slot i (bp_browsers s)")
  case None
  then have "b \<in> set (bp_browsers s) \<Longrightarrow> bs_id b \<noteq> i" for b using find_slot_unique [OF d, of b] by auto
  then show ?thesis using None assms(2) others by (auto simp: close_if_def drained_def)
next
  case (Some c)
  have "b \<in> set (bp_browsers s) \<Longrightarrow> bs_id b = i \<Longrightarrow> b = c" for b using find_slot_unique [OF d, of b] Some by auto
  then show ?thesis using Some assms(2) others P
    by (auto simp: close_if_def drained_def update_slot_map [OF d] take_browser_def)
qed

lemma update_ids: "(\<And>b. bs_id (f b) = bs_id b) \<Longrightarrow> map bs_id (update_slot i f bs) = map bs_id bs"
  by (induction bs) auto

lemma pool_move_drained:
  assumes "pool_move opts s s'" and "pool_inv opts s" and "drained s"
  shows "drained s'"
  using assms
proof (induction rule: pool_move.induct)
  case (acquire s c s')
  then show ?case by (simp add: choose_slot_def drained_def)
next
  case (rolled_back i s)
  show ?case unfolding rollback_page_reservation_def
    by (rule close_if_drained, simp add: update_ids inv_distinct [OF rolled_back.prems(1)])
      (use rolled_back.prems in \<open>auto simp: drained_def update_slot_map [OF inv_distinct [OF rolled_back.prems(1)]] split: if_splits\<close>)
next
  case (closed s pg e)
  show ?case unfolding close_end_def
    by (rule close_if_drained, simp add: update_ids inv_distinct [OF closed.prems(1)])
      (use closed.prems in \<open>auto simp: drained_def update_slot_map [OF inv_distinct [OF closed.prems(1)]] split: if_splits\<close>)
qed (auto simp: drained_def launch_done_def launch_dropped_def drop_slot_def register_page_def close_begin_def close_cancelled_def shutdown_begin_def
    take_idle_def finalize_orphaned_pool_def take_browser_def split: option.splits)

text \<open>
  C23. A shutdown closes everything: once it has taken the idle browsers, whatever was still under way then, as soon as no page is
  registered and no reservation is left, every browser has been taken for closing, none was launched into the pool, and acquiring a
  page is an error.
\<close>

theorem shutdown_closes_all:
  assumes "(pool_move opts)\<^sup>*\<^sup>* pool_new s" and "bp_shut_down s" and "(pool_move opts)\<^sup>*\<^sup>* (take_idle s) s'"
    and "bp_pages s' = []" and "bp_reserved s' = []"
  shows "(\<forall>b \<in> set (bp_browsers s'). bs_browser b = None) \<and> choose_slot opts s' = Inl Shutdown"
proof -
  have inv: "pool_inv opts s" by (rule pool_reach_inv [OF assms(1)])
  from assms(3) have "pool_inv opts s' \<and> drained s'"
  proof (induction rule: rtranclp_induct)
    case base
    show ?case using take_idle_inv [OF inv] take_idle_drained [OF inv assms(2)] by simp
  next
    case (step t u)
    then show ?case using pool_move_inv pool_move_drained by blast
  qed
  moreover have "bs_open_pages b = 0" if "pool_inv opts s'" "b \<in> set (bp_browsers s')" for b
    using inv_slot [OF that] assms(4,5) by (simp add: slot_counts_def reserved_of_def pages_of_def)
  ultimately show ?thesis by (auto simp: drained_def choose_slot_def)
qed

section \<open>Witnesses\<close>

definition sample_options :: pool_options where
  "sample_options = \<lparr>po_max_open_pages_per_browser = 1, po_retire_browser_after_page_count = 2, po_max_browsers = Some 1\<rparr>"

definition sample_slot :: "unit browser_slot" where
  "sample_slot = \<lparr>bs_id = 1, bs_browser = Some (), bs_open_pages = 0, bs_in_flight_pages = 0, bs_pages_created = 0, bs_launching = False,
     bs_retired = False\<rparr>"

text \<open>A pool with one idle browser, and the same pool with one page.\<close>

definition idle_pool :: "unit browser_pool" where
  "idle_pool = pool_new\<lparr>bp_browsers := [sample_slot], bp_next_browser_id := 2\<rparr>"

definition page_pool :: "unit browser_pool" where
  "page_pool = idle_pool\<lparr>bp_browsers := [sample_slot\<lparr>bs_open_pages := 1, bs_pages_created := 1\<rparr>],
     bp_pages := [(1, \<lparr>pe_browser_id = 1, pe_closing = False\<rparr>)], bp_next_page := 2\<rparr>"

lemma reach_idle: "(pool_move sample_options)\<^sup>*\<^sup>* pool_new idle_pool"
proof -
  define launching where "launching = (pool_new :: unit browser_pool)\<lparr>bp_browsers := [sample_slot\<lparr>bs_browser := None, bs_launching := True\<rparr>],
    bp_next_browser_id := 2, bp_launches := [1]\<rparr>"
  have "pool_move sample_options pool_new launching"
    by (rule pool_move.acquire [of _ _ "Launching 1"])
      (simp_all add: choose_slot_def pool_new_def launching_def sample_options_def sample_slot_def)
  moreover have "pool_move sample_options launching (snd (launch_done 1 () launching))"
    by (rule pool_move.launched) (simp add: launching_def)
  moreover have "snd (launch_done 1 () launching) = idle_pool"
    by (simp add: launch_done_def launching_def find_slot_def pool_new_def sample_slot_def idle_pool_def)
  ultimately show ?thesis by (metis rtranclp.rtrancl_into_rtrancl rtranclp.rtrancl_refl)
qed

lemma reach_page: "(pool_move sample_options)\<^sup>*\<^sup>* pool_new page_pool"
proof -
  define reserved where "reserved = idle_pool\<lparr>bp_browsers := [sample_slot\<lparr>bs_open_pages := 1, bs_in_flight_pages := 1, bs_pages_created := 1\<rparr>],
    bp_reserved := [1]\<rparr>"
  have "pool_move sample_options idle_pool reserved"
    by (rule pool_move.acquire [of _ _ "Existing 1"])
      (simp_all add: choose_slot_def reserved_def idle_pool_def pool_new_def slot_available_def sample_options_def sample_slot_def)
  moreover have "pool_move sample_options reserved (snd (register_page 1 reserved))"
    by (rule pool_move.registered) (simp add: reserved_def)
  moreover have "snd (register_page 1 reserved) = page_pool"
    by (simp add: register_page_def reserved_def page_pool_def idle_pool_def pool_new_def sample_slot_def)
  ultimately show ?thesis using reach_idle by (metis rtranclp.rtrancl_into_rtrancl)
qed

theorem browser_pool_limits_witness:
  "list_all (\<lambda>b. bs_open_pages b \<le> 1) (bp_browsers page_pool) \<and> length (filter slot_live (bp_browsers page_pool)) \<le> 1"
  using browser_pool_limits [OF reach_page] by (auto simp: sample_options_def list_all_iff)

theorem page_keeps_browser_witness: "(\<exists>b. b \<in> set (bp_browsers page_pool) \<and> bs_id b = 1 \<and> bs_browser b \<noteq> None) \<and> 1 \<notin> set (bp_taken page_pool)"
proof -
  have "map_of (bp_pages page_pool) 1 = Some \<lparr>pe_browser_id = 1, pe_closing = False\<rparr>" by (simp add: page_pool_def)
  then have "\<exists>pg e. map_of (bp_pages page_pool) pg = Some e \<and> pe_browser_id e = 1" by fastforce
  with page_keeps_browser [OF reach_page, of 1] show ?thesis by blast
qed

theorem shutdown_closes_all_witness:
  "list_all (\<lambda>b. bs_browser b = None) (bp_browsers (take_idle (shutdown_begin idle_pool)))
   \<and> choose_slot sample_options (take_idle (shutdown_begin idle_pool)) = Inl Shutdown"
proof -
  have "(pool_move sample_options)\<^sup>*\<^sup>* pool_new (shutdown_begin idle_pool)"
    using reach_idle pool_move.shutting_down by (rule rtranclp.rtrancl_into_rtrancl)
  then show ?thesis
    using shutdown_closes_all [of sample_options "shutdown_begin idle_pool" "take_idle (shutdown_begin idle_pool)"]
    by (simp add: list_all_iff shutdown_begin_def take_idle_def idle_pool_def pool_new_def)
qed

end
