(* ===== verification/Spec2Isabelle.thy ===== *)
theory Spec2Isabelle
  imports Fs_Recovery Engine_Memory Enqueue_Limits Http_Attempt Coalesce Router Storage_Clients Storage_Report Browser_Pool
begin

text \<open>
  A verification development for \<^bold>\<open>millipede\<close>, a web crawler in Rust.

  \<^bold>\<open>The program.\<close> A crawl starts with requests in a queue. The dispatcher
  (\<open>millipede-core/src/crawler/engine.rs\<close>) leases requests from the queue, defers them until the
  politeness limits of their host and the task rate allow a start, runs each as an attempt of a
  crawler kind with a user handler, and settles the lease according to the attempt's result: handled,
  put back for a retry, or given up. Sessions and proxies rotate between attempts, statistics count what
  happened, and the autoscaled pool says how many attempts may run. Handlers are chosen by a router and enqueue
  further links. The HTTP kind sends a request through a client, which may join requests in flight; the browser
  kinds take pages from a pool. Queues, key-value stores and datasets live in memory or in files.

  \<^bold>\<open>Theories.\<close>
  \<^item> \<open>Prelude\<close>: types of machine integers and time, lemmas on words, association lists and UTF-8 text.
  \<^item> \<open>Request\<close> (\<open>request.rs\<close>): requests, unique keys, the builder. \<open>Errors\<close> (\<open>errors.rs\<close>,
    \<open>retry_strategy.rs\<close>): crawl errors and their classification.
  \<^item> \<open>Frontier\<close> (\<open>millipede-storage-memory/src/policy.rs\<close>): FIFO and domain round robin, with the
    locale \<open>frontier_contract\<close> that both implement.
  \<^item> \<open>Queue_Contract\<close> (\<open>storage/queue.rs\<close>): the queue trait as a record of operations, and the locale
    \<open>request_queue\<close>, in which every operation moves a key between pending, leased and handled.
    \<open>Memory_Queue\<close> and \<open>Fs_Queue\<close>, \<open>Fs_Invariant\<close>, \<open>Fs_Recovery\<close> model the two queues, interpret the
    locale and prove conservation, finality, crash safety and recovery from the files.
  \<^item> \<open>Session_Pool\<close> (\<open>session.rs\<close>), \<open>Proxy\<close> (\<open>proxy.rs\<close>), \<open>Statistics\<close> (\<open>statistics.rs\<close>).
  \<^item> \<open>Float_Model\<close>: rounding arithmetic of \<open>f32\<close> and \<open>f64\<close> on rationals. \<open>Rate_Limit\<close> and \<open>Autoscale\<close>
    (\<open>autoscale/\<close>): token bucket, per-host schedule, AIMD, load signals, the pool.
  \<^item> \<open>Attempt\<close>: one attempt (\<open>spawn_attempt\<close>) and the retry decision. \<open>Engine\<close>: the dispatcher's state,
    completions, pump and dispatch loop. \<open>Engine_Invariant\<close>: limits and absence of panics.
    \<open>Engine_Leases\<close>: each lease is settled once, over any queue. \<open>Engine_Memory\<close>: the dispatcher over
    the in-memory queue loses nothing and, when it ends by itself, has handled everything.
  \<^item> \<open>Router\<close> (\<open>router.rs\<close>): routes, shadowing, middleware. \<open>Links\<close> (\<open>link_extraction.rs\<close>), \<open>Enqueue\<close> and
    \<open>Enqueue_Limits\<close> (\<open>enqueue.rs\<close>, the crawler handle of \<open>crawler/mod.rs\<close>): the batches of links as a state machine,
    the filters, the accounting of every candidate and the bound on admitted requests.
  \<^item> \<open>Antibot\<close> (\<open>antibot.rs\<close>): the detector and its reading as rules. \<open>Http_Kind\<close> and \<open>Http_Attempt\<close>
    (\<open>millipede-http/src/kind.rs\<close>): an attempt of the HTTP kind, its classification of answers, and what it does to sessions.
    \<open>Coalesce\<close> (\<open>millipede-http/src/coalesce.rs\<close>): the callers of the coalescing client as a transition system: one
    request in flight per key, results that are fresh, no caller stuck.
  \<^item> \<open>Kvs\<close> (\<open>storage/kvs.rs\<close>, \<open>auto_saved.rs\<close>, the memory store) with the locale \<open>key_value_store\<close>, and \<open>Fs_Kvs\<close> (the file
    store): atomic writes, agreement of the stores, complete pagination. \<open>Dataset\<close> (both datasets) with the locale
    \<open>dataset_log\<close>: appends under failing system calls, agreement of the datasets, the CSV export read back.
    \<open>Storage_Clients\<close>: opening and purging. \<open>Storage_Report\<close> (\<open>storage/rate_limit.rs\<close>): the reporting wrapper, which keeps
    the three contracts, and its effect on the scaling decision through \<open>Load_Signals\<close> (\<open>autoscale/signals.rs\<close>).
  \<^item> \<open>Browser_Pool\<close> (\<open>millipede-browser/src/pool.rs\<close>): slots, reservations, closing and shutdown as an inductive
    transition relation: limits, browsers that outlive their pages, a shutdown that closes everything.

  \<^bold>\<open>Bounds.\<close> Only the client that walks the pages of a key-value store (\<open>walk_pages\<close> in \<open>Kvs\<close>) has fuel, and any
  fuel above the number of keys is shown to be enough; all other loops are recursions on lists or have a measure.
  The transition systems leave the order of events to the environment. Identifiers of browsers are \<open>u64\<close> and wrap, so the pool's steps end before \<open>2 ^ 64\<close> launches;
  sequence numbers of a dataset end at 999999999, as in the code.

  \<^bold>\<open>Not modelled.\<close> The bindings of reqwest and of the Chromium driver are input and output only. The cookie jar wraps a
  third-party store. Sitemap parsing is driven by a third-party XML reader. The HTML kind adds a third-party selector engine to the
  HTTP kind, and the browser kinds drive pages of a third-party browser. The builders and the configuration of the crawler
  assign options; the parts of the front end with a state, the handle and the admission counters, are in \<open>Enqueue\<close>. The close
  worker and the deadlines of the browser pool's shutdown, and the periodic task of \<open>statistics.rs\<close>, are left out.

  \<^bold>\<open>Conventions.\<close> A Rust \<open>String\<close> is a list of characters read as its UTF-8 bytes; \<open>u8\<close> to \<open>u64\<close> are
  words; \<open>usize\<close>, durations (nanoseconds) and instants are natural numbers, with saturation written out
  where the code saturates; hash maps are association lists; errors are values of sums. Third-party
  parsers and stores (URLs, header validation, JSON, the cookie store) are arguments. Every reading of
  the clock in the dispatcher is a fresh value of a stream.
\<close>

end
